(* ===== verification/Prelude.thy ===== *)
theory Prelude
  imports Main "HOL-Library.Word" "HOL-Library.List_Lexorder" "HOL-Library.AList"
    "HOL-Library.Signed_Division"
begin

text \<open>
  Shared vocabulary of the development: Go's \<open>int64\<close> arithmetic (an \<open>int\<close> with the
  wrap-around written out), byte strings with the order of \<open>bytes.Compare\<close>, big-endian
  encodings (\<open>encoding/binary\<close>), Go maps as association lists, errors as values, and the
  error-and-state actions in which the stateful handlers are written.
\<close>

section \<open>Collections of rewrite rules\<close>

named_theorems act_simps \<open>unfolding of error-and-state actions\<close>
named_theorems be_simps \<open>big-endian encodings\<close>

section \<open>64-bit signed integers\<close>

text \<open>
  A Go \<open>int64\<close> is an \<open>int\<close> in the range \<open>is_i64\<close>; every arithmetic operation of the
  source on such values is followed by \<open>i64\<close>, the two's complement wrap-around.
\<close>

definition MaxInt64 :: int where
  "MaxInt64 = 9223372036854775807"

definition MinInt64 :: int where
  "MinInt64 = - 9223372036854775808"

definition is_i64 :: "int \<Rightarrow> bool" where
  "is_i64 x \<longleftrightarrow> MinInt64 \<le> x \<and> x \<le> MaxInt64"

definition i64 :: "int \<Rightarrow> int" where
  "i64 x = (x + 9223372036854775808) mod 18446744073709551616 - 9223372036854775808"

section \<open>Bytes\<close>

type_synonym byte = "8 word"
type_synonym bytes = "8 word list"

text \<open>\<open>[]byte(s)\<close> for a Go string.\<close>

definition bytes_of :: "string \<Rightarrow> bytes" where
  "bytes_of s = map (\<lambda>c. of_char c) s"

text \<open>
  \<open>binary.BigEndian.PutUint32\<close> and \<open>PutUint64\<close> write the low 4 or 8 bytes of the
  argument, most significant first; converting a negative \<open>int64\<close> to \<open>uint64\<close> keeps its
  two's complement bits, which the flooring \<open>div\<close> of \<open>int\<close> does too.
\<close>

primrec be_bytes :: "nat \<Rightarrow> int \<Rightarrow> bytes" where
  "be_bytes 0 x = []"
| "be_bytes (Suc n) x = be_bytes n (x div 256) @ [word_of_int x]"

definition be_val :: "bytes \<Rightarrow> int" where
  "be_val bs = foldl (\<lambda>a b. a * 256 + uint b) 0 bs"

text \<open>\<open>int64(binary.BigEndian.Uint64(b))\<close>: the unsigned value read back as two's complement.\<close>

definition int64_of_be :: "bytes \<Rightarrow> int" where
  "int64_of_be bs = i64 (be_val bs)"

section \<open>Go maps\<close>

text \<open>
  A Go map is an association list without duplicate keys. The order of the list is one
  order in which Go may iterate the map; where the source's result depends on that order,
  the model takes the order as an argument.
\<close>

type_synonym ('k, 'v) gomap = "('k \<times> 'v) list"

abbreviation go_get :: "('k, 'v) gomap \<Rightarrow> 'k \<Rightarrow> 'v option" where
  "go_get m k \<equiv> map_of m k"

abbreviation go_set :: "'k \<Rightarrow> 'v \<Rightarrow> ('k, 'v) gomap \<Rightarrow> ('k, 'v) gomap" where
  "go_set \<equiv> AList.update"

abbreviation go_delete :: "'k \<Rightarrow> ('k, 'v) gomap \<Rightarrow> ('k, 'v) gomap" where
  "go_delete \<equiv> AList.delete"

definition go_map_ok :: "('k, 'v) gomap \<Rightarrow> bool" where
  "go_map_ok m \<longleftrightarrow> distinct (map fst m)"

section \<open>Errors\<close>

text \<open>
  \<open>Err\<close> is \<open>errors.New\<close> or \<open>fmt.Errorf\<close> without a wrapped cause (the constant part of
  its message), \<open>Wrap\<close> is \<open>fmt.Errorf\<close> with its \<open>%w\<close> causes, \<open>ErrStoreWrite\<close> the struct of
  \<open>store.go\<close> and \<open>ErrFatalPipeline\<close> the sentinel of \<open>internal/kafka\<close>. \<open>Diverges\<close> is no Go
  error: it marks a computation of the model that would not return (a loop that wraps around,
  a traversal that runs out of fuel), and the properties show where it cannot occur.
\<close>

datatype error =
    Err string
  | Wrap string "error list"
  | ErrStoreWrite string error
  | ErrFatalPipeline
  | Diverges

text \<open>\<open>errors.Is(err, ErrStoreWriteSentinel)\<close> and \<open>errors.Is(err, ErrFatalPipeline)\<close>.\<close>

fun is_store_write :: "error \<Rightarrow> bool" where
  "is_store_write (Err m) = False"
| "is_store_write (Wrap m es) = list_ex is_store_write es"
| "is_store_write (ErrStoreWrite op e) = True"
| "is_store_write ErrFatalPipeline = False"
| "is_store_write Diverges = False"

fun is_fatal_pipeline :: "error \<Rightarrow> bool" where
  "is_fatal_pipeline (Err m) = False"
| "is_fatal_pipeline (Wrap m es) = list_ex is_fatal_pipeline es"
| "is_fatal_pipeline (ErrStoreWrite op e) = is_fatal_pipeline e"
| "is_fatal_pipeline ErrFatalPipeline = True"
| "is_fatal_pipeline Diverges = False"

section \<open>Actions on a state that may fail\<close>

text \<open>
  A Go function with an \<open>error\<close> result and side effects is an action: it returns an error
  or a value, and the state it leaves behind in either case. \<open>bindE\<close> is the sequence
  \<open>x, err := m(); if err != nil { return err }\<close>.
\<close>

type_synonym ('s, 'a) act = "'s \<Rightarrow> (error + 'a) \<times> 's"

definition retE :: "'a \<Rightarrow> ('s, 'a) act" where
  "retE a s = (Inr a, s)"

definition failE :: "error \<Rightarrow> ('s, 'a) act" where
  "failE e s = (Inl e, s)"

definition bindE :: "('s, 'a) act \<Rightarrow> ('a \<Rightarrow> ('s, 'b) act) \<Rightarrow> ('s, 'b) act" where
  "bindE m f s = (case m s of (Inl e, s') \<Rightarrow> (Inl e, s') | (Inr a, s') \<Rightarrow> f a s')"

definition pureE :: "error + 'a \<Rightarrow> ('s, 'a) act" where
  "pureE r s = (r, s)"

definition readE :: "('s \<Rightarrow> error + 'a) \<Rightarrow> ('s, 'a) act" where
  "readE g s = (g s, s)"

definition modifyE :: "('s \<Rightarrow> 's) \<Rightarrow> ('s, unit) act" where
  "modifyE f s = (Inr (), f s)"

definition doE :: "('s \<Rightarrow> error option \<times> 's) \<Rightarrow> ('s, unit) act" where
  "doE m s = (case m s of (None, s') \<Rightarrow> (Inr (), s') | (Some e, s') \<Rightarrow> (Inl e, s'))"

text \<open>\<open>fmt.Errorf("msg: %w", err)\<close> around an action.\<close>

definition wrapE :: "string \<Rightarrow> ('s, 'a) act \<Rightarrow> ('s, 'a) act" where
  "wrapE msg m s = (case m s of (Inl e, s') \<Rightarrow> (Inl (Wrap msg [e]), s') | (Inr a, s') \<Rightarrow> (Inr a, s'))"

text \<open>The Go result \<open>error\<close> (nil or not) of an action without a value.\<close>

definition errOf :: "('s, 'a) act \<Rightarrow> 's \<Rightarrow> error option \<times> 's" where
  "errOf m s = (case m s of (Inl e, s') \<Rightarrow> (Some e, s') | (Inr a, s') \<Rightarrow> (None, s'))"

text \<open>A loop over a slice whose body may return an error.\<close>

primrec forE :: "'x list \<Rightarrow> ('x \<Rightarrow> ('s, unit) act) \<Rightarrow> ('s, unit) act" where
  "forE [] f = retE ()"
| "forE (x # xs) f = bindE (f x) (\<lambda>_. forE xs f)"

declare retE_def [act_simps] failE_def [act_simps] bindE_def [act_simps] pureE_def [act_simps]
  readE_def [act_simps] modifyE_def [act_simps] doE_def [act_simps] wrapE_def [act_simps]
  errOf_def [act_simps]

section \<open>Lemmas on 64-bit integers\<close>

lemma i64_id: "is_i64 x \<Longrightarrow> i64 x = x"
  by (simp add: is_i64_def i64_def MaxInt64_def MinInt64_def)

lemma i64_range: "is_i64 (i64 x)"
proof -
  have "0 \<le> (x + 9223372036854775808) mod 18446744073709551616"
    and "(x + 9223372036854775808) mod 18446744073709551616 < 18446744073709551616"
    by simp_all
  then show ?thesis
    by (simp add: is_i64_def i64_def MaxInt64_def MinInt64_def)
qed

lemma i64_mod: "i64 (x mod 18446744073709551616) = i64 x"
  by (simp add: i64_def mod_simps)

lemma is_i64_between: "is_i64 a \<Longrightarrow> is_i64 c \<Longrightarrow> a \<le> b \<Longrightarrow> b \<le> c \<Longrightarrow> is_i64 b"
  by (simp add: is_i64_def)

section \<open>Lemmas on byte strings\<close>

lemma length_be_bytes [simp]: "length (be_bytes n x) = n"
  by (induction n arbitrary: x) simp_all

lemma be_val_Nil [simp]: "be_val [] = 0"
  by (simp add: be_val_def)

lemma be_val_snoc [be_simps]: "be_val (bs @ [b]) = be_val bs * 256 + uint b"
  by (simp add: be_val_def)

lemma uint_byte_bounds: "0 \<le> uint (b :: byte)" "uint (b :: byte) < 256"
  using uint_lt2p [of b] by simp_all

lemma be_val_bounds: "0 \<le> be_val bs \<and> be_val bs < 256 ^ length bs"
proof (induction bs rule: rev_induct)
  case Nil
  then show ?case by simp
next
  case (snoc b bs)
  have "be_val bs * 256 + uint b < (be_val bs + 1) * 256"
    using uint_byte_bounds(2) [of b] by simp
  also have "\<dots> \<le> 256 ^ length bs * 256"
    using snoc by simp
  finally show ?case
    using snoc uint_byte_bounds(1) [of b] by (simp add: be_simps)
qed

lemma be_val_be_bytes: "be_val (be_bytes n x) = x mod 256 ^ n"
proof (induction n arbitrary: x)
  case 0
  then show ?case by simp
next
  case (Suc n)
  have "uint (word_of_int x :: byte) = x mod 256"
    by (simp add: uint_word_of_int)
  then have "be_val (be_bytes (Suc n) x) = (x div 256 mod 256 ^ n) * 256 + x mod 256"
    by (simp add: be_simps Suc)
  also have "\<dots> = x mod (256 * 256 ^ n)"
    by (simp add: zmod_zmult2_eq)
  finally show ?case by simp
qed

lemma be_bytes_be_val: "be_bytes (length bs) (be_val bs) = bs"
proof (induction bs rule: rev_induct)
  case Nil
  then show ?case by simp
next
  case (snoc b bs)
  have "(be_val bs * 256 + uint b) div 256 = be_val bs"
    using uint_byte_bounds [of b] by simp
  moreover have "word_of_int (be_val bs * 256 + uint b) = b"
  proof -
    have "(word_of_int (be_val bs * 256 + uint b) :: byte) = word_of_int (uint b)"
      by (simp only: word_of_int_eq_iff take_bit_eq_mod) simp
    then show ?thesis by simp
  qed
  ultimately show ?case
    using snoc by (simp add: be_simps)
qed

lemma be_val_inject: "length xs = length ys \<Longrightarrow> be_val xs = be_val ys \<Longrightarrow> xs = ys"
  by (metis be_bytes_be_val)

lemma be_bytes_inject:
  "0 \<le> x \<Longrightarrow> x < 256 ^ n \<Longrightarrow> 0 \<le> y \<Longrightarrow> y < 256 ^ n \<Longrightarrow> be_bytes n x = be_bytes n y \<longleftrightarrow> x = y"
  by (metis be_val_be_bytes mod_pos_pos_trivial)

text \<open>The lexicographic order on strings with a common prefix, and on strings of equal length.\<close>

lemma append_less_append: "(xs :: bytes) @ ys < xs @ zs \<longleftrightarrow> ys < zs"
  by (induction xs) simp_all

lemma append_less_append_eq_len:
  "length (xs :: bytes) = length us \<Longrightarrow> xs @ ys < us @ zs \<longleftrightarrow> xs < us \<or> xs = us \<and> ys < zs"
  by (induction xs us rule: list_induct2) auto

lemma snoc_less_snoc: "length (xs :: bytes) = length ys \<Longrightarrow> xs @ [a] < ys @ [b] \<longleftrightarrow> xs < ys \<or> xs = ys \<and> a < b"
  by (simp add: append_less_append_eq_len)

lemma be_val_less_iff: "length xs = length ys \<Longrightarrow> xs < ys \<longleftrightarrow> be_val xs < be_val ys"
proof (induction xs arbitrary: ys rule: rev_induct)
  case Nil
  then show ?case by simp
next
  case (snoc a xs)
  then obtain zs b where ys: "ys = zs @ [b]" and len: "length xs = length zs"
    by (metis length_append_singleton length_0_conv nat.distinct(1) rev_exhaust nat.inject)
  have ab: "a < b \<longleftrightarrow> uint a < uint b"
    by (simp add: word_less_def)
  have IH: "xs < zs \<longleftrightarrow> be_val xs < be_val zs"
    using snoc.IH len by blast
  have eq: "xs = zs \<longleftrightarrow> be_val xs = be_val zs"
    using len be_val_inject by blast
  show ?case
    unfolding ys snoc_less_snoc [OF len] be_val_snoc IH eq ab
    using uint_byte_bounds [of a] uint_byte_bounds [of b] by linarith
qed

lemma be_bytes_less_iff:
  "0 \<le> x \<Longrightarrow> x < 256 ^ n \<Longrightarrow> 0 \<le> y \<Longrightarrow> y < 256 ^ n \<Longrightarrow> be_bytes n x < be_bytes n y \<longleftrightarrow> x < y"
  by (simp add: be_val_less_iff be_val_be_bytes)

lemma int64_of_be_be_bytes: "is_i64 x \<Longrightarrow> int64_of_be (be_bytes 8 x) = x"
  using i64_mod [of x] by (simp add: int64_of_be_def be_val_be_bytes i64_id)

lemma be_bytes_8_int64: "length bs = 8 \<Longrightarrow> be_bytes 8 (int64_of_be bs) = bs"
proof (rule be_val_inject)
  assume len: "length bs = 8"
  then show "length (be_bytes 8 (int64_of_be bs)) = length bs" by simp
  have bnd: "0 \<le> be_val bs" "be_val bs < 18446744073709551616"
    using be_val_bounds [of bs] len by simp_all
  have "be_val (be_bytes 8 (int64_of_be bs)) = i64 (be_val bs) mod 18446744073709551616"
    by (simp add: be_val_be_bytes int64_of_be_def)
  also have "\<dots> = be_val bs"
    using bnd by (simp add: i64_def mod_simps)
  finally show "be_val (be_bytes 8 (int64_of_be bs)) = be_val bs" .
qed

lemma be_bytes_8_inject: "is_i64 x \<Longrightarrow> is_i64 y \<Longrightarrow> be_bytes 8 x = be_bytes 8 y \<longleftrightarrow> x = y"
  by (metis int64_of_be_be_bytes)

section \<open>Lemmas on Go maps\<close>

lemma go_get_set [simp]: "map_of (AList.update k v m) = (map_of m)(k \<mapsto> v)"
  by (rule update_conv')

lemma go_get_delete [simp]: "map_of (AList.delete k m) = (map_of m)(k := None)"
  by (rule delete_conv')

lemma go_map_ok_Nil [simp]: "go_map_ok []"
  by (simp add: go_map_ok_def)

lemma go_map_ok_set [simp]: "go_map_ok m \<Longrightarrow> go_map_ok (AList.update k v m)"
  by (simp add: go_map_ok_def distinct_update)

lemma go_map_ok_delete [simp]: "go_map_ok m \<Longrightarrow> go_map_ok (AList.delete k m)"
  by (simp add: go_map_ok_def distinct_delete)

lemma go_map_in_set: "go_map_ok m \<Longrightarrow> (k, v) \<in> set m \<longleftrightarrow> map_of m k = Some v"
  by (simp add: go_map_ok_def)

end
