(* ===== verification/WinKey.thy ===== *)
theory WinKey
  imports Prelude "HOL-Library.Sublist"
begin

text \<open>
  The composite keys of windowed, session and join stores: \<open>internal/winkey\<close>, the decoders of
  \<open>stores/memory\<close>, \<open>stores/pebble\<close> and \<open>internal/runtime\<close>, and the prefix bounds with which
  the stores turn \<open>all entries under a key\<close> into a byte range.
\<close>

section \<open>Definitions\<close>

text \<open>
  \<open>winkey.CompositeKey\<close>: \<open>uint32(len(kBytes)) | kBytes | int64(windowStart)\<close>, both integers
  big-endian.
\<close>

definition CompositeKey :: "bytes \<Rightarrow> int \<Rightarrow> bytes" where
  "CompositeKey kBytes windowStart =
     be_bytes 4 (int (length kBytes)) @ kBytes @ be_bytes 8 windowStart"

definition WindowCompositeKey :: "bytes \<Rightarrow> int \<Rightarrow> bytes" where
  "WindowCompositeKey kBytes windowStart = CompositeKey kBytes windowStart"

text \<open>\<open>int(binary.BigEndian.Uint32(raw[0:4]))\<close>, read by the three decoders.\<close>

definition key_length :: "bytes \<Rightarrow> nat" where
  "key_length raw = nat (be_val (take 4 raw))"

text \<open>\<open>pebble.DecodeWindowCompositeKey\<close>.\<close>

definition DecodeWindowCompositeKey :: "bytes \<Rightarrow> error + bytes \<times> int" where
  "DecodeWindowCompositeKey raw =
     (if length raw < 4 then Inl (Err ''state: WindowCompositeKey too short'')
      else let kLen = key_length raw in
        if length raw \<noteq> 4 + kLen + 8 then Inl (Err ''state: WindowCompositeKey malformed'')
        else Inr (take kLen (drop 4 raw), int64_of_be (drop (4 + kLen) raw)))"

text \<open>\<open>memory.decodeCompositeKey\<close>.\<close>

definition decodeCompositeKey :: "bytes \<Rightarrow> error + bytes \<times> int" where
  "decodeCompositeKey raw =
     (if length raw < 12 then Inl (Err ''memory: composite key too short'')
      else let keyLength = key_length raw in
        if length raw \<noteq> 4 + keyLength + 8 then Inl (Err ''memory: malformed composite key'')
        else Inr (take keyLength (drop 4 raw), int64_of_be (drop (4 + keyLength) raw)))"

text \<open>\<open>runtime.decodeWindowCompositeKey\<close>, used by the retention sweeps.\<close>

definition decodeWindowCompositeKey :: "bytes \<Rightarrow> error + bytes \<times> int" where
  "decodeWindowCompositeKey raw =
     (if length raw < 12 then Inl (Err ''window composite key too short'')
      else let keyLength = key_length raw in
        if length raw \<noteq> 4 + keyLength + 8 then Inl (Err ''window composite key length mismatch'')
        else Inr (take keyLength (drop 4 raw), int64_of_be (drop (4 + keyLength) raw)))"

text \<open>
  \<open>prefixUpperBound\<close> of \<open>stores/memory\<close> (test, then increment) and of \<open>stores/pebble\<close>
  (increment, then test for the wrap to 0). The second argument is the loop index plus one;
  \<open>None\<close> is the nil result.
\<close>

primrec prefixUpperBound_loop :: "bytes \<Rightarrow> nat \<Rightarrow> bytes option" where
  "prefixUpperBound_loop upper 0 = None"
| "prefixUpperBound_loop upper (Suc i) =
     (if upper ! i \<noteq> 255 then Some (take (Suc i) (upper[i := upper ! i + 1]))
      else prefixUpperBound_loop upper i)"

definition prefixUpperBound :: "bytes \<Rightarrow> bytes option" where
  "prefixUpperBound p = prefixUpperBound_loop p (length p)"

primrec pebble_prefixUpperBound_loop :: "nat \<Rightarrow> bytes \<Rightarrow> bytes option" where
  "pebble_prefixUpperBound_loop 0 ub = None"
| "pebble_prefixUpperBound_loop (Suc i) ub =
     (let ub' = ub[i := ub ! i + 1] in
      if ub' ! i \<noteq> 0 then Some (take (Suc i) ub') else pebble_prefixUpperBound_loop i ub')"

definition pebble_prefixUpperBound :: "bytes \<Rightarrow> bytes option" where
  "pebble_prefixUpperBound p = pebble_prefixUpperBound_loop (length p) p"

definition WindowKeyLowerBound :: "bytes \<Rightarrow> bytes" where
  "WindowKeyLowerBound kBytes = WindowCompositeKey kBytes 0"

definition WindowKeyUpperBound :: "bytes \<Rightarrow> bytes option" where
  "WindowKeyUpperBound kBytes =
     pebble_prefixUpperBound (be_bytes 4 (int (length kBytes)) @ kBytes)"

text \<open>
  Key lengths the \<open>uint32\<close> length field can represent (one value is spared so that the
  length field is never all \<open>0xff\<close>).
\<close>

definition key_fits :: "bytes \<Rightarrow> bool" where
  "key_fits k \<longleftrightarrow> length k < 4294967295"

definition key_prefix :: "bytes \<Rightarrow> bytes" where
  "key_prefix k = be_bytes 4 (int (length k)) @ k"

section \<open>Round trips\<close>

lemma length_CompositeKey [simp]: "length (CompositeKey k t) = 12 + length k"
  by (simp add: CompositeKey_def)

lemma CompositeKey_prefix: "CompositeKey k t = key_prefix k @ be_bytes 8 t"
  by (simp add: CompositeKey_def key_prefix_def)

lemma be_val_length_field: "key_fits k \<Longrightarrow> be_val (be_bytes 4 (int (length k))) = int (length k)"
  by (simp add: be_val_be_bytes key_fits_def)

lemma key_length_CompositeKey: "key_fits k \<Longrightarrow> key_length (CompositeKey k t) = length k"
  using be_val_length_field [of k] by (simp add: key_length_def CompositeKey_def)

lemma decode_CompositeKey:
  assumes "key_fits k" and "is_i64 t"
  shows "decodeCompositeKey (CompositeKey k t) = Inr (k, t)"
proof -
  have "drop 4 (CompositeKey k t) = k @ be_bytes 8 t"
    and "drop (4 + length k) (CompositeKey k t) = be_bytes 8 t"
    by (simp_all add: CompositeKey_def)
  then show ?thesis
    using assms key_length_CompositeKey [of k t]
    by (simp add: decodeCompositeKey_def int64_of_be_be_bytes)
qed

lemma decode_imp_CompositeKey:
  assumes "decodeCompositeKey raw = Inr (k, t)"
  shows "raw = CompositeKey k t \<and> is_i64 t"
proof -
  define n where "n = key_length raw"
  have len: "length raw = 4 + n + 8" and k: "k = take n (drop 4 raw)"
    and t: "t = int64_of_be (drop (4 + n) raw)"
    using assms by (auto simp: decodeCompositeKey_def n_def Let_def split: if_splits)
  have lk: "length k = n" using len k by simp
  have "int n = be_val (take 4 raw)"
    using be_val_bounds [of "take 4 raw"] by (simp add: n_def key_length_def)
  then have "be_bytes 4 (int (length k)) = take 4 raw"
    using be_bytes_be_val [of "take 4 raw"] len lk by simp
  moreover have "be_bytes 8 t = drop (4 + n) raw"
    using be_bytes_8_int64 [of "drop (4 + n) raw"] len t by simp
  moreover have "raw = take 4 raw @ take n (drop 4 raw) @ drop (4 + n) raw"
    by (metis add.commute append_take_drop_id drop_drop)
  ultimately show ?thesis
    using k t by (simp add: CompositeKey_def int64_of_be_def i64_range)
qed

lemma decoders_agree:
  "decodeCompositeKey raw = Inr (k, t) \<longleftrightarrow> DecodeWindowCompositeKey raw = Inr (k, t)"
  "decodeCompositeKey raw = Inr (k, t) \<longleftrightarrow> decodeWindowCompositeKey raw = Inr (k, t)"
  by (auto simp: decodeCompositeKey_def DecodeWindowCompositeKey_def decodeWindowCompositeKey_def
      Let_def split: if_splits)

lemma CompositeKey_inject:
  assumes "key_fits k" "key_fits k'" "is_i64 t" "is_i64 t'"
  shows "CompositeKey k t = CompositeKey k' t' \<longleftrightarrow> k = k' \<and> t = t'"
  using decode_CompositeKey [OF assms(1,3)] decode_CompositeKey [OF assms(2,4)]
  by (metis Inr_inject prod.inject)

lemma key_prefix_same_length: "key_fits k \<Longrightarrow> key_fits k' \<Longrightarrow> prefix (key_prefix k) (key_prefix k' @ r) \<Longrightarrow> k = k'"
proof -
  assume fits: "key_fits k" "key_fits k'" and pre: "prefix (key_prefix k) (key_prefix k' @ r)"
  then obtain z where z: "be_bytes 4 (int (length k)) @ k @ z = be_bytes 4 (int (length k')) @ k' @ r"
    by (auto simp: prefix_def key_prefix_def)
  then have "be_bytes 4 (int (length k)) = be_bytes 4 (int (length k'))" and kz: "k @ z = k' @ r"
    by (metis append_eq_append_conv length_be_bytes)+
  then have "length k = length k'"
    using be_val_length_field [OF fits(1)] be_val_length_field [OF fits(2)] by (metis of_nat_eq_iff)
  with kz show "k = k'" by (metis append_eq_append_conv)
qed

section \<open>Order of composite keys\<close>

lemma CompositeKey_less_iff:
  assumes "0 \<le> t" "t \<le> MaxInt64" "0 \<le> t'" "t' \<le> MaxInt64"
  shows "CompositeKey k t < CompositeKey k t' \<longleftrightarrow> t < t'"
  using assms be_bytes_less_iff [of t 8 t']
  by (simp add: CompositeKey_prefix append_less_append MaxInt64_def)

section \<open>Prefix bounds\<close>

lemma prefixUpperBound_loop_append:
  "n \<le> length p \<Longrightarrow> prefixUpperBound_loop (p @ r) n = prefixUpperBound_loop p n"
  by (induction n) (simp_all add: nth_append list_update_append)

lemma prefixUpperBound_Nil: "prefixUpperBound [] = None"
  by (simp add: prefixUpperBound_def)

lemma prefixUpperBound_snoc:
  "prefixUpperBound (p @ [b]) = (if b \<noteq> 255 then Some (p @ [b + 1]) else prefixUpperBound p)"
  using prefixUpperBound_loop_append [of "length p" p "[255]"]
  by (auto simp: prefixUpperBound_def list_update_append)

lemma byte_plus_one_eq_0: "(b :: byte) + 1 = 0 \<longleftrightarrow> b = 255"
proof
  assume "b + 1 = 0"
  then have "b = 0 - 1" by (simp only: eq_diff_eq)
  then show "b = 255" by simp
qed simp

lemma pebble_loop_eq:
  "n \<le> length ub \<Longrightarrow> pebble_prefixUpperBound_loop n ub = prefixUpperBound_loop (take n ub) n"
proof (induction n arbitrary: ub)
  case 0
  then show ?case by simp
next
  case (Suc i)
  have tk: "take i (ub[i := v]) = take i ub" for v
    by (simp add: list_eq_iff_nth_eq)
  have split: "take (Suc i) ub = take i ub @ [ub ! i]"
    using Suc.prems by (simp add: take_Suc_conv_app_nth)
  have "prefixUpperBound_loop (take (Suc i) ub) i = prefixUpperBound_loop (take i ub) i"
    using Suc.prems by (simp add: split prefixUpperBound_loop_append)
  then show ?case
    using Suc.prems Suc.IH [of "ub[i := 256]"]
    by (auto simp: Let_def tk byte_plus_one_eq_0 take_update_swap [of "Suc i"])
qed

lemma prefixUpperBound_eq_pebble: "pebble_prefixUpperBound p = prefixUpperBound p"
  by (simp add: pebble_prefixUpperBound_def prefixUpperBound_def pebble_loop_eq)

lemma prefixUpperBound_None: "prefixUpperBound p = None \<longleftrightarrow> set p \<subseteq> {255}"
  by (induction p rule: rev_induct) (auto simp: prefixUpperBound_Nil prefixUpperBound_snoc)

lemma byte_between: "(b :: byte) \<noteq> 255 \<Longrightarrow> b \<le> c \<Longrightarrow> c < b + 1 \<Longrightarrow> c = b"
  by (metis add.commute inc_le linorder_not_less order_antisym)

lemma byte_le_255: "(b :: byte) \<le> 255"
  using uint_byte_bounds [of b] by (simp add: word_le_def)

lemma byte_less_Suc: "(b :: byte) \<noteq> 255 \<Longrightarrow> b < b + 1"
  using byte_plus_one_eq_0 [of b] by unat_arith

lemma append_le_append: "(xs :: bytes) @ ys \<le> xs @ zs \<longleftrightarrow> ys \<le> zs"
  by (induction xs) simp_all

lemma between_prefix_extension:
  "(p :: bytes) @ a \<le> x \<Longrightarrow> x < p @ b \<Longrightarrow> \<exists>r. x = p @ r"
proof (induction p arbitrary: x)
  case Nil
  then show ?case by simp
next
  case (Cons c p)
  then show ?case by (cases x) auto
qed

lemma prefixUpperBound_range:
  "prefixUpperBound p = Some u \<Longrightarrow> p \<le> x \<and> x < u \<longleftrightarrow> prefix p x"
proof (induction p arbitrary: u rule: rev_induct)
  case Nil
  then show ?case by (simp add: prefixUpperBound_Nil)
next
  case (snoc b p)
  show ?case
  proof (cases "b = 255")
    case False
    then have u: "u = p @ [b + 1]"
      using snoc.prems by (simp add: prefixUpperBound_snoc)
    show ?thesis
    proof
      assume x: "p @ [b] \<le> x \<and> x < u"
      then obtain r where r: "x = p @ r"
        using between_prefix_extension u by blast
      then have "[b] \<le> r" and "r < [b + 1]"
        using x u by (simp_all add: append_le_append append_less_append)
      then obtain r' where "r = b # r'"
        using byte_between [OF False] by (cases r) (auto simp: order_le_less)
      with r show "prefix (p @ [b]) x" by (simp add: prefix_def)
    next
      assume "prefix (p @ [b]) x"
      then obtain r' where "x = p @ b # r'" by (auto simp: prefix_def)
      then show "p @ [b] \<le> x \<and> x < u"
        using u byte_less_Suc [OF False]
        by (simp add: append_le_append append_less_append)
    qed
  next
    case True
    then have u: "prefixUpperBound p = Some u"
      using snoc.prems by (simp add: prefixUpperBound_snoc)
    show ?thesis
    proof
      assume x: "p @ [b] \<le> x \<and> x < u"
      moreover have "p \<le> p @ [b]"
        using append_le_append [of p "[]" "[b]"] by simp
      ultimately have "prefix p x"
        using snoc.IH [OF u] by (meson order_trans)
      then obtain r where r: "x = p @ r" by (auto simp: prefix_def)
      then have "[b] \<le> r" using x by (simp add: append_le_append)
      then obtain r' where "r = b # r'"
        using True by (cases r) (auto simp: order_le_less dest: order_less_le_trans [OF _ byte_le_255])
      with r show "prefix (p @ [b]) x" by (simp add: prefix_def)
    next
      assume pre: "prefix (p @ [b]) x"
      then obtain r' where x: "x = p @ b # r'" by (auto simp: prefix_def)
      then have "prefix p x" by simp
      then show "p @ [b] \<le> x \<and> x < u"
        using snoc.IH [OF u] x by (simp add: append_le_append)
    qed
  qed
qed

lemma key_prefix_upper_bound:
  assumes "key_fits k"
  obtains u where "prefixUpperBound (key_prefix k) = Some u"
proof (cases "prefixUpperBound (key_prefix k)")
  case None
  then have "set (be_bytes 4 (int (length k))) \<subseteq> {255}"
    by (simp add: prefixUpperBound_None key_prefix_def)
  then have "be_bytes 4 (int (length k)) = replicate 4 255"
    using replicate_length_same [of "be_bytes 4 (int (length k))" 255] unfolding length_be_bytes
    by (metis insertE emptyE subsetD)
  then have "be_val (be_bytes 4 (int (length k))) = be_val (replicate 4 255)"
    by (rule arg_cong)
  also have "be_val (replicate 4 255) = 4294967295"
    by code_simp
  finally have "int (length k) = 4294967295"
    unfolding be_val_length_field [OF assms] .
  with assms show ?thesis by (simp add: key_fits_def)
qed (rule that)

lemma CompositeKey_ge_zero: "is_i64 t \<Longrightarrow> CompositeKey k 0 \<le> CompositeKey k t"
proof -
  assume "is_i64 t"
  have "0 \<le> be_val (be_bytes 8 t)"
    using be_val_bounds by blast
  then have "be_bytes 8 0 \<le> be_bytes 8 t"
    using be_val_less_iff [of "be_bytes 8 t" "be_bytes 8 0"]
    by (simp add: be_val_be_bytes not_less flip: linorder_not_less)
  then show ?thesis
    by (simp add: CompositeKey_prefix append_le_append)
qed

lemma range_for_key_iff:
  assumes "key_fits k" "key_fits k'" "is_i64 t"
    and u: "prefixUpperBound (key_prefix k) = Some u"
  shows "CompositeKey k 0 \<le> CompositeKey k' t \<and> CompositeKey k' t < u \<longleftrightarrow> k' = k"
proof
  assume *: "CompositeKey k 0 \<le> CompositeKey k' t \<and> CompositeKey k' t < u"
  have "key_prefix k \<le> CompositeKey k 0"
    using append_le_append [of "key_prefix k" "[]"] by (simp add: CompositeKey_prefix)
  then have "prefix (key_prefix k) (CompositeKey k' t)"
    using * prefixUpperBound_range [OF u] by (meson order_trans)
  then show "k' = k"
    using key_prefix_same_length assms(1,2) by (metis CompositeKey_prefix)
next
  assume k: "k' = k"
  have "prefix (key_prefix k) (CompositeKey k t)"
    by (simp add: CompositeKey_prefix)
  then have "CompositeKey k t < u"
    using prefixUpperBound_range [OF u] by blast
  then show "CompositeKey k 0 \<le> CompositeKey k' t \<and> CompositeKey k' t < u"
    using k CompositeKey_ge_zero [OF assms(3)] by simp
qed

section \<open>Properties\<close>

text \<open>
  C35: The composite key of \<open>winkey.CompositeKey\<close> is decoded back to the key and the window start
  by each of the three decoders of the code base, and each of the three returns that pair for
  this byte string and for no other; so distinct pairs never share a store key.
\<close>

theorem composite_key_roundtrip:
  assumes "key_fits k" and "is_i64 t"
  shows "DecodeWindowCompositeKey (CompositeKey k t) = Inr (k, t)
    \<and> decodeCompositeKey (CompositeKey k t) = Inr (k, t)
    \<and> decodeWindowCompositeKey (CompositeKey k t) = Inr (k, t)
    \<and> (\<forall>raw. DecodeWindowCompositeKey raw = Inr (k, t) \<longleftrightarrow> raw = CompositeKey k t)
    \<and> (\<forall>raw. decodeCompositeKey raw = Inr (k, t) \<longleftrightarrow> raw = CompositeKey k t)
    \<and> (\<forall>raw. decodeWindowCompositeKey raw = Inr (k, t) \<longleftrightarrow> raw = CompositeKey k t)"
proof -
  have memory: "decodeCompositeKey raw = Inr (k, t) \<longleftrightarrow> raw = CompositeKey k t" for raw
    using decode_CompositeKey [OF assms] decode_imp_CompositeKey [of raw k t] by blast
  then show ?thesis
    by (simp add: decoders_agree [of _ k t, symmetric])
qed

theorem composite_key_roundtrip_witness:
  "DecodeWindowCompositeKey (CompositeKey [1, 0] (-5)) = Inr ([1, 0], -5)"
  using composite_key_roundtrip [of "[1, 0]" "-5"]
  by (simp add: key_fits_def is_i64_def MaxInt64_def MinInt64_def)

text \<open>
  The byte range \<open>[WindowKeyLowerBound k, WindowKeyUpperBound k)\<close> that \<open>RangeForKey\<close> scans
  holds the composite keys of \<open>k\<close>, for every window start, and those of no other key; the
  upper bound exists, and both implementations of \<open>prefixUpperBound\<close> compute it.
\<close>

theorem window_key_bounds_exact:
  assumes "key_fits k" and "key_fits k'" and "is_i64 t"
  shows "\<exists>u. WindowKeyUpperBound k = Some u \<and> prefixUpperBound (key_prefix k) = Some u
    \<and> (WindowKeyLowerBound k \<le> CompositeKey k' t \<and> CompositeKey k' t < u \<longleftrightarrow> k' = k)"
proof -
  obtain u where u: "prefixUpperBound (key_prefix k) = Some u"
    using key_prefix_upper_bound assms(1) by blast
  then have "WindowKeyUpperBound k = Some u"
    by (simp add: WindowKeyUpperBound_def prefixUpperBound_eq_pebble key_prefix_def)
  with u range_for_key_iff [OF assms u] show ?thesis
    by (simp add: WindowKeyLowerBound_def WindowCompositeKey_def)
qed

theorem window_key_bounds_exact_witness:
  "\<exists>u. WindowKeyUpperBound [7] = Some u
    \<and> WindowKeyLowerBound [7] \<le> CompositeKey [7] 12 \<and> CompositeKey [7] 12 < u"
  using window_key_bounds_exact [of "[7]" "[7]" 12]
  by (auto simp: key_fits_def is_i64_def MaxInt64_def MinInt64_def)

end
