(* ===== verification/StoreApi.thy ===== *)
theory StoreApi
  imports WinKey
begin

text \<open>
  \<open>store.go\<close> and \<open>serde.go\<close>: the contracts between the runtime, the stateful operators and
  the storage back ends. An interface of the source is a record of its operations; the laws
  its clients rely on are a locale. Boxed values (\<open>any\<close>) and typed accesses to them
  (\<open>v.(T)\<close>) are here too, because every operator needs them.
\<close>

section \<open>Serdes and boxed values\<close>

record 't Serde =
  Serialize :: "'t \<Rightarrow> error + bytes"
  Deserialize :: "bytes \<Rightarrow> error + 't"

text \<open>
  A type argument \<open>T\<close> of a generic operator, seen from the universe \<open>'a\<close> of boxed values:
  the type assertion \<open>x, ok := v.(T)\<close> and the boxing of a \<open>T\<close> into \<open>any\<close>.
\<close>

record ('a, 't) gotype =
  type_assert :: "'a \<Rightarrow> 't option"
  box :: "'t \<Rightarrow> 'a"

text \<open>A universe of boxed values that holds the types the runtime itself boxes.\<close>

datatype goval =
    GoNil
  | GoInt64 int
  | GoString string
  | GoBytes bytes
  | GoPair goval goval

fun assert_int64 :: "goval \<Rightarrow> int option" where
  "assert_int64 (GoInt64 i) = Some i"
| "assert_int64 _ = None"

fun assert_string :: "goval \<Rightarrow> string option" where
  "assert_string (GoString s) = Some s"
| "assert_string _ = None"

fun assert_bytes :: "goval \<Rightarrow> bytes option" where
  "assert_bytes (GoBytes b) = Some b"
| "assert_bytes _ = None"

definition int64_type :: "(goval, int) gotype" where
  "int64_type = \<lparr>type_assert = assert_int64, box = GoInt64\<rparr>"

definition string_type :: "(goval, string) gotype" where
  "string_type = \<lparr>type_assert = assert_string, box = GoString\<rparr>"

definition bytes_type :: "(goval, bytes) gotype" where
  "bytes_type = \<lparr>type_assert = assert_bytes, box = GoBytes\<rparr>"

text \<open>\<open>serdes/bytes\<close>, and the unexported copy of it in \<open>stores/memory\<close>: the identity.\<close>

definition bytesserde :: "bytes Serde" where
  "bytesserde = \<lparr>Serialize = (\<lambda>v. Inr v), Deserialize = (\<lambda>b. Inr b)\<rparr>"

text \<open>What the operators rely on: boxing is undone by the type assertion \<dots>\<close>

locale go_type =
  fixes ty :: "('a, 't) gotype"
  assumes assert_box [simp]: "type_assert ty (box ty t) = Some t"

text \<open>\<dots> and what is serialized is read back (the contract stated on \<open>Serde[T]\<close>).\<close>

locale serde_law =
  fixes sd :: "'t Serde"
  assumes serde_roundtrip: "Serialize sd t = Inr b \<Longrightarrow> Deserialize sd b = Inr t"
begin

lemma serialize_inject: "Serialize sd t = Inr b \<Longrightarrow> Serialize sd t' = Inr b \<Longrightarrow> t = t'"
  using serde_roundtrip by (metis Inr_inject)

end

locale total_serde = serde_law +
  assumes serialize_total: "\<exists>b. Serialize sd t = Inr b"
begin

definition enc :: "'a \<Rightarrow> bytes" where
  "enc t = (case Serialize sd t of Inr b \<Rightarrow> b | Inl _ \<Rightarrow> [])"

lemma serialize_enc [simp]: "Serialize sd t = Inr (enc t)"
  using serialize_total [of t] by (auto simp: enc_def)

lemma deserialize_enc [simp]: "Deserialize sd (enc t) = Inr t"
  by (rule serde_roundtrip) simp

lemma enc_inject [simp]: "enc t = enc t' \<longleftrightarrow> t = t'"
  by (metis deserialize_enc Inr_inject)

end

interpretation int64_ty: go_type int64_type
  by unfold_locales (simp add: int64_type_def)

interpretation string_ty: go_type string_type
  by unfold_locales (simp add: string_type_def)

interpretation bytes_ty: go_type bytes_type
  by unfold_locales (simp add: bytes_type_def)

interpretation bytes_sd: total_serde bytesserde
  by unfold_locales (simp_all add: bytesserde_def)

section \<open>The store interface\<close>

text \<open>A \<open>nil\<close> value of a mutation, which stands for a deletion, is \<open>None\<close>.\<close>

record StoreMutation =
  m_Key :: bytes
  m_Value :: "bytes option"

text \<open>
  \<open>gstream.Store\<close>, over a state \<open>'s\<close> that the operations share. \<open>Get\<close> returns the pair
  \<open>(value, found)\<close> as an option. A \<open>Range\<close> operation returns the entries it offers to the
  visitor, in order, and the error that ends the enumeration: every implementation
  enumerates a snapshot, so the visitor cannot influence what it is offered except by stopping.
\<close>

record 's Store =
  Get :: "bytes \<Rightarrow> 's \<Rightarrow> error + bytes option"
  Put :: "bytes \<Rightarrow> bytes \<Rightarrow> 's \<Rightarrow> error option \<times> 's"
  Delete :: "bytes \<Rightarrow> 's \<Rightarrow> error option \<times> 's"
  Range :: "'s \<Rightarrow> (bytes \<times> bytes) list \<times> error option"
  WindowGet :: "bytes \<Rightarrow> int \<Rightarrow> 's \<Rightarrow> error + bytes option"
  WindowPut :: "bytes \<Rightarrow> int \<Rightarrow> bytes \<Rightarrow> 's \<Rightarrow> error option \<times> 's"
  WindowDelete :: "bytes \<Rightarrow> int \<Rightarrow> 's \<Rightarrow> error option \<times> 's"
  RangeCompositeBytes :: "bytes \<Rightarrow> bytes \<Rightarrow> 's \<Rightarrow> (bytes \<times> bytes) list \<times> error option"
  RangeForKey :: "bytes \<Rightarrow> 's \<Rightarrow> (int \<times> bytes) list \<times> error option"
  DrainMutations :: "'s \<Rightarrow> StoreMutation list \<times> 's"
  Close :: "'s \<Rightarrow> error option \<times> 's"

text \<open>
  A visitor closure: it folds over the offered entries and returns whether to go on
  (\<open>Inr\<close>) or stop (\<open>Inl\<close>). The enumeration's own error is reported only if the visitor
  was still going when it occurred.
\<close>

primrec visit_loop :: "('e \<Rightarrow> 'c \<Rightarrow> 'c + 'c) \<Rightarrow> 'e list \<Rightarrow> error option \<Rightarrow> 'c \<Rightarrow> 'c \<times> error option" where
  "visit_loop visit [] err c = (c, err)"
| "visit_loop visit (e # es) err c =
     (case visit e c of Inl c' \<Rightarrow> (c', None) | Inr c' \<Rightarrow> visit_loop visit es err c')"

text \<open>The entries of a key-value map with keys in \<open>[lower, upper)\<close>, in key order.\<close>

definition entries_between :: "bytes \<Rightarrow> bytes \<Rightarrow> (bytes \<rightharpoonup> bytes) \<Rightarrow> (bytes \<times> bytes) list" where
  "entries_between lower upper m =
     map (\<lambda>k. (k, the (m k))) (sorted_list_of_set {k \<in> dom m. lower \<le> k \<and> k < upper})"

definition window_entries :: "bytes \<Rightarrow> (bytes \<rightharpoonup> bytes) \<Rightarrow> (int \<times> bytes) list" where
  "window_entries key m =
     map (\<lambda>(c, v). (int64_of_be (drop (4 + length key) c), v))
       (entries_between (CompositeKey key 0) (the (prefixUpperBound (key_prefix key))) m)"

text \<open>Every key of the map is a composite key: the state of a store used only through its window operations.\<close>

definition window_keys :: "(bytes \<rightharpoonup> bytes) \<Rightarrow> bool" where
  "window_keys m \<longleftrightarrow> (\<forall>c \<in> dom m. \<exists>k t. key_fits k \<and> is_i64 t \<and> c = CompositeKey k t)"

text \<open>
  The contract of a store: in the states \<open>ok\<close> (not closed, no failing medium) its operations
  read and write the finite map \<open>view\<close>.
\<close>

locale byte_store =
  fixes st :: "'s Store"
    and view :: "'s \<Rightarrow> bytes \<rightharpoonup> bytes"
    and ok :: "'s \<Rightarrow> bool"
  assumes finite_view: "ok s \<Longrightarrow> finite (dom (view s))"
    and get_law: "ok s \<Longrightarrow> Get st k s = Inr (view s k)"
    and put_law: "ok s \<Longrightarrow> Put st k v s = (e, s') \<Longrightarrow> e = None \<and> ok s' \<and> view s' = (view s)(k \<mapsto> v)"
    and delete_law: "ok s \<Longrightarrow> Delete st k s = (e, s') \<Longrightarrow> e = None \<and> ok s' \<and> view s' = (view s)(k := None)"
    and window_get_law: "ok s \<Longrightarrow> WindowGet st k t s = Inr (view s (CompositeKey k t))"
    and window_put_law: "ok s \<Longrightarrow> WindowPut st k t v s = (e, s') \<Longrightarrow>
      e = None \<and> ok s' \<and> view s' = (view s)(CompositeKey k t \<mapsto> v)"
    and window_delete_law: "ok s \<Longrightarrow> WindowDelete st k t s = (e, s') \<Longrightarrow>
      e = None \<and> ok s' \<and> view s' = (view s)(CompositeKey k t := None)"
    and range_composite_law: "ok s \<Longrightarrow>
      RangeCompositeBytes st lower upper s = (entries_between lower upper (view s), None)"
    and range_for_key_law: "ok s \<Longrightarrow> key_fits k \<Longrightarrow> window_keys (view s) \<Longrightarrow>
      RangeForKey st k s = (window_entries k (view s), None)"
    and range_law: "ok s \<Longrightarrow>
      Range st s = (map (\<lambda>k. (k, the (view s k))) (sorted_list_of_set (dom (view s))), None)"

section \<open>Lemmas on enumerations\<close>

lemma entries_between_set:
  "finite (dom m) \<Longrightarrow> (k, v) \<in> set (entries_between lower upper m) \<longleftrightarrow> m k = Some v \<and> lower \<le> k \<and> k < upper"
  by (auto simp: entries_between_def)

lemma entries_between_sorted: "sorted_wrt (<) (map fst (entries_between lower upper m))"
  by (simp add: entries_between_def comp_def)

lemma window_keys_upd: "window_keys m \<Longrightarrow> key_fits k \<Longrightarrow> is_i64 t \<Longrightarrow> window_keys (m(CompositeKey k t \<mapsto> v))"
  by (auto simp: window_keys_def)

lemma window_keys_del: "window_keys m \<Longrightarrow> window_keys (m(c := None))"
  by (auto simp: window_keys_def)

lemma window_keys_empty [simp]: "window_keys Map.empty"
  by (simp add: window_keys_def)

lemma between_key_bounds:
  assumes "window_keys m" "key_fits k" "c \<in> dom m"
  shows "CompositeKey k 0 \<le> c \<and> c < the (prefixUpperBound (key_prefix k))
    \<longleftrightarrow> (\<exists>t. is_i64 t \<and> c = CompositeKey k t)"
proof -
  obtain k' t where c: "key_fits k'" "is_i64 t" "c = CompositeKey k' t"
    using assms unfolding window_keys_def by blast
  obtain u where u: "prefixUpperBound (key_prefix k) = Some u"
    using key_prefix_upper_bound assms(2) by blast
  show ?thesis
    using range_for_key_iff [OF assms(2) c(1,2) u] CompositeKey_inject c assms(2) u by auto
qed

lemma window_entries_set:
  assumes "finite (dom m)" "window_keys m" "key_fits k"
  shows "(t, v) \<in> set (window_entries k m) \<longleftrightarrow> is_i64 t \<and> m (CompositeKey k t) = Some v"
proof -
  have dec: "is_i64 t \<Longrightarrow> int64_of_be (drop (4 + length k) (CompositeKey k t)) = t" for t
    by (simp add: CompositeKey_def int64_of_be_be_bytes)
  let ?E = "entries_between (CompositeKey k 0) (the (prefixUpperBound (key_prefix k))) m"
  have mem: "(c, v) \<in> set ?E \<longleftrightarrow> m c = Some v \<and> (\<exists>t. is_i64 t \<and> c = CompositeKey k t)" for c
    using between_key_bounds [OF assms(2,3), of c] by (auto simp: entries_between_set assms(1))
  have "(t, v) \<in> set (window_entries k m)
      \<longleftrightarrow> (\<exists>c. (c, v) \<in> set ?E \<and> t = int64_of_be (drop (4 + length k) c))"
    by (force simp: window_entries_def)
  also have "\<dots> \<longleftrightarrow> is_i64 t \<and> m (CompositeKey k t) = Some v"
    using dec by (auto simp: mem)
  finally show ?thesis .
qed

lemma window_entries_distinct:
  assumes "finite (dom m)" "window_keys m" "key_fits k"
  shows "distinct (map fst (window_entries k m))"
proof -
  let ?E = "entries_between (CompositeKey k 0) (the (prefixUpperBound (key_prefix k))) m"
  have 1: "distinct (map fst ?E)"
    using entries_between_sorted strict_sorted_iff by blast
  have 2: "\<exists>t. is_i64 t \<and> c = CompositeKey k t" if "c \<in> fst ` set ?E" for c
    using that between_key_bounds [OF assms(2,3), of c]
    by (auto simp: entries_between_set assms(1) domI)
  have "inj_on (\<lambda>c. int64_of_be (drop (4 + length k) c)) (set (map fst ?E))"
  proof (rule inj_onI)
    fix c c'
    assume "c \<in> set (map fst ?E)" "c' \<in> set (map fst ?E)"
      and eq: "int64_of_be (drop (4 + length k) c) = int64_of_be (drop (4 + length k) c')"
    then obtain t t' where "is_i64 t" "c = CompositeKey k t" "is_i64 t'" "c' = CompositeKey k t'"
      using 2 by (metis list.set_map)
    with eq show "c = c'"
      by (simp add: CompositeKey_def int64_of_be_be_bytes)
  qed
  then have "distinct (map (\<lambda>c. int64_of_be (drop (4 + length k) c)) (map fst ?E))"
    using 1 by (simp only: distinct_map [of _ "map fst ?E"] simp_thms)
  then show ?thesis
    by (simp add: window_entries_def comp_def case_prod_beta)
qed

end
