(* ===== verification/Topology.thy ===== *)
theory Topology
  imports StoreApi
begin

text \<open>
  \<open>internal/topology\<close>: records, processor contexts, the builder of the processor graph, the
  depth-first execution of a record through it, the \<open>Executor\<close> of the runtime and the
  \<open>TestDriver\<close>. Nodes refer to each other by name; the source's pointers are the lookups.
\<close>

section \<open>Records and processor functions\<close>

record 'a Record =
  r_Key :: 'a
  r_Value :: 'a
  r_Timestamp :: int

text \<open>
  \<open>map[string]any\<close> of stores: what \<open>pctx.Store(name)\<close> returns is nil, a value that implements
  \<open>gstream.Store\<close>, or some other value.
\<close>

datatype 's anystore = NilStore | IsStore "'s Store" | OtherStore

record ('s, 'a) ProcessorContext =
  Forward :: "'a Record \<Rightarrow> 's \<Rightarrow> 's"
  CtxStore :: "string \<Rightarrow> 's anystore"
  StreamTime :: "'s \<Rightarrow> int"
  AdvanceStreamTime :: "int \<Rightarrow> 's \<Rightarrow> 's"

type_synonym ('s, 'a) Forwarder = "'a Record \<Rightarrow> 's \<Rightarrow> 's"
type_synonym ('s, 'a) ProcessFunc = "'a Record \<Rightarrow> ('s, 'a) Forwarder \<Rightarrow> 's \<Rightarrow> error option \<times> 's"
type_synonym ('s, 'a) StatefulProcessFunc =
  "'a Record \<Rightarrow> ('s, 'a) ProcessorContext \<Rightarrow> 's \<Rightarrow> error option \<times> 's"

text \<open>
  The state a record's journey through the graph reads and writes: the data of the stores
  (\<open>'d\<close>), the task's stream-time (\<open>None\<close> for the nil pointer), the sink buffers of the
  executor, the late-record counters the window operators share with the objects that made
  them (\<open>lateCount\<close>), and the variable \<open>firstErr\<close> of the node invocation that is running.
\<close>

record ('d, 'a) estate =
  es_data :: 'd
  es_streamTime :: "int option"
  es_buffers :: "(string, 'a Record list) gomap"
  es_late :: "(string, int) gomap"
  es_firstErr :: "error option"

record ('s, 'a) node =
  n_name :: string
  n_processFn :: "('s, 'a) ProcessFunc option"
  n_statefulFn :: "('s, 'a) StatefulProcessFunc option"
  n_storeNames :: "string list"
  n_downstreams :: "string list"
  n_isSink :: bool

section \<open>The builder\<close>

record ('s, 'a) Builder =
  b_sources :: "string list"
  b_sinks :: "string list"
  b_nodes :: "(string, ('s, 'a) node) gomap"

definition NewBuilder :: "('s, 'a) Builder" where
  "NewBuilder = \<lparr>b_sources = [], b_sinks = [], b_nodes = []\<rparr>"

text \<open>The loop that wires each parent to the new node; an unknown parent panics.\<close>

fun wire_parents :: "string \<Rightarrow> string list \<Rightarrow> (string, ('s, 'a) node) gomap
    \<Rightarrow> error + (string, ('s, 'a) node) gomap" where
  "wire_parents name [] nodes = Inr nodes"
| "wire_parents name (parentName # rest) nodes =
     (case go_get nodes parentName of
        None \<Rightarrow> Inl (Err ''topology: parent not found'')
      | Some p \<Rightarrow> wire_parents name rest
          (go_set parentName (p\<lparr>n_downstreams := n_downstreams p @ [name]\<rparr>) nodes))"

text \<open>The source's own process function forwards its record as it is.\<close>

definition source_fn :: "('s, 'a) ProcessFunc" where
  "source_fn r forward s = (None, forward r s)"

definition sinkPlaceholderFn :: "('s, 'a) ProcessFunc" where
  "sinkPlaceholderFn r forward s = (Some (Err ''topology: sink has no handler installed''), s)"

definition AddSource :: "string \<Rightarrow> ('s, 'a) Builder \<Rightarrow> error + ('s, 'a) Builder" where
  "AddSource name b =
     (if go_get (b_nodes b) name \<noteq> None then Inl (Err ''topology: node already exists'')
      else Inr (b\<lparr>b_nodes := go_set name \<lparr>n_name = name, n_processFn = Some source_fn,
              n_statefulFn = None, n_storeNames = [], n_downstreams = [], n_isSink = False\<rparr> (b_nodes b),
             b_sources := b_sources b @ [name]\<rparr>))"

definition AddProcessor :: "string \<Rightarrow> ('s, 'a) ProcessFunc \<Rightarrow> string list \<Rightarrow> ('s, 'a) Builder
    \<Rightarrow> error + ('s, 'a) Builder" where
  "AddProcessor name fn parents b =
     (if go_get (b_nodes b) name \<noteq> None then Inl (Err ''topology: node already exists'')
      else if parents = [] then Inl (Err ''topology: processor must have at least one parent'')
      else map_sum id (\<lambda>nodes. b\<lparr>b_nodes := nodes\<rparr>)
        (wire_parents name parents
          (go_set name \<lparr>n_name = name, n_processFn = Some fn, n_statefulFn = None,
             n_storeNames = [], n_downstreams = [], n_isSink = False\<rparr> (b_nodes b))))"

definition AddStatefulProcessor :: "string \<Rightarrow> ('s, 'a) StatefulProcessFunc \<Rightarrow> string list \<Rightarrow> string list
    \<Rightarrow> ('s, 'a) Builder \<Rightarrow> error + ('s, 'a) Builder" where
  "AddStatefulProcessor name fn storeNames parents b =
     (if go_get (b_nodes b) name \<noteq> None then Inl (Err ''topology: node already exists'')
      else if parents = [] then Inl (Err ''topology: processor must have at least one parent'')
      else map_sum id (\<lambda>nodes. b\<lparr>b_nodes := nodes\<rparr>)
        (wire_parents name parents
          (go_set name \<lparr>n_name = name, n_processFn = None, n_statefulFn = Some fn,
             n_storeNames = storeNames, n_downstreams = [], n_isSink = False\<rparr> (b_nodes b))))"

definition AddSink :: "string \<Rightarrow> string list \<Rightarrow> ('s, 'a) Builder \<Rightarrow> error + ('s, 'a) Builder" where
  "AddSink name parents b =
     (if go_get (b_nodes b) name \<noteq> None then Inl (Err ''topology: node already exists'')
      else if parents = [] then Inl (Err ''topology: sink must have at least one parent'')
      else map_sum id (\<lambda>nodes. b\<lparr>b_nodes := nodes, b_sinks := b_sinks b @ [name]\<rparr>)
        (wire_parents name parents
          (go_set name \<lparr>n_name = name, n_processFn = Some sinkPlaceholderFn, n_statefulFn = None,
             n_storeNames = [], n_downstreams = [], n_isSink = True\<rparr> (b_nodes b))))"

record ('s, 'a) Topology =
  t_sources :: "string list"
  t_sinks :: "string list"
  t_nodes :: "(string, ('s, 'a) node) gomap"

definition Build :: "('s, 'a) Builder \<Rightarrow> error + ('s, 'a) Topology" where
  "Build b =
     (if b_sources b = [] then Inl (Err ''topology: topology must have at least one source'')
      else if b_sinks b = [] then Inl (Err ''topology: topology must have at least one sink'')
      else Inr \<lparr>t_sources = b_sources b, t_sinks = b_sinks b, t_nodes = b_nodes b\<rparr>)"

section \<open>Execution of one record\<close>

text \<open>The processor context, \<open>processorCtxImpl\<close>, with its forward closure and the stores of the task.\<close>

definition ctx_StreamTime :: "('d, 'a) estate \<Rightarrow> int" where
  "ctx_StreamTime s = (case es_streamTime s of None \<Rightarrow> 0 | Some t \<Rightarrow> t)"

definition ctx_AdvanceStreamTime :: "int \<Rightarrow> ('d, 'a) estate \<Rightarrow> ('d, 'a) estate" where
  "ctx_AdvanceStreamTime ts s =
     (case es_streamTime s of
        None \<Rightarrow> s
      | Some t \<Rightarrow> if ts > t then s\<lparr>es_streamTime := Some ts\<rparr> else s)"

definition processorCtxImpl :: "(('d, 'a) estate, 'a) Forwarder \<Rightarrow> (string \<Rightarrow> ('d, 'a) estate anystore)
    \<Rightarrow> (('d, 'a) estate, 'a) ProcessorContext" where
  "processorCtxImpl forwardFn stores =
     \<lparr>Forward = forwardFn, CtxStore = stores, StreamTime = ctx_StreamTime,
      AdvanceStreamTime = ctx_AdvanceStreamTime\<rparr>"

text \<open>The forward closure: the loop over the downstream nodes, stopped by the first error.\<close>

fun forward_loop :: "(string \<Rightarrow> 'a Record \<Rightarrow> ('d, 'a) estate \<Rightarrow> error option \<times> ('d, 'a) estate)
    \<Rightarrow> string list \<Rightarrow> 'a Record \<Rightarrow> ('d, 'a) estate \<Rightarrow> ('d, 'a) estate" where
  "forward_loop rec [] out s = s"
| "forward_loop rec (ds # rest) out s =
     (case rec ds out s of
        (Some err, s') \<Rightarrow> s'\<lparr>es_firstErr := Some err\<rparr>
      | (None, s') \<Rightarrow> forward_loop rec rest out s')"

definition forward :: "(string \<Rightarrow> 'a Record \<Rightarrow> ('d, 'a) estate \<Rightarrow> error option \<times> ('d, 'a) estate)
    \<Rightarrow> string list \<Rightarrow> (('d, 'a) estate, 'a) Forwarder" where
  "forward rec downstreams out s =
     (if es_firstErr s \<noteq> None then s else forward_loop rec downstreams out s)"

text \<open>
  One invocation of a node, with \<open>rec\<close> for the recursive calls. Each invocation has a
  \<open>firstErr\<close> variable of its own: the caller's is put aside on entry and put back on return.
\<close>

definition process_node :: "(string \<Rightarrow> 'a Record \<Rightarrow> ('d, 'a) estate \<Rightarrow> error option \<times> ('d, 'a) estate)
    \<Rightarrow> (string \<Rightarrow> ('d, 'a) estate anystore) \<Rightarrow> (('d, 'a) estate, 'a) node \<Rightarrow> 'a Record
    \<Rightarrow> ('d, 'a) estate \<Rightarrow> error option \<times> ('d, 'a) estate" where
  "process_node rec stores n r s =
     (let fwd = forward rec (n_downstreams n);
          s0 = s\<lparr>es_firstErr := None\<rparr>;
          (fnErr, s1) =
            (case n_statefulFn n of
               Some fn \<Rightarrow> fn r (processorCtxImpl fwd stores) s0
             | None \<Rightarrow> (case n_processFn n of
                 Some fn \<Rightarrow> fn r fwd s0
               | None \<Rightarrow> (Some (Err ''nil function''), s0)));
          firstErr = (if es_firstErr s1 = None then fnErr else es_firstErr s1)
      in (firstErr, s1\<lparr>es_firstErr := es_firstErr s\<rparr>))"

text \<open>
  The bodies of \<open>processWithCtx\<close> and \<open>processWithCtxAndHook\<close>; the second hands a record that
  reaches a sink to \<open>onSink\<close> and does not run the sink's function.
\<close>

definition processWithCtx_body where
  "processWithCtx_body rec nodes stores name r s =
     (case go_get nodes name of
        None \<Rightarrow> (Some (Err ''nil node''), s)
      | Some n \<Rightarrow> process_node rec stores n r s)"

definition processWithCtxAndHook_body where
  "processWithCtxAndHook_body rec nodes stores onSink name r s =
     (case go_get nodes name of
        None \<Rightarrow> (Some (Err ''nil node''), s)
      | Some n \<Rightarrow> if n_isSink n then (None, onSink (n_name n) r s)
                  else process_node rec stores n r s)"

text \<open>
  The recursion over the graph is bounded by fuel. One unit per nesting level is enough for
  \<open>length nodes\<close> levels, and the graphs the builder makes have no longer path: that is the
  content of the properties below.
\<close>

primrec processWithCtx_fuel where
  "processWithCtx_fuel 0 nodes stores name r s = (Some Diverges, s)"
| "processWithCtx_fuel (Suc fuel) nodes stores name r s =
     processWithCtx_body (processWithCtx_fuel fuel nodes stores) nodes stores name r s"

primrec processWithCtxAndHook_fuel where
  "processWithCtxAndHook_fuel 0 nodes stores onSink name r s = (Some Diverges, s)"
| "processWithCtxAndHook_fuel (Suc fuel) nodes stores onSink name r s =
     processWithCtxAndHook_body (processWithCtxAndHook_fuel fuel nodes stores onSink)
       nodes stores onSink name r s"

definition processWithCtx where
  "processWithCtx nodes = processWithCtx_fuel (length nodes) nodes"

definition processWithCtxAndHook where
  "processWithCtxAndHook nodes = processWithCtxAndHook_fuel (length nodes) nodes"

text \<open>\<open>topology.Filter\<close> and \<open>topology.Mapper\<close>.\<close>

definition Filter :: "('a \<Rightarrow> 'a \<Rightarrow> bool) \<Rightarrow> ('s, 'a) ProcessFunc" where
  "Filter pred r fwd s = (None, if pred (r_Key r) (r_Value r) then fwd r s else s)"

definition Mapper :: "('a \<Rightarrow> 'a \<Rightarrow> 'a \<times> 'a) \<Rightarrow> ('s, 'a) ProcessFunc" where
  "Mapper mapFn r fwd s =
     (None, case mapFn (r_Key r) (r_Value r) of
        (k2, v2) \<Rightarrow> fwd \<lparr>r_Key = k2, r_Value = v2, r_Timestamp = r_Timestamp r\<rparr> s)"

section \<open>The executor and the test driver\<close>

record ('d, 'a) Executor =
  x_topo :: "(('d, 'a) estate, 'a) Topology"
  x_stores :: "string \<Rightarrow> ('d, 'a) estate anystore"
  x_state :: "('d, 'a) estate"

definition NewExecutorWithStreamTime :: "(('d, 'a) estate, 'a) Topology
    \<Rightarrow> (string \<Rightarrow> ('d, 'a) estate anystore) \<Rightarrow> 'd \<Rightarrow> int option \<Rightarrow> ('d, 'a) Executor" where
  "NewExecutorWithStreamTime topo stores data streamTime =
     \<lparr>x_topo = topo, x_stores = stores,
      x_state = \<lparr>es_data = data, es_streamTime = streamTime,
        es_buffers = map (\<lambda>name. (name, [])) (t_sinks topo), es_late = [], es_firstErr = None\<rparr>\<rparr>"

definition NewExecutor :: "(('d, 'a) estate, 'a) Topology
    \<Rightarrow> (string \<Rightarrow> ('d, 'a) estate anystore) \<Rightarrow> 'd \<Rightarrow> ('d, 'a) Executor" where
  "NewExecutor topo stores data = NewExecutorWithStreamTime topo stores data None"

text \<open>\<open>e.buffers[sinkName] = append(e.buffers[sinkName], rec)\<close>.\<close>

definition append_buffer :: "string \<Rightarrow> 'a Record \<Rightarrow> ('d, 'a) estate \<Rightarrow> ('d, 'a) estate" where
  "append_buffer sinkName r s =
     s\<lparr>es_buffers := go_set sinkName
        ((case go_get (es_buffers s) sinkName of None \<Rightarrow> [] | Some rs \<Rightarrow> rs) @ [r]) (es_buffers s)\<rparr>"

definition Process :: "string \<Rightarrow> 'a Record \<Rightarrow> ('d, 'a) Executor \<Rightarrow> error option \<times> ('d, 'a) Executor" where
  "Process sourceName r e =
     (if sourceName \<notin> set (t_sources (x_topo e))
      then (Some (Err ''topology: source not found in topology''), e)
      else case processWithCtxAndHook (t_nodes (x_topo e)) (x_stores e) append_buffer sourceName r
                  (x_state e) of
             (err, s) \<Rightarrow> (err, e\<lparr>x_state := s\<rparr>))"

definition drain_buffer :: "string \<Rightarrow> ('d, 'a) estate \<Rightarrow> (error + 'a Record list) \<times> ('d, 'a) estate" where
  "drain_buffer sinkName s =
     (case go_get (es_buffers s) sinkName of
        None \<Rightarrow> (Inl (Err ''topology: sink not found in topology''), s)
      | Some buf \<Rightarrow> (Inr buf, s\<lparr>es_buffers := go_set sinkName [] (es_buffers s)\<rparr>))"

definition DrainSink :: "string \<Rightarrow> ('d, 'a) Executor \<Rightarrow> (error + 'a Record list) \<times> ('d, 'a) Executor" where
  "DrainSink sinkName e =
     (case drain_buffer sinkName (x_state e) of (r, s) \<Rightarrow> (r, e\<lparr>x_state := s\<rparr>))"

text \<open>
  \<open>NewTestDriver\<close> overwrites the function of every sink node of the shared topology with one
  that collects into the driver's buffers; \<open>PipeInput\<close> then runs the nodes without a hook,
  without stores and without stream-time.
\<close>

definition collector_fn :: "string \<Rightarrow> (('d, 'a) estate, 'a) ProcessFunc" where
  "collector_fn sinkName r fwd s = (None, append_buffer sinkName r s)"

definition install_collector :: "string list \<Rightarrow> (('d, 'a) estate, 'a) node \<Rightarrow> (('d, 'a) estate, 'a) node" where
  "install_collector sinks n =
     (if n_name n \<in> set sinks then n\<lparr>n_processFn := Some (collector_fn (n_name n))\<rparr> else n)"

record ('d, 'a) TestDriver =
  d_topo :: "(('d, 'a) estate, 'a) Topology"
  d_state :: "('d, 'a) estate"

definition NewTestDriver :: "(('d, 'a) estate, 'a) Topology \<Rightarrow> 'd \<Rightarrow> ('d, 'a) TestDriver" where
  "NewTestDriver topo data =
     \<lparr>d_topo = topo\<lparr>t_nodes := map (\<lambda>(name, n). (name, install_collector (t_sinks topo) n)) (t_nodes topo)\<rparr>,
      d_state = \<lparr>es_data = data, es_streamTime = None,
        es_buffers = map (\<lambda>name. (name, [])) (t_sinks topo), es_late = [], es_firstErr = None\<rparr>\<rparr>"

definition PipeInput :: "string \<Rightarrow> 'a Record \<Rightarrow> ('d, 'a) TestDriver \<Rightarrow> error option \<times> ('d, 'a) TestDriver" where
  "PipeInput sourceName r d =
     (if sourceName \<notin> set (t_sources (d_topo d))
      then (Some (Err ''topology: source not found in topology''), d)
      else case processWithCtx (t_nodes (d_topo d)) (\<lambda>_. NilStore) sourceName r (d_state d) of
             (err, s) \<Rightarrow> (err, d\<lparr>d_state := s\<rparr>))"

definition ReadOutput :: "string \<Rightarrow> ('d, 'a) TestDriver \<Rightarrow> (error + 'a Record list) \<times> ('d, 'a) TestDriver" where
  "ReadOutput sinkName d =
     (case drain_buffer sinkName (d_state d) of (r, s) \<Rightarrow> (r, d\<lparr>d_state := s\<rparr>))"

definition PeekOutput :: "string \<Rightarrow> ('d, 'a) TestDriver \<Rightarrow> error + 'a Record list" where
  "PeekOutput sinkName d =
     (case go_get (es_buffers (d_state d)) sinkName of
        None \<Rightarrow> Inl (Err ''topology: sink not found in topology'')
      | Some buf \<Rightarrow> Inr buf)"

section \<open>The shape of built graphs\<close>

text \<open>
  In the order of their registration, every edge leads from a node to a later one. Node names
  are the keys under which the nodes are registered.
\<close>

fun forward_edges :: "(string, ('s, 'a) node) gomap \<Rightarrow> bool" where
  "forward_edges [] = True"
| "forward_edges ((name, n) # rest) =
     (set (n_downstreams n) \<subseteq> fst ` set rest \<and> forward_edges rest)"

definition nodes_ok :: "(string, ('s, 'a) node) gomap \<Rightarrow> bool" where
  "nodes_ok nodes \<longleftrightarrow> go_map_ok nodes \<and> forward_edges nodes \<and> (\<forall>(name, n) \<in> set nodes. n_name n = name)"

definition builder_ok :: "('s, 'a) Builder \<Rightarrow> bool" where
  "builder_ok b \<longleftrightarrow> nodes_ok (b_nodes b)
     \<and> set (b_sources b) \<subseteq> dom (go_get (b_nodes b))
     \<and> (\<forall>name n. go_get (b_nodes b) name = Some n \<longrightarrow> n_isSink n = (name \<in> set (b_sinks b)))
     \<and> set (b_sinks b) \<subseteq> dom (go_get (b_nodes b))"

definition topology_ok :: "('s, 'a) Topology \<Rightarrow> bool" where
  "topology_ok t \<longleftrightarrow> nodes_ok (t_nodes t)
     \<and> set (t_sources t) \<subseteq> dom (go_get (t_nodes t))
     \<and> (\<forall>name n. go_get (t_nodes t) name = Some n \<longrightarrow> n_isSink n = (name \<in> set (t_sinks t)))"

lemma update_new: "k \<notin> fst ` set xs \<Longrightarrow> AList.update k v xs = xs @ [(k, v)]"
  by (induction xs) auto

lemma set_update_subset: "set (AList.update k v xs) \<subseteq> insert (k, v) (set xs)"
  by (induction xs) auto

lemma keys_update: "fst ` set (AList.update k v xs) = insert k (fst ` set xs)"
  by (induction xs) auto

lemma forward_edges_snoc:
  "forward_edges xs \<Longrightarrow> n_downstreams n = [] \<Longrightarrow> forward_edges (xs @ [(name, n)])"
  by (induction xs rule: forward_edges.induct) auto

lemma forward_edges_wire:
  "forward_edges xs \<Longrightarrow> xs \<noteq> [] \<Longrightarrow> fst (last xs) = name \<Longrightarrow> p \<noteq> name \<Longrightarrow> map_of xs p = Some n \<Longrightarrow>
    forward_edges (AList.update p (n\<lparr>n_downstreams := n_downstreams n @ [name]\<rparr>) xs)"
proof (induction xs)
  case Nil
  then show ?case by simp
next
  case (Cons x xs)
  obtain m k where x: "x = (m, k)" by fastforce
  have ne: "xs \<noteq> []" using Cons.prems x by auto
  then have last: "fst (last xs) = name" "name \<in> fst ` set xs"
    using Cons.prems(3) by (auto intro: rev_image_eqI [OF last_in_set])
  show ?case
    using Cons ne last x by (auto simp: keys_update)
qed

lemma update_keeps_keys: "p \<in> fst ` set xs \<Longrightarrow> map fst (AList.update p v xs) = map fst xs"
  by (induction xs) auto

lemma last_key_update: "p \<in> fst ` set xs \<Longrightarrow> xs \<noteq> [] \<Longrightarrow> fst (last (AList.update p v xs)) = fst (last xs)"
  using update_keeps_keys [of p xs v] by (metis last_map map_is_Nil_conv)

lemma map_sum_InrE:
  assumes "map_sum f g x = Inr y"
  obtains z where "x = Inr z" "y = g z"
  using assms by (cases x) auto

lemma wire_parents_ok:
  assumes "wire_parents name parents nodes = Inr nodes'" "name \<notin> set parents"
    and "nodes_ok nodes" "nodes \<noteq> []" "fst (last nodes) = name"
  shows "nodes_ok nodes' \<and> dom (go_get nodes') = dom (go_get nodes)
    \<and> (\<forall>m. map_option n_isSink (go_get nodes' m) = map_option n_isSink (go_get nodes m))"
  using assms
proof (induction name parents nodes rule: wire_parents.induct)
  case (1 name nodes)
  then show ?case by simp
next
  case (2 name p rest nodes)
  then obtain n where n: "go_get nodes p = Some n" by (auto split: option.splits)
  let ?n' = "n\<lparr>n_downstreams := n_downstreams n @ [name]\<rparr>"
  let ?nodes = "AList.update p ?n' nodes"
  have p: "p \<in> fst ` set nodes" and nn: "n_name n = p"
    using n 2(4) by (auto simp: nodes_ok_def dest: map_of_SomeD intro: rev_image_eqI)
  have "nodes_ok ?nodes"
    using 2(3-6) n nn set_update_subset [of p ?n' nodes]
    by (auto simp: nodes_ok_def forward_edges_wire)
  moreover have "?nodes \<noteq> []" "fst (last ?nodes) = name"
    using last_key_update [OF p] 2(5,6) update_keeps_keys [OF p, of ?n'] by (simp, auto)
  ultimately have "nodes_ok nodes' \<and> dom (go_get nodes') = dom (go_get ?nodes)
      \<and> (\<forall>m. map_option n_isSink (go_get nodes' m) = map_option n_isSink (go_get ?nodes m))"
    using 2 n by simp
  then show ?case using n by (auto split: if_splits)
qed

lemma nodes_ok_new:
  assumes "nodes_ok nodes" "go_get nodes name = None" "n_name n = name" "n_downstreams n = []"
  shows "nodes_ok (go_set name n nodes) \<and> go_set name n nodes \<noteq> [] \<and> fst (last (go_set name n nodes)) = name"
proof -
  have "go_set name n nodes = nodes @ [(name, n)]"
    using assms(2) by (intro update_new) (simp add: map_of_eq_None_iff)
  moreover have "go_map_ok (go_set name n nodes)"
    using assms(1) by (simp add: nodes_ok_def)
  ultimately show ?thesis
    using assms by (auto simp: nodes_ok_def forward_edges_snoc)
qed

lemma wire_new_ok:
  assumes "nodes_ok nodes" "go_get nodes name = None" "n_name n = name" "n_downstreams n = []"
    and "name \<notin> set parents" "wire_parents name parents (go_set name n nodes) = Inr nodes'"
  shows "nodes_ok nodes' \<and> dom (go_get nodes') = insert name (dom (go_get nodes))
    \<and> (\<forall>m. map_option n_isSink (go_get nodes' m)
          = (if m = name then Some (n_isSink n) else map_option n_isSink (go_get nodes m)))"
  using wire_parents_ok [OF assms(6,5)] nodes_ok_new [OF assms(1-4)] by auto

lemma builder_ok_nodes:
  assumes "builder_ok b" "go_get (b_nodes b) name = None" "nodes_ok nodes'"
    and "dom (go_get nodes') = insert name (dom (go_get (b_nodes b)))"
    and "\<And>m. map_option n_isSink (go_get nodes' m)
          = (if m = name then Some sink else map_option n_isSink (go_get (b_nodes b) m))"
  shows "builder_ok (b\<lparr>b_nodes := nodes', b_sinks := b_sinks b @ (if sink then [name] else [])\<rparr>)"
proof -
  have "n_isSink n = (m \<in> set (b_sinks b @ (if sink then [name] else [])))"
    if "go_get nodes' m = Some n" for m n
  proof (cases "m = name")
    case True
    moreover have "name \<notin> set (b_sinks b)" using assms(1,2) by (auto simp: builder_ok_def)
    ultimately show ?thesis using assms(5) [of m] that by auto
  next
    case False
    then have "map_option n_isSink (go_get (b_nodes b) m) = Some (n_isSink n)"
      using assms(5) [of m] that by simp
    then show ?thesis using assms(1) False by (auto simp: builder_ok_def)
  qed
  then show ?thesis using assms(1,3,4) by (auto simp: builder_ok_def)
qed

lemma builder_ok_New: "builder_ok NewBuilder"
  by (simp add: builder_ok_def NewBuilder_def nodes_ok_def)

lemma builder_ok_AddSource:
  assumes "builder_ok b" "AddSource name b = Inr b'"
  shows "builder_ok b'"
proof -
  have new: "go_get (b_nodes b) name = None"
    using assms(2) by (auto simp: AddSource_def split: if_splits)
  have "builder_ok (b\<lparr>b_nodes := go_set name \<lparr>n_name = name, n_processFn = Some source_fn,
      n_statefulFn = None, n_storeNames = [], n_downstreams = [], n_isSink = False\<rparr> (b_nodes b),
      b_sinks := b_sinks b @ (if False then [name] else [])\<rparr>)"
    using assms(1) new
    by (intro builder_ok_nodes [where name = name]) (auto simp: builder_ok_def nodes_ok_new)
  then show ?thesis
    using assms(2) new by (auto simp: AddSource_def builder_ok_def)
qed

lemma builder_ok_wire:
  assumes "builder_ok b" "go_get (b_nodes b) name = None" "name \<notin> set parents"
    and "n_name n = name" "n_downstreams n = []"
    and "wire_parents name parents (go_set name n (b_nodes b)) = Inr nodes'"
  shows "builder_ok (b\<lparr>b_nodes := nodes', b_sinks := b_sinks b @ (if n_isSink n then [name] else [])\<rparr>)"
proof -
  have "nodes_ok (b_nodes b)" using assms(1) by (simp add: builder_ok_def)
  then show ?thesis
    using wire_new_ok [OF _ assms(2,4,5,3,6)] assms(1,2)
    by (intro builder_ok_nodes [where name = name]) auto
qed

lemma builder_ok_AddProcessor:
  assumes "builder_ok b" "AddProcessor name fn parents b = Inr b'" "name \<notin> set parents"
  shows "builder_ok b'"
  using assms(2) builder_ok_wire [OF assms(1) _ assms(3)]
  by (force simp: AddProcessor_def elim!: map_sum_InrE split: if_splits)

lemma builder_ok_AddStatefulProcessor:
  assumes "builder_ok b" "AddStatefulProcessor name fn storeNames parents b = Inr b'" "name \<notin> set parents"
  shows "builder_ok b'"
  using assms(2) builder_ok_wire [OF assms(1) _ assms(3)]
  by (force simp: AddStatefulProcessor_def elim!: map_sum_InrE split: if_splits)

lemma builder_ok_AddSink:
  assumes "builder_ok b" "AddSink name parents b = Inr b'" "name \<notin> set parents"
  shows "builder_ok b'"
  using assms(2) builder_ok_wire [OF assms(1) _ assms(3)]
  by (force simp: AddSink_def elim!: map_sum_InrE split: if_splits)

text \<open>The builders that a sequence of calls reaches, when no node names itself as its parent.\<close>

inductive built :: "('s, 'a) Builder \<Rightarrow> bool" where
  built_New: "built NewBuilder"
| built_Source: "built b \<Longrightarrow> AddSource name b = Inr b' \<Longrightarrow> built b'"
| built_Processor: "built b \<Longrightarrow> name \<notin> set parents \<Longrightarrow> AddProcessor name fn parents b = Inr b' \<Longrightarrow> built b'"
| built_Stateful: "built b \<Longrightarrow> name \<notin> set parents \<Longrightarrow>
    AddStatefulProcessor name sfn storeNames parents b = Inr b' \<Longrightarrow> built b'"
| built_Sink: "built b \<Longrightarrow> name \<notin> set parents \<Longrightarrow> AddSink name parents b = Inr b' \<Longrightarrow> built b'"

lemma built_ok: "built b \<Longrightarrow> builder_ok b"
  by (induction rule: built.induct)
    (auto intro: builder_ok_New builder_ok_AddSource builder_ok_AddProcessor
      builder_ok_AddStatefulProcessor builder_ok_AddSink)

lemma Build_ok: "builder_ok b \<Longrightarrow> Build b = Inr t \<Longrightarrow> topology_ok t"
  by (auto simp: Build_def builder_ok_def topology_ok_def split: if_splits)

section \<open>The recursion over the graph ends\<close>

lemma forward_loop_cong:
  "(\<And>d. d \<in> set ds \<Longrightarrow> rec d = rec' d) \<Longrightarrow> forward_loop rec ds out s = forward_loop rec' ds out s"
proof (induction ds arbitrary: s)
  case Nil
  show ?case by simp
next
  case (Cons d ds)
  have "forward_loop rec ds out s' = forward_loop rec' ds out s'" for s'
    by (rule Cons.IH) (rule Cons.prems, simp)
  moreover have "rec d = rec' d" by (rule Cons.prems) simp
  ultimately show ?case by (simp only: forward_loop.simps)
qed

lemma forward_cong:
  assumes "\<And>d. d \<in> set ds \<Longrightarrow> rec d = rec' d"
  shows "forward rec ds = forward rec' ds"
proof (intro ext)
  fix out s
  have "forward_loop rec ds out s = forward_loop rec' ds out s"
    using assms by (rule forward_loop_cong)
  then show "forward rec ds out s = forward rec' ds out s" by (simp only: forward_def)
qed

lemma process_node_cong:
  assumes "\<And>d. d \<in> set (n_downstreams n) \<Longrightarrow> rec d = rec' d"
  shows "process_node rec stores n r s = process_node rec' stores n r s"
proof -
  have "forward rec (n_downstreams n) = forward rec' (n_downstreams n)"
    using assms by (rule forward_cong)
  then show ?thesis by (simp only: process_node_def)
qed

lemma fuel_irrelevant:
  fixes P Q :: "nat \<Rightarrow> string \<Rightarrow> 'b"
  assumes step: "\<And>f name. P (Suc f) name = B (P f) name" "\<And>f name. Q (Suc f) name = B (Q f) name"
    and cong: "\<And>rec rec' name n. go_get nodes name = Some n \<Longrightarrow>
      (\<And>d. d \<in> set (n_downstreams n) \<Longrightarrow> rec d = rec' d) \<Longrightarrow> B rec name = B rec' name"
    and ok: "go_map_ok nodes"
  shows "nodes = pre @ suf \<Longrightarrow> forward_edges suf \<Longrightarrow> name \<in> fst ` set suf \<Longrightarrow>
    length suf \<le> f \<Longrightarrow> length suf \<le> f' \<Longrightarrow> P f name = Q f' name"
proof (induction suf arbitrary: pre name f f')
  case Nil
  then show ?case by simp
next
  case (Cons x suf)
  obtain m n where x: "x = (m, n)" by fastforce
  obtain g g' where f: "f = Suc g" "f' = Suc g'" "length suf \<le> g" "length suf \<le> g'"
    using Cons.prems(4,5) by (cases f; cases f') auto
  have suf: "nodes = (pre @ [x]) @ suf" "forward_edges suf"
    using Cons.prems(1,2) x by simp_all
  have IH: "P h name = Q h' name"
    if "name \<in> fst ` set suf" "length suf \<le> h" "length suf \<le> h'" for h h' name
    by (rule Cons.IH [OF suf that])
  show ?case
  proof (cases "name = m")
    case True
    then have "go_get nodes name = Some n"
      using ok Cons.prems(1) x by (intro go_map_in_set [THEN iffD1]) simp_all
    moreover have "P g d = Q g' d" if "d \<in> set (n_downstreams n)" for d
      by (rule IH) (use f that Cons.prems(2) x in auto)
    ultimately have "B (P g) name = B (Q g') name" by (rule cong)
    then show ?thesis by (simp add: f step)
  next
    case False
    then show ?thesis using IH [of name f f'] Cons.prems(3) x f by auto
  qed
qed

lemma hook_body_cong:
  assumes "go_get nodes name = Some n" "\<And>d. d \<in> set (n_downstreams n) \<Longrightarrow> rec d = rec' d"
  shows "processWithCtxAndHook_body rec nodes stores onSink name
    = processWithCtxAndHook_body rec' nodes stores onSink name"
  using assms by (intro ext) (simp add: processWithCtxAndHook_body_def process_node_cong [of n rec rec'])

lemma body_cong:
  assumes "go_get nodes name = Some n" "\<And>d. d \<in> set (n_downstreams n) \<Longrightarrow> rec d = rec' d"
  shows "processWithCtx_body rec nodes stores name = processWithCtx_body rec' nodes stores name"
  using assms by (intro ext) (simp add: processWithCtx_body_def process_node_cong [of n rec rec'])

lemma nodes_ok_nonempty: "go_get nodes name = Some n \<Longrightarrow> \<exists>f. length nodes = Suc f"
  by (cases nodes) auto

text \<open>
  The recursions cut off at a depth, where \<open>stub\<close> answers instead of the call. A traversal that
  gives the same result whatever \<open>stub\<close> answers never makes a call at that depth; one in which
  the error of \<open>stub\<close> always comes out makes a call at every depth.
\<close>

primrec hook_to_depth where
  "hook_to_depth stub 0 nodes stores onSink name r s = stub name r s"
| "hook_to_depth stub (Suc depth) nodes stores onSink name r s =
     processWithCtxAndHook_body (hook_to_depth stub depth nodes stores onSink)
       nodes stores onSink name r s"

primrec plain_to_depth where
  "plain_to_depth stub 0 nodes stores name r s = stub name r s"
| "plain_to_depth stub (Suc depth) nodes stores name r s =
     processWithCtx_body (plain_to_depth stub depth nodes stores) nodes stores name r s"

definition calls :: "(string, ('s, 'a) node) gomap \<Rightarrow> (string \<times> string) set" where
  "calls nodes = {(d, name). \<exists>n. go_get nodes name = Some n \<and> d \<in> set (n_downstreams n)}"

lemma hook_fuel_depth:
  "processWithCtxAndHook_fuel f nodes stores onSink name r s
    = hook_to_depth (\<lambda>_ _ s. (Some Diverges, s)) f nodes stores onSink name r s"
proof (induction f arbitrary: name r s)
  case (Suc f)
  then have "processWithCtxAndHook_fuel f nodes stores onSink
      = hook_to_depth (\<lambda>_ _ s. (Some Diverges, s)) f nodes stores onSink"
    by (intro ext)
  then show ?case by simp
qed simp

lemma plain_fuel_depth:
  "processWithCtx_fuel f nodes stores name r s
    = plain_to_depth (\<lambda>_ _ s. (Some Diverges, s)) f nodes stores name r s"
proof (induction f arbitrary: name r s)
  case (Suc f)
  then have "processWithCtx_fuel f nodes stores
      = plain_to_depth (\<lambda>_ _ s. (Some Diverges, s)) f nodes stores"
    by (intro ext)
  then show ?case by simp
qed simp

lemma hook_depth:
  assumes "nodes_ok nodes" "name \<in> dom (go_get nodes)" "length nodes \<le> depth"
  shows "hook_to_depth stub depth nodes stores onSink name
    = processWithCtxAndHook nodes stores onSink name"
  unfolding processWithCtxAndHook_def
  by (rule fuel_irrelevant [of "\<lambda>f. hook_to_depth stub f nodes stores onSink"
        "\<lambda>rec. processWithCtxAndHook_body rec nodes stores onSink"
        "\<lambda>f. processWithCtxAndHook_fuel f nodes stores onSink" nodes "[]" nodes])
    (use assms in \<open>auto simp: nodes_ok_def dom_map_of_conv_image_fst fun_eq_iff
      intro: hook_body_cong [THEN fun_cong, THEN fun_cong]\<close>)

lemma plain_depth:
  assumes "nodes_ok nodes" "name \<in> dom (go_get nodes)" "length nodes \<le> depth"
  shows "plain_to_depth stub depth nodes stores name = processWithCtx nodes stores name"
  unfolding processWithCtx_def
  by (rule fuel_irrelevant [of "\<lambda>f. plain_to_depth stub f nodes stores"
        "\<lambda>rec. processWithCtx_body rec nodes stores"
        "\<lambda>f. processWithCtx_fuel f nodes stores" nodes "[]" nodes])
    (use assms in \<open>auto simp: nodes_ok_def dom_map_of_conv_image_fst fun_eq_iff
      intro: body_cong [THEN fun_cong, THEN fun_cong]\<close>)

lemma hook_fuel:
  assumes "nodes_ok nodes" "name \<in> dom (go_get nodes)" "length nodes \<le> f"
  shows "processWithCtxAndHook_fuel f nodes stores onSink name
    = processWithCtxAndHook nodes stores onSink name"
  using hook_depth [OF assms] by (simp add: fun_eq_iff hook_fuel_depth)

lemma plain_fuel:
  assumes "nodes_ok nodes" "name \<in> dom (go_get nodes)" "length nodes \<le> f"
  shows "processWithCtx_fuel f nodes stores name = processWithCtx nodes stores name"
  using plain_depth [OF assms] by (simp add: fun_eq_iff plain_fuel_depth)

lemma downstream_in_dom:
  "forward_edges nodes \<Longrightarrow> go_map_ok nodes \<Longrightarrow> go_get nodes name = Some n \<Longrightarrow> d \<in> set (n_downstreams n) \<Longrightarrow> d \<in> dom (go_get nodes)"
  by (induction nodes rule: forward_edges.induct)
    (auto simp: dom_map_of_conv_image_fst go_map_ok_def split: if_splits)

text \<open>A node calls only nodes registered after it.\<close>

lemma calls_later:
  "forward_edges nodes \<Longrightarrow> go_map_ok nodes \<Longrightarrow> (d, name) \<in> calls nodes \<Longrightarrow>
    length (dropWhile (\<lambda>x. fst x \<noteq> d) nodes) < length (dropWhile (\<lambda>x. fst x \<noteq> name) nodes)"
proof (induction nodes)
  case (Cons x rest)
  obtain m n where x: "x = (m, n)" by fastforce
  have ok: "forward_edges rest" "go_map_ok rest" "m \<notin> fst ` set rest"
    using Cons.prems(1,2) x by (auto simp: go_map_ok_def)
  have short: "length (dropWhile P rest) < length (x # rest)" for P
    using length_dropWhile_le [of P rest] by (simp add: less_Suc_eq_le)
  show ?case
  proof (cases "name = m")
    case True
    then have "d \<in> fst ` set rest"
      using Cons.prems(1,3) x by (auto simp: calls_def)
    then have "d \<noteq> m" using ok(3) by auto
    then show ?thesis using True x short by simp
  next
    case False
    then have in_rest: "(d, name) \<in> calls rest"
      using Cons.prems(3) x by (auto simp: calls_def)
    then have "d \<in> dom (go_get rest)"
      using downstream_in_dom [OF ok(1,2)] by (auto simp: calls_def)
    then have "d \<noteq> m" using ok(3) by (auto simp: dom_map_of_conv_image_fst)
    then show ?thesis
      using Cons.IH [OF ok(1,2) in_rest] False x by simp
  qed
qed (simp add: calls_def)

lemma calls_wf: "nodes_ok nodes \<Longrightarrow> wf (calls nodes)"
  by (rule wf_subset [OF wf_measure [of "\<lambda>name. length (dropWhile (\<lambda>x. fst x \<noteq> name) nodes)"]])
    (auto simp: nodes_ok_def calls_later)

lemma hook_unfold:
  assumes "nodes_ok nodes" "name \<in> dom (go_get nodes)"
  shows "processWithCtxAndHook nodes stores onSink name
    = processWithCtxAndHook_body (processWithCtxAndHook nodes stores onSink) nodes stores onSink name"
proof -
  obtain n where n: "go_get nodes name = Some n" using assms(2) by auto
  have "processWithCtxAndHook nodes stores onSink name
      = processWithCtxAndHook_fuel (Suc (length nodes)) nodes stores onSink name"
    using hook_fuel [OF assms] by simp
  also have "\<dots> = processWithCtxAndHook_body (processWithCtxAndHook_fuel (length nodes) nodes stores onSink)
      nodes stores onSink name" by (intro ext) simp
  finally show ?thesis by (simp add: processWithCtxAndHook_def)
qed

lemma plain_unfold:
  assumes "nodes_ok nodes" "name \<in> dom (go_get nodes)"
  shows "processWithCtx nodes stores name = processWithCtx_body (processWithCtx nodes stores) nodes stores name"
proof -
  have "processWithCtx nodes stores name = processWithCtx_fuel (Suc (length nodes)) nodes stores name"
    using plain_fuel [OF assms] by simp
  also have "\<dots> = processWithCtx_body (processWithCtx_fuel (length nodes) nodes stores) nodes stores name"
    by (intro ext) simp
  finally show ?thesis by (simp add: processWithCtx_def)
qed

section \<open>Test driver and executor\<close>

definition sink_plain :: "('s, 'a) node \<Rightarrow> bool" where
  "sink_plain n \<longleftrightarrow> (n_isSink n \<longrightarrow> n_statefulFn n = None)"

lemma wire_parents_plain:
  "wire_parents name parents nodes = Inr nodes' \<Longrightarrow> (\<And>m n. (m, n) \<in> set nodes \<Longrightarrow> sink_plain n) \<Longrightarrow>
    (m, n) \<in> set nodes' \<Longrightarrow> sink_plain n"
proof (induction name parents nodes rule: wire_parents.induct)
  case (2 name p rest nodes)
  then obtain k where k: "go_get nodes p = Some k" by (auto split: option.splits)
  let ?k = "k\<lparr>n_downstreams := n_downstreams k @ [name]\<rparr>"
  have "sink_plain ?k" using 2(3) map_of_SomeD [OF k] by (auto simp: sink_plain_def)
  then have "sink_plain n'" if "(m', n') \<in> set (go_set p ?k nodes)" for m' n'
    using that set_update_subset [of p ?k nodes] 2(3) by auto
  then show ?case using 2(1) [OF k] 2(2,4) k by simp
qed simp

lemma wire_new_plain:
  assumes "wire_parents name parents (go_set name k nodes) = Inr nodes'" "sink_plain k"
    and "\<And>m n. (m, n) \<in> set nodes \<Longrightarrow> sink_plain n" "(m, n) \<in> set nodes'"
  shows "sink_plain n"
  by (rule wire_parents_plain [OF assms(1) _ assms(4)])
    (use assms(2,3) set_update_subset [of name k nodes] in auto)

lemma built_sink_plain: "built b \<Longrightarrow> (m, n) \<in> set (b_nodes b) \<Longrightarrow> sink_plain n"
proof (induction arbitrary: m n rule: built.induct)
  case built_New
  then show ?case by (simp add: NewBuilder_def)
next
  case (built_Source b name b')
  then have b': "b_nodes b' = go_set name \<lparr>n_name = name, n_processFn = Some source_fn,
      n_statefulFn = None, n_storeNames = [], n_downstreams = [], n_isSink = False\<rparr> (b_nodes b)"
    by (auto simp: AddSource_def split: if_splits)
  show ?case
    by (rule wire_new_plain [of name "[]"]) (use built_Source b' in \<open>auto simp: sink_plain_def\<close>)
next
  case (built_Processor b name parents fn b')
  show ?case
    using built_Processor.hyps(3) wire_new_plain [OF _ _ built_Processor.IH] built_Processor.prems
    by (auto simp: AddProcessor_def sink_plain_def elim!: map_sum_InrE split: if_splits)
next
  case (built_Stateful b name parents sfn storeNames b')
  show ?case
    using built_Stateful.hyps(3) wire_new_plain [OF _ _ built_Stateful.IH] built_Stateful.prems
    by (auto simp: AddStatefulProcessor_def sink_plain_def elim!: map_sum_InrE split: if_splits)
next
  case (built_Sink b name parents b')
  show ?case
    using built_Sink.hyps(3) wire_new_plain [OF _ _ built_Sink.IH] built_Sink.prems
    by (auto simp: AddSink_def sink_plain_def elim!: map_sum_InrE split: if_splits)
qed

lemma collector_get:
  "go_get (map (\<lambda>(name, n). (name, h n)) nodes) name = map_option h (go_get nodes name)"
  by (induction nodes) auto

lemma process_node_collector:
  "n_isSink n \<Longrightarrow> n_statefulFn n = None \<Longrightarrow>
    process_node rec stores (n\<lparr>n_processFn := Some (collector_fn m)\<rparr>) r s = (None, append_buffer m r s)"
  by (simp add: process_node_def collector_fn_def append_buffer_def)

lemma driver_fuel_eq:
  assumes ok: "go_map_ok nodes" "\<And>name n. go_get nodes name = Some n \<Longrightarrow> n_name n = name"
    and sinks: "\<And>name n. go_get nodes name = Some n \<Longrightarrow> n_isSink n = (name \<in> set sinks)"
    and plain: "\<And>name n. go_get nodes name = Some n \<Longrightarrow> n_isSink n \<Longrightarrow> n_statefulFn n = None"
  shows "processWithCtx_fuel f (map (\<lambda>(name, n). (name, install_collector sinks n)) nodes) stores
    = processWithCtxAndHook_fuel f nodes stores append_buffer"
proof (induction f)
  case 0
  show ?case by (intro ext) simp
next
  case (Suc f)
  show ?case
  proof (intro ext)
    fix name r s
    show "processWithCtx_fuel (Suc f) (map (\<lambda>(name, n). (name, install_collector sinks n)) nodes) stores name r s
      = processWithCtxAndHook_fuel (Suc f) nodes stores append_buffer name r s"
    proof (cases "go_get nodes name")
      case None
      then show ?thesis
        by (simp add: processWithCtx_body_def processWithCtxAndHook_body_def collector_get)
    next
      case (Some n)
      then show ?thesis
        using ok(2) [OF Some] sinks [OF Some] plain [OF Some] Suc
        by (simp add: processWithCtx_body_def processWithCtxAndHook_body_def collector_get
            install_collector_def process_node_collector)
    qed
  qed
qed

section \<open>Stateless topologies\<close>

text \<open>
  The records a stateless topology delivers, in order: a sink delivers what it receives; a node
  that emits the list \<open>f r\<close> delivers, for each emitted record in turn, what its downstream
  nodes deliver for it, in the order of their registration.
\<close>

definition emits :: "('s, 'a) node \<Rightarrow> ('a Record \<Rightarrow> 'a Record list) \<Rightarrow> bool" where
  "emits n f \<longleftrightarrow> \<not> n_isSink n \<and> n_statefulFn n = None
     \<and> (\<exists>fn. n_processFn n = Some fn \<and> (\<forall>r fwd s. fn r fwd s = (None, fold fwd (f r) s)))"

inductive delivers :: "(string, ('s, 'a) node) gomap \<Rightarrow> string \<Rightarrow> 'a Record \<Rightarrow> (string \<times> 'a Record) list \<Rightarrow> bool"
  for nodes where
  sink: "go_get nodes name = Some n \<Longrightarrow> n_isSink n \<Longrightarrow> delivers nodes name r [(n_name n, r)]"
| node: "go_get nodes name = Some n \<Longrightarrow> emits n f \<Longrightarrow>
    (\<And>out d. out \<in> set (f r) \<Longrightarrow> d \<in> set (n_downstreams n) \<Longrightarrow> delivers nodes d out (g d out)) \<Longrightarrow>
    delivers nodes name r (concat (map (\<lambda>out. concat (map (\<lambda>d. g d out) (n_downstreams n))) (f r)))"

definition deliver_all :: "(string \<times> 'a Record) list \<Rightarrow> ('d, 'a) estate \<Rightarrow> ('d, 'a) estate" where
  "deliver_all outs s = fold (\<lambda>(sink, r). append_buffer sink r) outs s"

lemma deliver_all_append: "deliver_all (xs @ ys) s = deliver_all ys (deliver_all xs s)"
  by (simp add: deliver_all_def)

lemma deliver_all_firstErr [simp]:
  "es_firstErr (deliver_all outs s) = es_firstErr s"
  by (induction outs arbitrary: s) (auto simp: deliver_all_def append_buffer_def)

lemma append_buffer_set_firstErr:
  "append_buffer a b (s\<lparr>es_firstErr := e\<rparr>) = (append_buffer a b s)\<lparr>es_firstErr := e\<rparr>"
  by (simp add: append_buffer_def)

lemma deliver_all_set_firstErr:
  "deliver_all outs (s\<lparr>es_firstErr := e\<rparr>) = (deliver_all outs s)\<lparr>es_firstErr := e\<rparr>"
  by (induction outs arbitrary: s) (auto simp: deliver_all_def append_buffer_set_firstErr)

lemma forward_loop_delivers:
  "(\<And>d s. d \<in> set ds \<Longrightarrow> rec d out s = (None, deliver_all (g d) s)) \<Longrightarrow>
    forward_loop rec ds out s = deliver_all (concat (map g ds)) s"
  by (induction ds arbitrary: s) (simp_all add: deliver_all_append, simp add: deliver_all_def)

lemma fold_forward_delivers:
  "es_firstErr s = None \<Longrightarrow>
    (\<And>out d s. out \<in> set outs \<Longrightarrow> d \<in> set ds \<Longrightarrow> rec d out s = (None, deliver_all (g d out) s)) \<Longrightarrow>
    fold (forward rec ds) outs s = deliver_all (concat (map (\<lambda>out. concat (map (\<lambda>d. g d out) ds)) outs)) s"
proof (induction outs arbitrary: s)
  case Nil
  show ?case by (simp add: deliver_all_def)
next
  case (Cons out outs)
  have "forward rec ds out s = deliver_all (concat (map (\<lambda>d. g d out) ds)) s"
    using Cons.prems by (simp add: forward_def forward_loop_delivers [where g = "\<lambda>d. g d out"])
  then show ?case using Cons by (simp add: deliver_all_append)
qed

lemma process_node_emits:
  assumes "emits n f"
    and "\<And>out d s. out \<in> set (f r) \<Longrightarrow> d \<in> set (n_downstreams n) \<Longrightarrow> rec d out s = (None, deliver_all (g d out) s)"
  shows "process_node rec stores n r s
    = (None, deliver_all (concat (map (\<lambda>out. concat (map (\<lambda>d. g d out) (n_downstreams n))) (f r))) s)"
proof -
  have "fold (forward rec (n_downstreams n)) (f r) (s\<lparr>es_firstErr := None\<rparr>)
      = deliver_all (concat (map (\<lambda>out. concat (map (\<lambda>d. g d out) (n_downstreams n))) (f r))) (s\<lparr>es_firstErr := None\<rparr>)"
    by (rule fold_forward_delivers) (simp_all add: assms(2))
  then show ?thesis
    using assms(1) by (auto simp: process_node_def emits_def Let_def deliver_all_set_firstErr)
qed

lemma delivers_runs:
  assumes "nodes_ok nodes"
  shows "delivers nodes name r outs \<Longrightarrow>
    processWithCtxAndHook nodes stores append_buffer name r s = (None, deliver_all outs s)"
proof (induction arbitrary: s rule: delivers.induct)
  case (sink name n r)
  then show ?case
    by (simp add: hook_unfold [OF assms] domI processWithCtxAndHook_body_def deliver_all_def)
next
  case (node name n f r g)
  have "process_node (processWithCtxAndHook nodes stores append_buffer) stores n r s
    = (None, deliver_all (concat (map (\<lambda>out. concat (map (\<lambda>d. g d out) (n_downstreams n))) (f r))) s)"
    by (rule process_node_emits [OF node.hyps(2)]) (rule node.IH)
  moreover have "\<not> n_isSink n" using node.hyps(2) by (simp add: emits_def)
  ultimately show ?case
    using node.hyps(1) by (simp add: hook_unfold [OF assms, of name] domI processWithCtxAndHook_body_def)
qed

lemma delivers_exists:
  assumes "go_map_ok nodes"
    and all: "\<And>name n. go_get nodes name = Some n \<Longrightarrow> n_isSink n \<or> (\<exists>f. emits n f)"
  shows "nodes = pre @ suf \<Longrightarrow> forward_edges suf \<Longrightarrow> name \<in> fst ` set suf \<Longrightarrow> \<exists>outs. delivers nodes name r outs"
proof (induction suf arbitrary: pre name r)
  case Nil
  then show ?case by simp
next
  case (Cons x suf)
  obtain m n where x: "x = (m, n)" by fastforce
  have suf: "nodes = (pre @ [x]) @ suf" "forward_edges suf"
    using Cons.prems(1,2) x by simp_all
  show ?case
  proof (cases "name = m")
    case True
    then have n: "go_get nodes name = Some n"
      using assms(1) Cons.prems(1) x by (intro go_map_in_set [THEN iffD1]) simp_all
    show ?thesis
    proof (cases "n_isSink n")
      case True
      then show ?thesis using delivers.sink [OF n] by blast
    next
      case False
      then obtain f where f: "emits n f" using all [OF n] by blast
      have "\<exists>outs. delivers nodes d out outs" if "d \<in> set (n_downstreams n)" for d out
        by (rule Cons.IH [OF suf]) (use that Cons.prems(2) x in auto)
      then obtain g where "\<And>out d. d \<in> set (n_downstreams n) \<Longrightarrow> delivers nodes d out (g d out)"
        by metis
      then show ?thesis using delivers.node [OF n f, of r g] by blast
    qed
  next
    case False
    then show ?thesis using Cons.IH [OF suf] Cons.prems(3) x by simp
  qed
qed

lemma emits_source_fn: "n_processFn n = Some source_fn \<Longrightarrow> \<not> n_isSink n \<Longrightarrow> n_statefulFn n = None \<Longrightarrow> emits n (\<lambda>r. [r])"
  by (auto simp: emits_def source_fn_def)

lemma emits_Filter: "n_processFn n = Some (Filter p) \<Longrightarrow> \<not> n_isSink n \<Longrightarrow> n_statefulFn n = None \<Longrightarrow>
    emits n (\<lambda>r. if p (r_Key r) (r_Value r) then [r] else [])"
  by (auto simp: emits_def Filter_def)

lemma emits_Mapper: "n_processFn n = Some (Mapper h) \<Longrightarrow> \<not> n_isSink n \<Longrightarrow> n_statefulFn n = None \<Longrightarrow>
    emits n (\<lambda>r. case h (r_Key r) (r_Value r) of (k, v) \<Rightarrow> [\<lparr>r_Key = k, r_Value = v, r_Timestamp = r_Timestamp r\<rparr>])"
  by (auto simp: emits_def Mapper_def split: prod.splits)

section \<open>Properties\<close>

text \<open>
  C20: Running a record through a graph made by the builder always ends. For every topology built
  by calls in which no node names itself as a parent, the relation of a node to the nodes it
  calls is well-founded, and neither traversal (\<open>processWithCtxAndHook\<close> of the executor,
  \<open>processWithCtx\<close> of the test driver) ever makes a call nested deeper than the number of nodes:
  cut off at that depth or below it, with any answer \<open>stub\<close> in place of the deeper calls, it gives
  the result of the model, which satisfies the unbounded recursion of the source.
\<close>

theorem traversal_terminates:
  assumes "built b" "Build b = Inr t" "name \<in> dom (go_get (t_nodes t))"
  shows "wf (calls (t_nodes t))
    \<and> (\<forall>stub depth. length (t_nodes t) \<le> depth \<longrightarrow>
        hook_to_depth stub depth (t_nodes t) stores onSink name r s
          = processWithCtxAndHook (t_nodes t) stores onSink name r s
        \<and> plain_to_depth stub depth (t_nodes t) stores name r s
          = processWithCtx (t_nodes t) stores name r s)
    \<and> processWithCtxAndHook (t_nodes t) stores onSink name r s
      = processWithCtxAndHook_body (processWithCtxAndHook (t_nodes t) stores onSink)
          (t_nodes t) stores onSink name r s
    \<and> processWithCtx (t_nodes t) stores name r s
      = processWithCtx_body (processWithCtx (t_nodes t) stores) (t_nodes t) stores name r s"
proof -
  have ok: "nodes_ok (t_nodes t)"
    using Build_ok [OF built_ok [OF assms(1)] assms(2)] by (simp add: topology_ok_def)
  show ?thesis
  proof (intro conjI allI impI)
    show "wf (calls (t_nodes t))" by (rule calls_wf [OF ok])
  next
    fix stub depth
    assume depth: "length (t_nodes t) \<le> depth"
    show "hook_to_depth stub depth (t_nodes t) stores onSink name r s
        = processWithCtxAndHook (t_nodes t) stores onSink name r s"
      by (simp only: hook_depth [OF ok assms(3) depth])
    show "plain_to_depth stub depth (t_nodes t) stores name r s
        = processWithCtx (t_nodes t) stores name r s"
      by (simp only: plain_depth [OF ok assms(3) depth])
  next
    show "processWithCtxAndHook (t_nodes t) stores onSink name r s
        = processWithCtxAndHook_body (processWithCtxAndHook (t_nodes t) stores onSink)
            (t_nodes t) stores onSink name r s"
      by (rule fun_cong [OF fun_cong [OF hook_unfold [OF ok assms(3)]]])
    show "processWithCtx (t_nodes t) stores name r s
        = processWithCtx_body (processWithCtx (t_nodes t) stores) (t_nodes t) stores name r s"
      by (rule fun_cong [OF fun_cong [OF plain_unfold [OF ok assms(3)]]])
  qed
qed

text \<open>
  C39: A node that names itself as a parent beside the source is accepted by \<open>AddProcessor\<close> (the
  new node is registered before its parents are looked up), and the topology of the source, this
  node and a sink below it is built. When the node maps its records, with any function, a record
  of the source is never done: a call is made at every depth, so the error of the cut-off comes
  out at each of them, and \<open>Process\<close> has only divergence to report.
\<close>

theorem self_parent_never_returns:
  fixes h :: "'a \<Rightarrow> 'a \<Rightarrow> 'a \<times> 'a"
  assumes "distinct [src, name, out]"
  shows "\<exists>b1 b2 b3 t. AddSource src (NewBuilder :: (('d, 'a) estate, 'a) Builder) = Inr b1
    \<and> AddProcessor name (Mapper h) [src, name] b1 = Inr b2 \<and> AddSink out [name] b2 = Inr b3
    \<and> Build b3 = Inr t
    \<and> (\<forall>stub err depth stores onSink r s. (\<forall>m r s. fst (stub m r s) = Some err) \<longrightarrow>
        fst (hook_to_depth stub depth (t_nodes t) stores onSink src r s) = Some err)
    \<and> (\<forall>r e. x_topo e = t \<longrightarrow> fst (Process src r e) = Some Diverges)"
proof -
  let ?nodes = "[(src, \<lparr>n_name = src, n_processFn = Some source_fn, n_statefulFn = None,
      n_storeNames = [], n_downstreams = [name], n_isSink = False\<rparr>),
    (name, \<lparr>n_name = name, n_processFn = Some (Mapper h), n_statefulFn = None,
      n_storeNames = [], n_downstreams = [name, out], n_isSink = False\<rparr>),
    (out, \<lparr>n_name = out, n_processFn = Some sinkPlaceholderFn, n_statefulFn = None,
      n_storeNames = [], n_downstreams = [], n_isSink = True\<rparr>)]
    :: (string, (('d, 'a) estate, 'a) node) gomap"
  let ?t = "\<lparr>t_sources = [src], t_sinks = [out], t_nodes = ?nodes\<rparr>"
  note defs = processWithCtxAndHook_body_def process_node_def forward_def Let_def
  have self: "fst (hook_to_depth stub depth ?nodes stores onSink name r s) = Some err"
    if "\<forall>m r s. fst (stub m r s) = Some err" for stub err depth stores onSink r s
  proof (induction depth arbitrary: r s)
    case 0
    show ?case using that by simp
  next
    case (Suc depth)
    obtain k v where h: "h (r_Key r) (r_Value r) = (k, v)" by fastforce
    show ?case
      using Suc [of "\<lparr>r_Key = k, r_Value = v, r_Timestamp = r_Timestamp r\<rparr>" "s\<lparr>es_firstErr := None\<rparr>"]
        assms h
      by (auto simp: defs Mapper_def split: prod.splits option.splits)
  qed
  have top: "fst (hook_to_depth stub depth ?nodes stores onSink src r s) = Some err"
    if "\<forall>m r s. fst (stub m r s) = Some err" for stub err depth stores onSink r s
  proof (cases depth)
    case 0
    then show ?thesis using that by simp
  next
    case (Suc d)
    then show ?thesis
      using self [OF that, of d stores onSink r "s\<lparr>es_firstErr := None\<rparr>"] assms
      by (auto simp: defs source_fn_def split: prod.splits option.splits)
  qed
  obtain b1 b2 b3 where "AddSource src (NewBuilder :: (('d, 'a) estate, 'a) Builder) = Inr b1"
    "AddProcessor name (Mapper h) [src, name] b1 = Inr b2" "AddSink out [name] b2 = Inr b3"
    "Build b3 = Inr ?t"
    using assms by (auto simp: AddSource_def AddProcessor_def AddSink_def NewBuilder_def Build_def)
  moreover have "fst (Process src r e) = Some Diverges" if "x_topo e = ?t"
    for r :: "'a Record" and e :: "('d, 'a) Executor"
    using top [of "\<lambda>_ _ s. (Some Diverges, s)" Diverges] that
    by (simp add: Process_def processWithCtxAndHook_def hook_fuel_depth split_beta
        del: hook_to_depth.simps)
  ultimately show ?thesis
    using top by (intro exI [of _ b1] exI [of _ b2] exI [of _ b3] exI [of _ ?t]) simp
qed

text \<open>
  C34: The test driver and the executor agree. On a built topology, \<open>PipeInput\<close> of a fresh test
  driver returns the same error and leaves the same sink buffers and data as \<open>Process\<close> of an
  executor without stores and stream-time, from any common state.
\<close>

theorem test_driver_agrees:
  assumes "built b" "Build b = Inr t"
    and "d_topo d = d_topo (NewTestDriver t data)" "x_topo e = t" "x_stores e = (\<lambda>_. NilStore)"
    and "d_state d = x_state e"
    and "PipeInput src r d = (err, d')" "Process src r e = (err', e')"
  shows "err = err' \<and> d_state d' = x_state e'"
proof -
  have ok: "topology_ok t" by (rule Build_ok [OF built_ok [OF assms(1)] assms(2)])
  have plain: "sink_plain n" if "go_get (t_nodes t) name = Some n" for name n
    using built_sink_plain [OF assms(1)] map_of_SomeD [OF that] assms(2)
    by (auto simp: Build_def split: if_splits)
  have "n_name n = name" if "go_get (t_nodes t) name = Some n" for name n
    using ok map_of_SomeD [OF that] by (auto simp: topology_ok_def nodes_ok_def)
  then have "processWithCtx (t_nodes (d_topo d)) (\<lambda>_. NilStore) name
      = processWithCtxAndHook (t_nodes t) (\<lambda>_. NilStore) append_buffer name" for name
    using driver_fuel_eq [of "t_nodes t" "t_sinks t" "length (t_nodes t)" "\<lambda>_. NilStore"] assms(3) ok plain
    by (simp add: NewTestDriver_def processWithCtx_def processWithCtxAndHook_def topology_ok_def
        nodes_ok_def sink_plain_def)
  moreover have "t_sources (d_topo d) = t_sources t"
    using assms(3) by (simp add: NewTestDriver_def)
  ultimately show ?thesis
    using assms(4-8) by (auto simp: PipeInput_def Process_def split: if_splits prod.splits)
qed

text \<open>
  C22: Stateless execution. In a built topology whose processors emit a list of records computed
  from their input (sources, \<open>Filter\<close> and \<open>Mapper\<close> among them), \<open>Process\<close> returns no error
  and appends to the sink buffers exactly the records the graph delivers, depth-first, in the
  order of emission and of registration; nothing else changes.
\<close>

theorem stateless_process_delivers:
  assumes "built b" "Build b = Inr (x_topo e)" "src \<in> set (t_sources (x_topo e))"
    and "\<forall>name n. go_get (t_nodes (x_topo e)) name = Some n \<longrightarrow> n_isSink n \<or> (\<exists>f. emits n f)"
  shows "\<exists>outs. delivers (t_nodes (x_topo e)) src r outs
    \<and> Process src r e = (None, e\<lparr>x_state := deliver_all outs (x_state e)\<rparr>)"
proof -
  have ok: "nodes_ok (t_nodes (x_topo e))" "src \<in> dom (go_get (t_nodes (x_topo e)))"
    using Build_ok [OF built_ok [OF assms(1)] assms(2)] assms(3) by (auto simp: topology_ok_def)
  then obtain outs where "delivers (t_nodes (x_topo e)) src r outs"
    using delivers_exists [of "t_nodes (x_topo e)" "[]" "t_nodes (x_topo e)" src r] assms(4)
    by (auto simp: nodes_ok_def dom_map_of_conv_image_fst)
  then show ?thesis
    using delivers_runs [OF ok(1)] assms(3) by (auto simp: Process_def)
qed

section \<open>A concrete topology\<close>

definition demo_nodes :: "(string, ((unit, goval) estate, goval) node) gomap" where
  "demo_nodes =
     [(''src'', \<lparr>n_name = ''src'', n_processFn = Some source_fn, n_statefulFn = None, n_storeNames = [],
        n_downstreams = [''map''], n_isSink = False\<rparr>),
      (''map'', \<lparr>n_name = ''map'', n_processFn = Some (Mapper (\<lambda>k v. (v, k))), n_statefulFn = None,
        n_storeNames = [], n_downstreams = [''out''], n_isSink = False\<rparr>),
      (''out'', \<lparr>n_name = ''out'', n_processFn = Some sinkPlaceholderFn, n_statefulFn = None,
        n_storeNames = [], n_downstreams = [], n_isSink = True\<rparr>)]"

definition demo_builder :: "((unit, goval) estate, goval) Builder" where
  "demo_builder = \<lparr>b_sources = [''src''], b_sinks = [''out''], b_nodes = demo_nodes\<rparr>"

definition demo_topology :: "((unit, goval) estate, goval) Topology" where
  "demo_topology = \<lparr>t_sources = [''src''], t_sinks = [''out''], t_nodes = demo_nodes\<rparr>"

lemma demo_built: "built demo_builder"
proof -
  obtain b1 where b1: "AddSource ''src'' (NewBuilder :: ((unit, goval) estate, goval) Builder) = Inr b1"
    by (simp add: AddSource_def NewBuilder_def)
  obtain b2 where b2: "AddProcessor ''map'' (Mapper (\<lambda>k v. (v, k))) [''src''] b1 = Inr b2"
    using b1 by (auto simp: AddSource_def AddProcessor_def NewBuilder_def)
  have b3: "AddSink ''out'' [''map''] b2 = Inr demo_builder"
    using b1 b2 by (auto simp: AddSource_def AddProcessor_def AddSink_def NewBuilder_def
        demo_builder_def demo_nodes_def)
  show ?thesis
    by (rule built_Sink [OF built_Processor [OF built_Source [OF built_New b1] _ b2] _ b3]) simp_all
qed

lemma demo_Build: "Build demo_builder = Inr demo_topology"
  by (simp add: Build_def demo_builder_def demo_topology_def)

lemma demo_emits: "go_get demo_nodes name = Some n \<Longrightarrow> n_isSink n \<or> (\<exists>f. emits n f)"
proof -
  assume "go_get demo_nodes name = Some n"
  then have "n_isSink n \<or> n_processFn n \<in> {Some source_fn, Some (Mapper (\<lambda>k v. (v, k)))}"
    and "n_statefulFn n = None"
    by (auto simp: demo_nodes_def split: if_splits)
  then show ?thesis using emits_source_fn [of n] emits_Mapper [of n] by blast
qed

definition demo_record :: "goval Record" where
  "demo_record = \<lparr>r_Key = GoNil, r_Value = GoInt64 1, r_Timestamp = 5\<rparr>"

definition demo_executor :: "(unit, goval) Executor" where
  "demo_executor = NewExecutor demo_topology (\<lambda>_. NilStore) ()"

lemma demo_executor_topo [simp]: "x_topo demo_executor = demo_topology"
  by (simp add: demo_executor_def NewExecutor_def NewExecutorWithStreamTime_def)

theorem traversal_terminates_witness:
  "wf (calls demo_nodes)
    \<and> hook_to_depth (\<lambda>_ _ s. (Some Diverges, s)) 3 demo_nodes (\<lambda>_. NilStore) append_buffer ''src''
        demo_record (x_state demo_executor)
      = processWithCtxAndHook demo_nodes (\<lambda>_. NilStore) append_buffer ''src''
        demo_record (x_state demo_executor)"
proof -
  have "''src'' \<in> dom (go_get demo_nodes)" "length demo_nodes = 3"
    by (simp_all add: demo_nodes_def domIff)
  then show ?thesis
    using traversal_terminates [OF demo_built demo_Build, of "''src''"]
    by (simp add: demo_topology_def)
qed

theorem self_parent_never_returns_witness:
  "\<exists>b1 b2 b3 t. AddSource ''src'' (NewBuilder :: ((unit, goval) estate, goval) Builder) = Inr b1
    \<and> AddProcessor ''p'' (Mapper (\<lambda>k v. (v, k))) [''src'', ''p''] b1 = Inr b2
    \<and> AddSink ''out'' [''p''] b2 = Inr b3 \<and> Build b3 = Inr t
    \<and> fst (Process ''src'' demo_record (NewExecutor t (\<lambda>_. NilStore) ())) = Some Diverges"
  using self_parent_never_returns [of "''src''" "''p''" "''out''" "\<lambda>k v :: goval. (v, k)",
      where ?'d = unit]
  by (auto simp: NewExecutor_def NewExecutorWithStreamTime_def)

theorem test_driver_agrees_witness:
  "fst (PipeInput ''src'' demo_record (NewTestDriver demo_topology ()))
      = fst (Process ''src'' demo_record demo_executor)
    \<and> d_state (snd (PipeInput ''src'' demo_record (NewTestDriver demo_topology ())))
      = x_state (snd (Process ''src'' demo_record demo_executor))"
proof (rule test_driver_agrees [OF demo_built demo_Build])
  show "d_topo (NewTestDriver demo_topology ()) = d_topo (NewTestDriver demo_topology ())" ..
  show "d_state (NewTestDriver demo_topology ()) = x_state demo_executor"
    and "x_stores demo_executor = (\<lambda>_. NilStore)"
    by (simp_all add: NewTestDriver_def demo_executor_def NewExecutor_def NewExecutorWithStreamTime_def)
qed simp_all

theorem stateless_process_delivers_witness:
  "\<exists>outs. delivers demo_nodes ''src'' demo_record outs
    \<and> Process ''src'' demo_record demo_executor
      = (None, demo_executor\<lparr>x_state := deliver_all outs (x_state demo_executor)\<rparr>)"
  using stateless_process_delivers [OF demo_built, of demo_executor "''src''" demo_record]
    demo_emits demo_Build
  by (simp add: demo_topology_def)

end
