(* ===== verification/MemoryStore.thy ===== *)
theory MemoryStore
  imports StoreApi
begin

text \<open>
  \<open>stores/memory\<close>: the in-memory database, its named key-value stores, and the proof that a
  named store meets the contract \<open>byte_store\<close>. The mutexes of the source make each method one
  atomic step, so a method is a function from the state before to the state after.
\<close>

section \<open>Definitions\<close>

record DB =
  db_data :: "(bytes, bytes) gomap"
  db_checkpoints :: "(string, int) gomap"
  db_streamTime :: int
  db_hasStreamTime :: bool
  db_closed :: bool

definition OpenMemDB :: DB where
  "OpenMemDB = \<lparr>db_data = [], db_checkpoints = [], db_streamTime = 0, db_hasStreamTime = False,
     db_closed = False\<rparr>"

definition DB_Close :: "DB \<Rightarrow> error option \<times> DB" where
  "DB_Close db = (None, db\<lparr>db_closed := True, db_data := []\<rparr>)"

definition db_closed_err :: error where
  "db_closed_err = Err ''memory: database closed''"

record ('k, 'v) KeyValueStore =
  kv_prefix :: bytes
  kSerde :: "'k Serde"
  vSerde :: "'v Serde"
  collectMutations :: bool
  mutations :: "StoreMutation list"
  kv_closed :: bool

definition NewKeyValueStore :: "string \<Rightarrow> 'k Serde \<Rightarrow> 'v Serde \<Rightarrow> ('k, 'v) KeyValueStore" where
  "NewKeyValueStore name kS vS =
     \<lparr>kv_prefix = bytes_of name @ [0], kSerde = kS, vSerde = vS, collectMutations = False,
      mutations = [], kv_closed = False\<rparr>"

definition OpenStore :: "string \<Rightarrow> bool \<Rightarrow> error + (bytes, bytes) KeyValueStore" where
  "OpenStore name collect =
     (if name = '''' then Inl (Err ''memory: store name must not be empty'')
      else Inr ((NewKeyValueStore name bytesserde bytesserde)\<lparr>collectMutations := collect\<rparr>))"

definition apply_mutation :: "StoreMutation \<Rightarrow> (bytes, bytes) gomap \<Rightarrow> (bytes, bytes) gomap" where
  "apply_mutation mutation data =
     (case m_Value mutation of
        None \<Rightarrow> go_delete (m_Key mutation) data
      | Some v \<Rightarrow> go_set (m_Key mutation) v data)"

definition DB_Restore :: "string \<Rightarrow> StoreMutation list \<Rightarrow> int \<Rightarrow> DB \<Rightarrow> error option \<times> DB" where
  "DB_Restore storeName muts checkpoint db =
     (if db_closed db then (Some db_closed_err, db)
      else let db = db\<lparr>db_data := fold apply_mutation muts (db_data db)\<rparr> in
        (None, if checkpoint \<ge> 0
               then db\<lparr>db_checkpoints := go_set storeName checkpoint (db_checkpoints db)\<rparr> else db))"

definition DB_ReadCheckpoint :: "string \<Rightarrow> DB \<Rightarrow> error + int option" where
  "DB_ReadCheckpoint storeName db =
     (if db_closed db then Inl db_closed_err else Inr (go_get (db_checkpoints db) storeName))"

definition DB_WriteCheckpoint :: "string \<Rightarrow> int \<Rightarrow> DB \<Rightarrow> error option \<times> DB" where
  "DB_WriteCheckpoint storeName offset db =
     (if db_closed db then (Some db_closed_err, db)
      else (None, db\<lparr>db_checkpoints := go_set storeName offset (db_checkpoints db)\<rparr>))"

definition DB_ReadStreamTime :: "DB \<Rightarrow> error + int option" where
  "DB_ReadStreamTime db =
     (if db_closed db then Inl db_closed_err
      else Inr (if db_hasStreamTime db then Some (db_streamTime db) else None))"

definition DB_WriteStreamTime :: "int \<Rightarrow> DB \<Rightarrow> error option \<times> DB" where
  "DB_WriteStreamTime timestamp db =
     (if db_closed db then (Some db_closed_err, db)
      else (None, db\<lparr>db_streamTime := timestamp, db_hasStreamTime := True\<rparr>))"

text \<open>
  The methods of \<open>KeyValueStore\<close> act on the store's own fields and on the shared database. A
  nil receiver is \<open>None\<close>.
\<close>

type_synonym ('k, 'v) kvstate = "('k, 'v) KeyValueStore \<times> DB"

definition checkOpen :: "('k, 'v) kvstate \<Rightarrow> error option" where
  "checkOpen = (\<lambda>(s, db).
     if kv_closed s then Some (Err ''memory: store closed'')
     else if db_closed db then Some db_closed_err
     else None)"

definition prefixed :: "('k, 'v) KeyValueStore \<Rightarrow> bytes \<Rightarrow> bytes" where
  "prefixed s key = kv_prefix s @ key"

definition encodeKey :: "'k \<Rightarrow> ('k, 'v) kvstate \<Rightarrow> error + bytes" where
  "encodeKey key st =
     (case checkOpen st of
        Some e \<Rightarrow> Inl e
      | None \<Rightarrow> (case Serialize (kSerde (fst st)) key of
          Inl e \<Rightarrow> Inl (Wrap ''memory: serialize key'' [e])
        | Inr encoded \<Rightarrow> Inr (prefixed (fst st) encoded)))"

definition raw_get :: "bytes \<Rightarrow> ('k, 'v) kvstate \<Rightarrow> error + bytes option" where
  "raw_get key st =
     (case checkOpen st of
        Some e \<Rightarrow> Inl e
      | None \<Rightarrow> if db_closed (snd st) then Inl db_closed_err
                else Inr (go_get (db_data (snd st)) key))"

text \<open>\<open>append([]byte(nil), value...)\<close> is nil when the value is empty.\<close>

definition recordMutation :: "bytes \<Rightarrow> bytes option \<Rightarrow> ('k, 'v) KeyValueStore \<Rightarrow> ('k, 'v) KeyValueStore" where
  "recordMutation key val s =
     (if \<not> collectMutations s then s
      else s\<lparr>mutations := mutations s @
        [\<lparr>m_Key = key, m_Value = (case val of Some (b # bs) \<Rightarrow> Some (b # bs) | _ \<Rightarrow> None)\<rparr>]\<rparr>)"

definition raw_put :: "bytes \<Rightarrow> bytes \<Rightarrow> ('k, 'v) kvstate \<Rightarrow> error option \<times> ('k, 'v) kvstate" where
  "raw_put key val st =
     (case checkOpen st of
        Some e \<Rightarrow> (Some e, st)
      | None \<Rightarrow>
        (case st of (s, db) \<Rightarrow>
          if db_closed db then (Some db_closed_err, st)
          else (None, (recordMutation key (Some val) s,
                 db\<lparr>db_data := go_set key val (db_data db)\<rparr>))))"

definition raw_delete :: "bytes \<Rightarrow> ('k, 'v) kvstate \<Rightarrow> error option \<times> ('k, 'v) kvstate" where
  "raw_delete key st =
     (case checkOpen st of
        Some e \<Rightarrow> (Some e, st)
      | None \<Rightarrow>
        (case st of (s, db) \<Rightarrow>
          if db_closed db then (Some db_closed_err, st)
          else (None, (recordMutation key None s,
                 db\<lparr>db_data := go_delete key (db_data db)\<rparr>))))"

definition kv_Close :: "('k, 'v) kvstate \<Rightarrow> error option \<times> ('k, 'v) kvstate" where
  "kv_Close = (\<lambda>(s, db). (None, (s\<lparr>kv_closed := True\<rparr>, db)))"

definition kv_Get :: "'k \<Rightarrow> ('k, 'v) kvstate \<Rightarrow> error + 'v option" where
  "kv_Get key st =
     (case encodeKey key st of
        Inl e \<Rightarrow> Inl e
      | Inr encoded \<Rightarrow> (case raw_get encoded st of
          Inl e \<Rightarrow> Inl e
        | Inr None \<Rightarrow> Inr None
        | Inr (Some val) \<Rightarrow> (case Deserialize (vSerde (fst st)) val of
            Inl e \<Rightarrow> Inl (Wrap ''memory: deserialize value'' [e])
          | Inr decoded \<Rightarrow> Inr (Some decoded))))"

definition kv_Put :: "'k \<Rightarrow> 'v \<Rightarrow> ('k, 'v) kvstate \<Rightarrow> error option \<times> ('k, 'v) kvstate" where
  "kv_Put key val st =
     (case encodeKey key st of
        Inl e \<Rightarrow> (Some e, st)
      | Inr encodedKey \<Rightarrow> (case Serialize (vSerde (fst st)) val of
          Inl e \<Rightarrow> (Some (Wrap ''memory: serialize value'' [e]), st)
        | Inr encodedValue \<Rightarrow> raw_put encodedKey encodedValue st))"

definition kv_Delete :: "'k \<Rightarrow> ('k, 'v) kvstate \<Rightarrow> error option \<times> ('k, 'v) kvstate" where
  "kv_Delete key st =
     (case encodeKey key st of
        Inl e \<Rightarrow> (Some e, st)
      | Inr encoded \<Rightarrow> raw_delete encoded st)"

text \<open>
  Selecting the keys of a byte range, sorting them and pairing them with their values: the
  first half of \<open>Range\<close> and \<open>RangeCompositeBytes\<close>, under the database's read lock.
\<close>

definition sorted_entries :: "(bytes \<Rightarrow> bool) \<Rightarrow> DB \<Rightarrow> (bytes \<times> bytes) list" where
  "sorted_entries sel db =
     map (\<lambda>k. (k, case go_get (db_data db) k of Some v \<Rightarrow> v | None \<Rightarrow> []))
       (sort (filter sel (map fst (db_data db))))"

fun decode_entries :: "('k, 'v) KeyValueStore \<Rightarrow> (bytes \<times> bytes) list \<Rightarrow> ('k \<times> 'v) list \<times> error option" where
  "decode_entries s [] = ([], None)"
| "decode_entries s ((key, val) # rest) =
     (case Deserialize (kSerde s) (drop (length (kv_prefix s)) key) of
        Inl e \<Rightarrow> ([], Some (Wrap ''memory: deserialize key'' [e]))
      | Inr decodedKey \<Rightarrow> (case Deserialize (vSerde s) val of
          Inl e \<Rightarrow> ([], Some (Wrap ''memory: deserialize value'' [e]))
        | Inr decodedValue \<Rightarrow>
            (case decode_entries s rest of (es, err) \<Rightarrow> ((decodedKey, decodedValue) # es, err))))"

definition kv_Range :: "('k, 'v) kvstate \<Rightarrow> ('k \<times> 'v) list \<times> error option" where
  "kv_Range st =
     (case checkOpen st of
        Some e \<Rightarrow> ([], Some e)
      | None \<Rightarrow>
        let p = kv_prefix (fst st); upper = prefixUpperBound p in
        decode_entries (fst st) (sorted_entries
          (\<lambda>key. p \<le> key \<and> (case upper of None \<Rightarrow> True | Some u \<Rightarrow> key < u)) (snd st)))"

definition kv_WindowGet :: "bytes \<Rightarrow> int \<Rightarrow> ('k, 'v) kvstate \<Rightarrow> error + bytes option" where
  "kv_WindowGet key windowStart st = raw_get (prefixed (fst st) (CompositeKey key windowStart)) st"

definition kv_WindowPut :: "bytes \<Rightarrow> int \<Rightarrow> bytes \<Rightarrow> ('k, 'v) kvstate \<Rightarrow> error option \<times> ('k, 'v) kvstate" where
  "kv_WindowPut key windowStart val st =
     raw_put (prefixed (fst st) (CompositeKey key windowStart)) val st"

definition kv_WindowDelete :: "bytes \<Rightarrow> int \<Rightarrow> ('k, 'v) kvstate \<Rightarrow> error option \<times> ('k, 'v) kvstate" where
  "kv_WindowDelete key windowStart st =
     raw_delete (prefixed (fst st) (CompositeKey key windowStart)) st"

definition kv_RangeCompositeBytes ::
    "bytes \<Rightarrow> bytes \<Rightarrow> ('k, 'v) kvstate \<Rightarrow> (bytes \<times> bytes) list \<times> error option" where
  "kv_RangeCompositeBytes lower upper st =
     (case checkOpen st of
        Some e \<Rightarrow> ([], Some e)
      | None \<Rightarrow>
        let lower = prefixed (fst st) lower; upper = prefixed (fst st) upper in
        if db_closed (snd st) then ([], Some db_closed_err)
        else (map (\<lambda>(k, v). (drop (length (kv_prefix (fst st))) k, v))
                (sorted_entries (\<lambda>key. lower \<le> key \<and> key < upper) (snd st)), None))"

fun decode_starts :: "(bytes \<times> bytes) list \<Rightarrow> (int \<times> bytes) list \<times> error option" where
  "decode_starts [] = ([], None)"
| "decode_starts ((compositeKey, val) # rest) =
     (case decodeCompositeKey compositeKey of
        Inl e \<Rightarrow> ([], Some e)
      | Inr (_, start) \<Rightarrow> (case decode_starts rest of (es, err) \<Rightarrow> ((start, val) # es, err)))"

definition kv_RangeForKey :: "bytes \<Rightarrow> ('k, 'v) kvstate \<Rightarrow> (int \<times> bytes) list \<times> error option" where
  "kv_RangeForKey key st =
     (let lower = CompositeKey key 0;
          p = be_bytes 4 (int (length key)) @ key;
          upper = (case prefixUpperBound p of None \<Rightarrow> [] | Some u \<Rightarrow> u)
      in case kv_RangeCompositeBytes lower upper st of
           (entries, Some e) \<Rightarrow> ([], Some e)
         | (entries, None) \<Rightarrow> decode_starts entries)"

definition kv_DrainMutations :: "('k, 'v) kvstate \<Rightarrow> StoreMutation list \<times> ('k, 'v) kvstate" where
  "kv_DrainMutations = (\<lambda>(s, db). (mutations s, (s\<lparr>mutations := []\<rparr>, db)))"

text \<open>
  A backend with the raw stores opened on it (\<open>OpenStore\<close>), by name; calling a method of a
  store that was never opened is the nil receiver.
\<close>

record MemBackend =
  mb_db :: DB
  mb_stores :: "(string, (bytes, bytes) KeyValueStore) gomap"

definition nil_store_err :: error where
  "nil_store_err = Err ''memory: nil store''"

definition mb_open :: "string \<Rightarrow> bool \<Rightarrow> MemBackend \<Rightarrow> error option \<times> MemBackend" where
  "mb_open name collect b =
     (case OpenStore name collect of
        Inl e \<Rightarrow> (Some e, b)
      | Inr s \<Rightarrow> (None, b\<lparr>mb_stores := go_set name s (mb_stores b)\<rparr>))"

definition mb_read :: "string \<Rightarrow> ((bytes, bytes) kvstate \<Rightarrow> 'r) \<Rightarrow> 'r \<Rightarrow> MemBackend \<Rightarrow> 'r" where
  "mb_read name op nil b =
     (case go_get (mb_stores b) name of None \<Rightarrow> nil | Some s \<Rightarrow> op (s, mb_db b))"

definition mb_update ::
    "string \<Rightarrow> ((bytes, bytes) kvstate \<Rightarrow> 'r \<times> (bytes, bytes) kvstate) \<Rightarrow> 'r \<Rightarrow> MemBackend \<Rightarrow> 'r \<times> MemBackend" where
  "mb_update name op nil b =
     (case go_get (mb_stores b) name of
        None \<Rightarrow> (nil, b)
      | Some s \<Rightarrow> (case op (s, mb_db b) of
          (r, (s', db')) \<Rightarrow> (r, b\<lparr>mb_db := db', mb_stores := go_set name s' (mb_stores b)\<rparr>)))"

definition mem_store :: "string \<Rightarrow> MemBackend Store" where
  "mem_store name =
     \<lparr>Get = (\<lambda>k. mb_read name (kv_Get k) (Inl nil_store_err)),
      Put = (\<lambda>k v. mb_update name (kv_Put k v) (Some nil_store_err)),
      Delete = (\<lambda>k. mb_update name (kv_Delete k) (Some nil_store_err)),
      Range = mb_read name kv_Range ([], Some nil_store_err),
      WindowGet = (\<lambda>k t. mb_read name (kv_WindowGet k t) (Inl nil_store_err)),
      WindowPut = (\<lambda>k t v. mb_update name (kv_WindowPut k t v) (Some nil_store_err)),
      WindowDelete = (\<lambda>k t. mb_update name (kv_WindowDelete k t) (Some nil_store_err)),
      RangeCompositeBytes =
        (\<lambda>lo hi. mb_read name (kv_RangeCompositeBytes lo hi) ([], Some nil_store_err)),
      RangeForKey = (\<lambda>k. mb_read name (kv_RangeForKey k) ([], Some nil_store_err)),
      DrainMutations = mb_update name kv_DrainMutations [],
      Close = mb_update name kv_Close (Some nil_store_err)\<rparr>"

section \<open>The invariant and the abstraction\<close>

definition name_prefix :: "string \<Rightarrow> bytes" where
  "name_prefix name = bytes_of name @ [0]"

definition kv_ok :: "string \<Rightarrow> (bytes, bytes) KeyValueStore \<Rightarrow> bool" where
  "kv_ok name s \<longleftrightarrow> kv_prefix s = name_prefix name \<and> kSerde s = bytesserde \<and> vSerde s = bytesserde
     \<and> \<not> kv_closed s"

definition mem_ok :: "string \<Rightarrow> MemBackend \<Rightarrow> bool" where
  "mem_ok name b \<longleftrightarrow> \<not> db_closed (mb_db b) \<and> go_map_ok (db_data (mb_db b))
     \<and> (case go_get (mb_stores b) name of Some s \<Rightarrow> kv_ok name s | None \<Rightarrow> False)"

definition mem_view :: "string \<Rightarrow> MemBackend \<Rightarrow> bytes \<rightharpoonup> bytes" where
  "mem_view name b key = go_get (db_data (mb_db b)) (name_prefix name @ key)"

lemma mem_okE:
  assumes "mem_ok name b"
  obtains s where "go_get (mb_stores b) name = Some s" "kv_ok name s"
    "\<not> db_closed (mb_db b)" "go_map_ok (db_data (mb_db b))"
  using assms by (auto simp: mem_ok_def split: option.splits)

lemma checkOpen_ok [simp]: "kv_ok name s \<Longrightarrow> \<not> db_closed db \<Longrightarrow> checkOpen (s, db) = None"
  by (simp add: checkOpen_def kv_ok_def)

lemma encodeKey_ok [simp]:
  "kv_ok name s \<Longrightarrow> \<not> db_closed db \<Longrightarrow> encodeKey k (s, db) = Inr (name_prefix name @ k)"
  by (simp add: encodeKey_def) (simp add: kv_ok_def prefixed_def bytesserde_def)

lemma prefixed_ok [simp]: "kv_ok name s \<Longrightarrow> prefixed s k = name_prefix name @ k"
  by (simp add: kv_ok_def prefixed_def)

lemma kv_ok_recordMutation [simp]: "kv_ok name (recordMutation k v s) = kv_ok name s"
  by (simp add: kv_ok_def recordMutation_def)

lemma raw_get_ok [simp]:
  "kv_ok name s \<Longrightarrow> \<not> db_closed db \<Longrightarrow> raw_get k (s, db) = Inr (go_get (db_data db) k)"
  by (simp add: raw_get_def)

lemma raw_put_ok [simp]:
  "kv_ok name s \<Longrightarrow> \<not> db_closed db \<Longrightarrow>
    raw_put k v (s, db) = (None, (recordMutation k (Some v) s, db\<lparr>db_data := go_set k v (db_data db)\<rparr>))"
  by (simp add: raw_put_def)

lemma raw_delete_ok [simp]:
  "kv_ok name s \<Longrightarrow> \<not> db_closed db \<Longrightarrow>
    raw_delete k (s, db) = (None, (recordMutation k None s, db\<lparr>db_data := go_delete k (db_data db)\<rparr>))"
  by (simp add: raw_delete_def)

lemma kv_okD:
  assumes "kv_ok name s"
  shows "kv_prefix s = name_prefix name" "kSerde s = bytesserde" "vSerde s = bytesserde"
  using assms by (auto simp: kv_ok_def)

lemma decode_entries_ok: "kv_ok name s \<Longrightarrow>
  decode_entries s es = (map (\<lambda>(k, v). (drop (length (kv_prefix s)) k, v)) es, None)"
  by (induction s es rule: decode_entries.induct) (simp_all add: kv_okD(2,3) bytesserde_def)

section \<open>Enumeration\<close>

lemma sorted_list_of_set_strip:
  assumes "finite K"
  shows "map (drop (length p)) (sorted_list_of_set ((@) p ` K)) = sorted_list_of_set (K :: bytes set)"
proof -
  have "sorted_wrt (<) (map ((@) p) (sorted_list_of_set K))"
    by (simp add: sorted_wrt_map append_less_append)
  then have "sorted (map ((@) p) (sorted_list_of_set K))"
    and "distinct (map ((@) p) (sorted_list_of_set K))"
    by (simp_all only: strict_sorted_iff)
  then have "map ((@) p) (sorted_list_of_set K) = sorted_list_of_set ((@) p ` K)"
    using assms by (intro sorted_distinct_set_unique) auto
  then have "map (drop (length p)) (sorted_list_of_set ((@) p ` K))
      = map (drop (length p)) (map ((@) p) (sorted_list_of_set K))" by (rule arg_cong [OF sym])
  then show ?thesis by (simp add: comp_def)
qed

lemma sorted_entries_eq:
  assumes "go_map_ok (db_data db)"
  shows "sorted_entries sel db = map (\<lambda>k. (k, the (go_get (db_data db) k)))
    (sorted_list_of_set {k \<in> dom (go_get (db_data db)). sel k})"
proof -
  let ?ks = "filter sel (map fst (db_data db))"
  have "distinct ?ks" using assms by (simp add: go_map_ok_def)
  moreover have "set ?ks = {k \<in> dom (go_get (db_data db)). sel k}"
    by (auto simp: dom_map_of_conv_image_fst)
  ultimately have "sort ?ks = sorted_list_of_set {k \<in> dom (go_get (db_data db)). sel k}"
    using sorted_list_of_set_sort_remdups [of ?ks] by (simp only: distinct_remdups_id)
  moreover have "(case go_get (db_data db) k of Some v \<Rightarrow> v | None \<Rightarrow> []) = the (go_get (db_data db) k)"
    if "k \<in> {k \<in> dom (go_get (db_data db)). sel k}" for k
    using that by auto
  moreover have "finite {k \<in> dom (go_get (db_data db)). sel k}"
    using finite_dom_map_of [of "db_data db"] by simp
  ultimately show ?thesis
    unfolding sorted_entries_def by (simp cong: map_cong)
qed

lemma sorted_entries_strip:
  assumes "go_map_ok (db_data db)"
    and sel: "\<And>k. sel k \<Longrightarrow> prefix p k"
  shows "map (\<lambda>(k, v). (drop (length p) k, v)) (sorted_entries sel db)
    = map (\<lambda>k. (k, the (go_get (db_data db) (p @ k))))
        (sorted_list_of_set {k. p @ k \<in> dom (go_get (db_data db)) \<and> sel (p @ k)})"
proof -
  let ?K = "{k. p @ k \<in> dom (go_get (db_data db)) \<and> sel (p @ k)}"
  have img: "{k \<in> dom (go_get (db_data db)). sel k} = (@) p ` ?K"
  proof (intro equalityI subsetI)
    fix k assume k: "k \<in> {k \<in> dom (go_get (db_data db)). sel k}"
    with sel obtain r where "k = p @ r" by (auto simp: prefix_def)
    with k show "k \<in> (@) p ` ?K" by auto
  qed auto
  have "finite ((@) p ` ?K)"
    unfolding img [symmetric] using finite_dom_map_of [of "db_data db"] by simp
  then have fin: "finite ?K" by (rule finite_imageD) (simp add: inj_on_def)
  have "map (\<lambda>(k, v). (drop (length p) k, v)) (sorted_entries sel db)
      = map (\<lambda>k. (drop (length p) k, the (go_get (db_data db) k))) (sorted_list_of_set ((@) p ` ?K))"
    by (simp add: sorted_entries_eq [OF assms(1)] img comp_def)
  also have "\<dots> = map (\<lambda>k. (k, the (go_get (db_data db) (p @ k))))
      (map (drop (length p)) (sorted_list_of_set ((@) p ` ?K)))"
    using fin by (auto simp: comp_def)
  finally show ?thesis
    by (simp only: sorted_list_of_set_strip [OF fin])
qed

lemma between_prefixed: "(p :: bytes) @ lo \<le> k \<Longrightarrow> k < p @ hi \<Longrightarrow> prefix p k"
  using between_prefix_extension [of p lo k hi] by (auto simp: prefix_def)

lemma kv_RangeCompositeBytes_ok:
  assumes "kv_ok name s" "\<not> db_closed db" "go_map_ok (db_data db)"
  shows "kv_RangeCompositeBytes lo hi (s, db)
    = (entries_between lo hi (\<lambda>k. go_get (db_data db) (name_prefix name @ k)), None)"
proof -
  let ?p = "name_prefix name"
  have p: "kv_prefix s = ?p" using assms(1) by (rule kv_okD)
  have "map (\<lambda>(k, v). (drop (length ?p) k, v)) (sorted_entries (\<lambda>key. ?p @ lo \<le> key \<and> key < ?p @ hi) db)
      = map (\<lambda>k. (k, the (go_get (db_data db) (?p @ k))))
        (sorted_list_of_set {k. ?p @ k \<in> dom (go_get (db_data db)) \<and> ?p @ lo \<le> ?p @ k \<and> ?p @ k < ?p @ hi})"
    by (rule sorted_entries_strip [OF assms(3)]) (elim conjE, rule between_prefixed)
  then show ?thesis
    using assms p
    by (simp add: kv_RangeCompositeBytes_def Let_def entries_between_def append_le_append
        append_less_append dom_def)
qed

lemma decode_starts_ok:
  "(\<And>c. c \<in> fst ` set es \<Longrightarrow> \<exists>t. is_i64 t \<and> c = CompositeKey k t) \<Longrightarrow> key_fits k \<Longrightarrow>
    decode_starts es = (map (\<lambda>(c, v). (int64_of_be (drop (4 + length k) c), v)) es, None)"
proof (induction es)
  case Nil
  then show ?case by simp
next
  case (Cons e es)
  obtain c v where e: "e = (c, v)" by fastforce
  then obtain t where t: "is_i64 t" "c = CompositeKey k t" using Cons.prems(1) by force
  have "int64_of_be (drop (4 + length k) c) = t"
    using t by (simp add: CompositeKey_def int64_of_be_be_bytes)
  moreover have "decode_starts es = (map (\<lambda>(c, v). (int64_of_be (drop (4 + length k) c), v)) es, None)"
    using Cons by auto
  ultimately show ?case
    using e t Cons.prems(2) decode_CompositeKey [of k t] by simp
qed

lemma kv_RangeForKey_ok:
  assumes "kv_ok name s" "\<not> db_closed db" "go_map_ok (db_data db)" "key_fits k"
    and w: "window_keys (\<lambda>k. go_get (db_data db) (name_prefix name @ k))"
  shows "kv_RangeForKey k (s, db)
    = (window_entries k (\<lambda>k. go_get (db_data db) (name_prefix name @ k)), None)"
proof -
  let ?m = "\<lambda>k. go_get (db_data db) (name_prefix name @ k)"
  obtain u where u: "prefixUpperBound (key_prefix k) = Some u"
    using key_prefix_upper_bound assms(4) by blast
  have fin: "finite (dom ?m)"
  proof -
    have "(@) (name_prefix name) ` dom ?m \<subseteq> dom (go_get (db_data db))" by auto
    then show ?thesis
      using finite_dom_map_of by (metis finite_subset finite_imageD inj_onI append_eq_append_conv)
  qed
  have "\<exists>t. is_i64 t \<and> c = CompositeKey k t" if "c \<in> fst ` set (entries_between (CompositeKey k 0) u ?m)" for c
    using that between_key_bounds [OF w assms(4), of c] u
    by (auto simp: entries_between_set [OF fin] domI)
  then show ?thesis
    using u kv_RangeCompositeBytes_ok [OF assms(1-3)] decode_starts_ok [OF _ assms(4)]
    by (simp add: kv_RangeForKey_def Let_def window_entries_def key_prefix_def)
qed

lemma kv_Range_ok:
  assumes "kv_ok name s" "\<not> db_closed db" "go_map_ok (db_data db)"
  shows "kv_Range (s, db) = (map (\<lambda>k. (k, the (go_get (db_data db) (name_prefix name @ k))))
    (sorted_list_of_set (dom (\<lambda>k. go_get (db_data db) (name_prefix name @ k)))), None)"
proof -
  let ?p = "name_prefix name"
  have p: "kv_prefix s = ?p" using assms(1) by (rule kv_okD)
  obtain u where u: "prefixUpperBound ?p = Some u"
    by (simp add: name_prefix_def prefixUpperBound_snoc)
  have sel: "?p \<le> k \<and> k < u \<longleftrightarrow> prefix ?p k" for k
    by (rule prefixUpperBound_range [OF u])
  have "map (\<lambda>(k, v). (drop (length ?p) k, v)) (sorted_entries (\<lambda>k. ?p \<le> k \<and> k < u) db)
      = map (\<lambda>k. (k, the (go_get (db_data db) (?p @ k))))
        (sorted_list_of_set {k. ?p @ k \<in> dom (go_get (db_data db)) \<and> ?p \<le> ?p @ k \<and> ?p @ k < u})"
    by (rule sorted_entries_strip [OF assms(3)]) (simp add: sel)
  then show ?thesis
    using assms p u by (simp add: kv_Range_def Let_def decode_entries_ok [OF assms(1)] sel dom_def)
qed

section \<open>The contract holds\<close>

lemma mem_view_upd:
  "mem_view name (b\<lparr>mb_db := (mb_db b)\<lparr>db_data := go_set (name_prefix name @ k) v (db_data (mb_db b))\<rparr>, mb_stores := ss\<rparr>)
    = (mem_view name b)(k \<mapsto> v)"
  by (rule ext) (simp add: mem_view_def)

lemma mem_view_del:
  "mem_view name (b\<lparr>mb_db := (mb_db b)\<lparr>db_data := go_delete (name_prefix name @ k) (db_data (mb_db b))\<rparr>, mb_stores := ss\<rparr>)
    = (mem_view name b)(k := None)"
  by (rule ext) (simp add: mem_view_def)

lemma mem_put_gen:
  assumes ok: "mem_ok name b"
    and op: "\<And>s db. kv_ok name s \<Longrightarrow> \<not> db_closed db \<Longrightarrow> op (s, db) = raw_put (name_prefix name @ k) v (s, db)"
    and res: "mb_update name op nil b = (e, b')"
  shows "e = None \<and> mem_ok name b' \<and> mem_view name b' = (mem_view name b)(k \<mapsto> v)"
proof -
  obtain s where s: "go_get (mb_stores b) name = Some s" "kv_ok name s"
    "\<not> db_closed (mb_db b)" "go_map_ok (db_data (mb_db b))"
    using ok by (rule mem_okE)
  then show ?thesis
    using res by (auto simp: mb_update_def op mem_view_upd) (simp add: mem_ok_def)
qed

lemma mem_delete_gen:
  assumes ok: "mem_ok name b"
    and op: "\<And>s db. kv_ok name s \<Longrightarrow> \<not> db_closed db \<Longrightarrow> op (s, db) = raw_delete (name_prefix name @ k) (s, db)"
    and res: "mb_update name op nil b = (e, b')"
  shows "e = None \<and> mem_ok name b' \<and> mem_view name b' = (mem_view name b)(k := None)"
proof -
  obtain s where s: "go_get (mb_stores b) name = Some s" "kv_ok name s"
    "\<not> db_closed (mb_db b)" "go_map_ok (db_data (mb_db b))"
    using ok by (rule mem_okE)
  then show ?thesis
    using res by (auto simp: mb_update_def op mem_view_del) (simp add: mem_ok_def)
qed

lemma mem_view_eta: "mem_view name b = (\<lambda>k. go_get (db_data (mb_db b)) (name_prefix name @ k))"
  by (rule ext) (simp add: mem_view_def)

interpretation mem: byte_store "mem_store name" "mem_view name" "mem_ok name" for name
proof
  fix b k v t e b' lower upper
  assume ok: "mem_ok name b"
  then obtain s where s: "go_get (mb_stores b) name = Some s" "kv_ok name s"
    "\<not> db_closed (mb_db b)" "go_map_ok (db_data (mb_db b))"
    by (rule mem_okE)
  show "finite (dom (mem_view name b))"
  proof -
    have "(@) (name_prefix name) ` dom (mem_view name b) \<subseteq> dom (go_get (db_data (mb_db b)))"
      by (auto simp: mem_view_def)
    then show ?thesis
      using finite_dom_map_of by (metis finite_subset finite_imageD inj_onI append_eq_append_conv)
  qed
  show "Get (mem_store name) k b = Inr (mem_view name b k)"
    using s by (simp add: mem_store_def mb_read_def kv_Get_def mem_view_def kv_okD(3) bytesserde_def
        split: option.split)
  show "WindowGet (mem_store name) k t b = Inr (mem_view name b (CompositeKey k t))"
    using s by (simp add: mem_store_def mb_read_def kv_WindowGet_def mem_view_def)
  show "e = None \<and> mem_ok name b' \<and> mem_view name b' = (mem_view name b)(k \<mapsto> v)"
    if "Put (mem_store name) k v b = (e, b')"
    using that unfolding mem_store_def Store.simps
    by (rule mem_put_gen [OF ok, rotated]) (simp add: kv_Put_def kv_okD bytesserde_def)
  show "e = None \<and> mem_ok name b' \<and> mem_view name b' = (mem_view name b)(k := None)"
    if "Delete (mem_store name) k b = (e, b')"
    using that unfolding mem_store_def Store.simps
    by (rule mem_delete_gen [OF ok, rotated]) (simp add: kv_Delete_def)
  show "e = None \<and> mem_ok name b' \<and> mem_view name b' = (mem_view name b)(CompositeKey k t \<mapsto> v)"
    if "WindowPut (mem_store name) k t v b = (e, b')"
    using that unfolding mem_store_def Store.simps
    by (rule mem_put_gen [OF ok, rotated]) (simp add: kv_WindowPut_def)
  show "e = None \<and> mem_ok name b' \<and> mem_view name b' = (mem_view name b)(CompositeKey k t := None)"
    if "WindowDelete (mem_store name) k t b = (e, b')"
    using that unfolding mem_store_def Store.simps
    by (rule mem_delete_gen [OF ok, rotated]) (simp add: kv_WindowDelete_def)
  show "RangeCompositeBytes (mem_store name) lower upper b = (entries_between lower upper (mem_view name b), None)"
    using s by (simp add: mem_store_def mb_read_def kv_RangeCompositeBytes_ok mem_view_eta)
  show "RangeForKey (mem_store name) k b = (window_entries k (mem_view name b), None)"
    if "key_fits k" "window_keys (mem_view name b)"
    using s that by (simp add: mem_store_def mb_read_def kv_RangeForKey_ok mem_view_eta)
  show "Range (mem_store name) b
      = (map (\<lambda>k. (k, the (mem_view name b k))) (sorted_list_of_set (dom (mem_view name b))), None)"
    using s by (simp add: mem_store_def mb_read_def kv_Range_ok mem_view_eta)
qed

section \<open>Independence of named stores\<close>

definition store_name_ok :: "string \<Rightarrow> bool" where
  "store_name_ok name \<longleftrightarrow> name \<noteq> [] \<and> 0 \<notin> set (bytes_of name)"

lemma name_prefix_inject:
  assumes "0 \<notin> set (bytes_of n)" "0 \<notin> set (bytes_of n')" "name_prefix n @ k = name_prefix n' @ k'"
  shows "bytes_of n = bytes_of n'"
proof -
  have "takeWhile (\<lambda>b. b \<noteq> 0) (name_prefix m @ r) = bytes_of m" if "0 \<notin> set (bytes_of m)" for m r
  proof -
    have "takeWhile (\<lambda>b. b \<noteq> 0) (bytes_of m @ 0 # r) = bytes_of m @ takeWhile (\<lambda>b. b \<noteq> 0) (0 # r)"
      using that by (intro takeWhile_append2) auto
    then show ?thesis by (simp add: name_prefix_def)
  qed
  then show ?thesis using assms by metis
qed

lemma bytes_of_inject: "bytes_of n = bytes_of n' \<longleftrightarrow> n = n'"
proof
  have "inj (of_char :: char \<Rightarrow> byte)"
  proof (rule injI)
    fix c d :: char
    assume "(of_char c :: byte) = of_char d"
    then have "unat (of_nat (of_char c) :: byte) = unat (of_nat (of_char d) :: byte)"
      by (simp only: of_nat_of_char)
    then show "c = d" by (simp add: unat_of_nat)
  qed
  then show "n = n'" if "bytes_of n = bytes_of n'"
    using that by (simp add: bytes_of_def inj_map_eq_map)
qed simp

lemma other_store_view:
  assumes "store_name_ok n" "store_name_ok n'" "n \<noteq> n'"
    and "\<And>k. k \<notin> range ((@) (name_prefix n)) \<Longrightarrow> go_get (db_data (mb_db b')) k = go_get (db_data (mb_db b)) k"
  shows "mem_view n' b' = mem_view n' b"
proof (rule ext)
  fix k
  have "name_prefix n' @ k \<notin> range ((@) (name_prefix n))"
    using name_prefix_inject assms(1-3) bytes_of_inject by (auto simp: store_name_ok_def)
  then show "mem_view n' b' k = mem_view n' b k"
    using assms(4) by (simp add: mem_view_def)
qed

definition keeps_other_keys :: "string \<Rightarrow> ((bytes, bytes) kvstate \<Rightarrow> 'r \<times> (bytes, bytes) kvstate) \<Rightarrow> bool" where
  "keeps_other_keys n op \<longleftrightarrow> (\<forall>s db r s' db'. kv_prefix s = name_prefix n \<longrightarrow> op (s, db) = (r, (s', db')) \<longrightarrow>
     db_closed db' = db_closed db \<and> (go_map_ok (db_data db) \<longrightarrow> go_map_ok (db_data db'))
     \<and> (\<forall>k. k \<notin> range ((@) (name_prefix n)) \<longrightarrow> go_get (db_data db') k = go_get (db_data db) k))"

lemma keeps_put: "keeps_other_keys n (\<lambda>st. raw_put (prefixed (fst st) k) v st)"
  by (auto simp: keeps_other_keys_def raw_put_def prefixed_def split: option.splits if_splits)

lemma keeps_delete: "keeps_other_keys n (\<lambda>st. raw_delete (prefixed (fst st) k) st)"
  by (auto simp: keeps_other_keys_def raw_delete_def prefixed_def split: option.splits if_splits)

lemma update_keeps_other_store:
  assumes "store_name_ok n" "store_name_ok n'" "n \<noteq> n'"
    and keep: "keeps_other_keys n op" and ok: "mem_ok n b" "mem_ok n' b"
  shows "mem_ok n' (snd (mb_update n op nil b)) \<and> mem_view n' (snd (mb_update n op nil b)) = mem_view n' b"
proof -
  obtain r b' where res: "mb_update n op nil b = (r, b')" by fastforce
  obtain s where s: "go_get (mb_stores b) n = Some s" "kv_ok n s" using ok(1) by (rule mem_okE)
  obtain s' db' where op: "op (s, mb_db b) = (r, (s', db'))"
    and b': "b' = b\<lparr>mb_db := db', mb_stores := go_set n s' (mb_stores b)\<rparr>"
    using res s(1) by (auto simp: mb_update_def split: prod.splits)
  have *: "db_closed db' = db_closed (mb_db b)" "go_map_ok (db_data (mb_db b)) \<Longrightarrow> go_map_ok (db_data db')"
    "\<And>k. k \<notin> range ((@) (name_prefix n)) \<Longrightarrow> go_get (db_data db') k = go_get (db_data (mb_db b)) k"
    using keep op kv_okD(1) [OF s(2)] unfolding keeps_other_keys_def by blast+
  have "mem_view n' b' = mem_view n' b"
    by (rule other_store_view [OF assms(1-3)]) (simp add: b' *(3))
  moreover have "mem_ok n' b'"
    using ok(2) * assms(3) by (simp add: mem_ok_def b')
  ultimately show ?thesis by (simp add: res)
qed

lemma kv_Put_raw:
  "keeps_other_keys n (kv_Put k v)"
  by (auto simp: keeps_other_keys_def kv_Put_def encodeKey_def raw_put_def prefixed_def
      split: option.splits if_splits sum.splits)

lemma kv_Delete_raw:
  "keeps_other_keys n (kv_Delete k)"
  by (auto simp: keeps_other_keys_def kv_Delete_def encodeKey_def raw_delete_def prefixed_def
      split: option.splits if_splits sum.splits)

lemma kv_WindowPut_eta: "kv_WindowPut k t v = (\<lambda>st. raw_put (prefixed (fst st) (CompositeKey k t)) v st)"
  by (rule ext) (simp add: kv_WindowPut_def)

lemma kv_WindowDelete_eta: "kv_WindowDelete k t = (\<lambda>st. raw_delete (prefixed (fst st) (CompositeKey k t)) st)"
  by (rule ext) (simp add: kv_WindowDelete_def)

lemmas keeps_simps = keeps_put keeps_delete kv_Put_raw kv_Delete_raw kv_WindowPut_eta kv_WindowDelete_eta

section \<open>Properties\<close>

text \<open>
  C23: A named in-memory store is a map. On an open store, \<open>Put\<close> succeeds and afterwards \<open>Get\<close> finds
  exactly the value written under that key and what it found before under every other key; a
  later \<open>Delete\<close> makes the key absent; and \<open>Range\<close> offers precisely the entries present, in
  strictly ascending byte order of the keys.
\<close>

theorem memory_store_is_map:
  assumes "mem_ok n b" and "Put (mem_store n) k v b = (e1, b1)" and "Delete (mem_store n) k b1 = (e2, b2)"
  shows "e1 = None \<and> e2 = None
    \<and> Get (mem_store n) k b1 = Inr (Some v) \<and> Get (mem_store n) k b2 = Inr None
    \<and> (\<forall>k'. k' \<noteq> k \<longrightarrow> Get (mem_store n) k' b1 = Get (mem_store n) k' b
         \<and> Get (mem_store n) k' b2 = Get (mem_store n) k' b)
    \<and> snd (Range (mem_store n) b1) = None
    \<and> sorted_wrt (<) (map fst (fst (Range (mem_store n) b1)))
    \<and> (\<forall>k' v'. (k', v') \<in> set (fst (Range (mem_store n) b1)) \<longleftrightarrow> Get (mem_store n) k' b1 = Inr (Some v'))"
proof -
  have 1: "e1 = None" "mem_ok n b1" "mem_view n b1 = (mem_view n b)(k \<mapsto> v)"
    using mem.put_law [OF assms(1,2)] by blast+
  have 2: "e2 = None" "mem_ok n b2" "mem_view n b2 = (mem_view n b1)(k := None)"
    using mem.delete_law [OF 1(2) assms(3)] by blast+
  have fin: "finite (dom (mem_view n b1))" by (rule mem.finite_view [OF 1(2)])
  have "(k', v') \<in> set (map (\<lambda>k. (k, the (mem_view n b1 k))) (sorted_list_of_set (dom (mem_view n b1))))
      \<longleftrightarrow> mem_view n b1 k' = Some v'" for k' v'
    using fin by (auto simp: image_iff)
  then show ?thesis
    using 1 2 assms(1)
    by (auto simp: mem.get_law mem.range_law comp_def simp del: set_map)
qed

text \<open>
  C30: Stores of one database are independent: for names without NUL bytes, no write operation of
  one named store changes what another named store holds or whether it is usable.
\<close>

theorem memory_stores_independent:
  assumes "store_name_ok n" "store_name_ok n'" "n \<noteq> n'" "mem_ok n b" "mem_ok n' b"
    and "b' \<in> {snd (Put (mem_store n) k v b), snd (Delete (mem_store n) k b),
      snd (WindowPut (mem_store n) k t v b), snd (WindowDelete (mem_store n) k t b)}"
  shows "mem_ok n' b' \<and> Get (mem_store n') k' b' = Get (mem_store n') k' b
    \<and> Range (mem_store n') b' = Range (mem_store n') b"
proof -
  have "mem_ok n' b' \<and> mem_view n' b' = mem_view n' b"
    using assms(6)
    by (auto simp: mem_store_def keeps_simps update_keeps_other_store [OF assms(1-3) _ assms(4,5)])
  then show ?thesis
    using assms(5) by (simp add: mem.get_law mem.range_law)
qed

definition two_stores :: MemBackend where
  "two_stores = snd (mb_open ''b'' True (snd (mb_open ''a'' True \<lparr>mb_db = OpenMemDB, mb_stores = []\<rparr>)))"

lemma two_stores_ok: "mem_ok ''a'' two_stores" "mem_ok ''b'' two_stores"
  by (simp_all add: two_stores_def mb_open_def OpenStore_def OpenMemDB_def mem_ok_def kv_ok_def
      NewKeyValueStore_def name_prefix_def)

theorem memory_store_is_map_witness:
  "\<exists>e1 b1. Put (mem_store ''a'') [1] [2] two_stores = (e1, b1) \<and> e1 = None
    \<and> Get (mem_store ''a'') [1] b1 = Inr (Some [2])"
  using memory_store_is_map [OF two_stores_ok(1), of "[1]" "[2]"] by (metis surj_pair)

theorem memory_stores_independent_witness:
  "Get (mem_store ''b'') [1] (snd (Put (mem_store ''a'') [1] [2] two_stores))
    = Get (mem_store ''b'') [1] two_stores"
  using memory_stores_independent [OF _ _ _ two_stores_ok,
      of "snd (Put (mem_store ''a'') [1] [2] two_stores)" "[1]" "[2]" 0 "[1]"]
  by (simp add: store_name_ok_def bytes_of_def)

end
