(* ===== verification/StoreCtx.thy ===== *)
theory StoreCtx
  imports Topology MemoryStore
begin

text \<open>
  What a stateful operator sees of the task it runs in: a store found through the processor
  context, the stream-time, and the forwarding of records. The locale \<open>store_ctx\<close> states what
  the operators rely on; it is interpreted on the executor's context over in-memory stores.
\<close>

section \<open>Stores inside the execution state\<close>

definition lift_update :: "('d \<Rightarrow> 'r \<times> 'd) \<Rightarrow> ('d, 'a) estate \<Rightarrow> 'r \<times> ('d, 'a) estate" where
  "lift_update op s = (case op (es_data s) of (r, d) \<Rightarrow> (r, s\<lparr>es_data := d\<rparr>))"

definition lift_store :: "'d Store \<Rightarrow> ('d, 'a) estate Store" where
  "lift_store st =
     \<lparr>Get = (\<lambda>k s. Get st k (es_data s)),
      Put = (\<lambda>k v. lift_update (Put st k v)),
      Delete = (\<lambda>k. lift_update (Delete st k)),
      Range = (\<lambda>s. Range st (es_data s)),
      WindowGet = (\<lambda>k t s. WindowGet st k t (es_data s)),
      WindowPut = (\<lambda>k t v. lift_update (WindowPut st k t v)),
      WindowDelete = (\<lambda>k t. lift_update (WindowDelete st k t)),
      RangeCompositeBytes = (\<lambda>lo hi s. RangeCompositeBytes st lo hi (es_data s)),
      RangeForKey = (\<lambda>k s. RangeForKey st k (es_data s)),
      DrainMutations = lift_update (DrainMutations st),
      Close = lift_update (Close st)\<rparr>"

text \<open>The stores map of a task over an in-memory backend: the opened stores, by name.\<close>

definition mem_stores :: "string list \<Rightarrow> string \<Rightarrow> (MemBackend, 'a) estate anystore" where
  "mem_stores names name = (if name \<in> set names then IsStore (lift_store (mem_store name)) else NilStore)"

text \<open>Feeding records to a stateful function one after the other, until one fails.\<close>

fun feed :: "('s, 'a) StatefulProcessFunc \<Rightarrow> ('s, 'a) ProcessorContext \<Rightarrow> 'a Record list \<Rightarrow> 's \<Rightarrow> error option \<times> 's" where
  "feed fn pc [] s = (None, s)"
| "feed fn pc (r # rs) s =
     (case fn r pc s of (Some e, s') \<Rightarrow> (Some e, s') | (None, s') \<Rightarrow> feed fn pc rs s')"

text \<open>Common steps of the operators: type assertions and the look-up of the store.\<close>

definition assertE :: "string \<Rightarrow> 't option \<Rightarrow> ('s, 't) act" where
  "assertE msg x = (case x of None \<Rightarrow> failE (Err msg) | Some t \<Rightarrow> retE t)"

definition wiredE :: "string \<Rightarrow> string \<Rightarrow> 's anystore \<Rightarrow> ('s, 's Store) act" where
  "wiredE notWired mismatch raw =
     (case raw of
        NilStore \<Rightarrow> failE (Err notWired)
      | OtherStore \<Rightarrow> failE (Err mismatch)
      | IsStore st \<Rightarrow> retE st)"

declare assertE_def [act_simps] wiredE_def [act_simps]

section \<open>The contract\<close>

text \<open>What operators on tables need: their store, and that forwarding leaves it alone.\<close>

locale table_ctx = byte_store st view ok
  for st :: "'s Store" and view :: "'s \<Rightarrow> bytes \<rightharpoonup> bytes" and ok :: "'s \<Rightarrow> bool" +
  fixes pc :: "('s, 'a) ProcessorContext" and name :: string
  assumes ctx_store [simp]: "CtxStore pc name = IsStore st"
    and forward_keeps: "ok s \<Longrightarrow> ok (Forward pc r s) \<and> view (Forward pc r s) = view s"

text \<open>Operators on windows and sessions also need the stream-time.\<close>

locale store_ctx = table_ctx st view ok pc name
  for st :: "'s Store" and view ok and pc :: "('s, 'a) ProcessorContext" and name +
  assumes forward_time: "ok s \<Longrightarrow> StreamTime pc (Forward pc r s) = StreamTime pc s"
    and advance_law: "ok s \<Longrightarrow> ok (AdvanceStreamTime pc t s) \<and> view (AdvanceStreamTime pc t s) = view s
      \<and> StreamTime pc (AdvanceStreamTime pc t s) = max (StreamTime pc s) t"
    and put_time: "StreamTime pc (snd (Put st k v s)) = StreamTime pc s"
    and window_put_time: "StreamTime pc (snd (WindowPut st k t v s)) = StreamTime pc s"
    and window_delete_time: "StreamTime pc (snd (WindowDelete st k t s)) = StreamTime pc s"

context store_ctx
begin

lemma forward_law: "ok s \<Longrightarrow> ok (Forward pc r s) \<and> view (Forward pc r s) = view s \<and> StreamTime pc (Forward pc r s) = StreamTime pc s"
  using forward_keeps forward_time by blast

end

text \<open>A context with a counter of late records.\<close>

locale late_ctx = store_ctx st view ok pc name
  for st :: "'s Store" and view ok and pc :: "('s, 'a) ProcessorContext" and name +
  fixes addLate :: "'s \<Rightarrow> 's" and lateCount :: "'s \<Rightarrow> int"
  assumes add_late_law: "ok s \<Longrightarrow> ok (addLate s) \<and> view (addLate s) = view s
      \<and> StreamTime pc (addLate s) = StreamTime pc s \<and> lateCount (addLate s) = i64 (lateCount s + 1)"
    and advance_late: "lateCount (AdvanceStreamTime pc t s) = lateCount s"
    and forward_late: "lateCount (Forward pc r s) = lateCount s"
    and window_put_late: "lateCount (snd (WindowPut st k t v s)) = lateCount s"
    and window_delete_late: "lateCount (snd (WindowDelete st k t s)) = lateCount s"

section \<open>The contract holds for the executor\<close>

lemma lift_updateE:
  assumes "lift_update op s = (e, s')"
  obtains "op (es_data s) = (e, es_data s')" "es_streamTime s' = es_streamTime s"
  using assms by (auto simp: lift_update_def split: prod.splits)

lemma lift_update_time [simp]:
  "es_streamTime (snd (lift_update op s)) = es_streamTime s" "es_late (snd (lift_update op s)) = es_late s"
  by (simp_all add: lift_update_def split: prod.splits)

context byte_store
begin

lemma lifted_data: "byte_store (lift_store st) (\<lambda>s :: ('s, 'a) estate. view (es_data s)) (\<lambda>s. ok (es_data s))"
  by unfold_locales
    (auto simp: lift_store_def finite_view get_law window_get_law range_composite_law
      range_for_key_law range_law elim!: lift_updateE dest: put_law delete_law window_put_law window_delete_law)

lemma lifted: "byte_store (lift_store st) (\<lambda>s :: ('s, 'a) estate. view (es_data s))
    (\<lambda>s. ok (es_data s) \<and> es_streamTime s \<noteq> None)"
  by unfold_locales
    (auto simp: lift_store_def finite_view get_law window_get_law range_composite_law
      range_for_key_law range_law elim!: lift_updateE dest: put_law delete_law window_put_law window_delete_law)

end

definition mem_ctx_ok :: "string \<Rightarrow> (MemBackend, 'a) estate \<Rightarrow> bool" where
  "mem_ctx_ok name s \<longleftrightarrow> mem_ok name (es_data s) \<and> es_streamTime s \<noteq> None"

text \<open>The executor of a topology without windows and sessions has no stream-time.\<close>

definition mem_data_ok :: "string \<Rightarrow> (MemBackend, 'a) estate \<Rightarrow> bool" where
  "mem_data_ok name s \<longleftrightarrow> mem_ok name (es_data s)"

lemma mem_ctx_data_ok: "mem_ctx_ok name s \<Longrightarrow> mem_data_ok name s"
  by (simp add: mem_ctx_ok_def mem_data_ok_def)

definition mem_ctx_view :: "string \<Rightarrow> (MemBackend, 'a) estate \<Rightarrow> bytes \<rightharpoonup> bytes" where
  "mem_ctx_view name s = mem_view name (es_data s)"

text \<open>
  The context of a node whose downstream nodes are all sinks, as those of the aggregations are:
  every forwarded record is appended to the sinks' buffers.
\<close>

definition sink_ctx :: "string list \<Rightarrow> string list \<Rightarrow> ((MemBackend, 'a) estate, 'a) ProcessorContext" where
  "sink_ctx sinks names =
     processorCtxImpl (forward (\<lambda>sink r s. (None, append_buffer sink r s)) sinks) (mem_stores names)"

interpretation mem_task: byte_store "lift_store (mem_store name)" "mem_ctx_view name" "mem_ctx_ok name" for name
  using mem.lifted by (simp add: mem_ctx_view_def [abs_def] mem_ctx_ok_def [abs_def])

interpretation mem_data: byte_store "lift_store (mem_store name)" "mem_ctx_view name" "mem_data_ok name" for name
  using mem.lifted_data by (simp add: mem_ctx_view_def [abs_def] mem_data_ok_def [abs_def])

lemma append_buffer_data [simp]:
  "es_data (append_buffer sink r s) = es_data s" "es_streamTime (append_buffer sink r s) = es_streamTime s"
  "es_late (append_buffer sink r s) = es_late s"
  by (simp_all add: append_buffer_def)

lemma sink_forward_data [simp]:
  "es_data (forward (\<lambda>sink r s. (None, append_buffer sink r s)) sinks r s) = es_data s"
  "es_streamTime (forward (\<lambda>sink r s. (None, append_buffer sink r s)) sinks r s) = es_streamTime s"
  "es_late (forward (\<lambda>sink r s. (None, append_buffer sink r s)) sinks r s) = es_late s"
proof -
  have "es_data (forward_loop (\<lambda>sink r s. (None, append_buffer sink r s)) sinks r s) = es_data s
      \<and> es_streamTime (forward_loop (\<lambda>sink r s. (None, append_buffer sink r s)) sinks r s) = es_streamTime s
      \<and> es_late (forward_loop (\<lambda>sink r s. (None, append_buffer sink r s)) sinks r s) = es_late s"
    by (induction sinks arbitrary: s) auto
  then show "es_data (forward (\<lambda>sink r s. (None, append_buffer sink r s)) sinks r s) = es_data s"
    and "es_streamTime (forward (\<lambda>sink r s. (None, append_buffer sink r s)) sinks r s) = es_streamTime s"
    and "es_late (forward (\<lambda>sink r s. (None, append_buffer sink r s)) sinks r s) = es_late s"
    by (simp_all add: forward_def)
qed

lemma mem_store_ctx:
  assumes "name \<in> set names"
  shows "store_ctx (lift_store (mem_store name)) (mem_ctx_view name) (mem_ctx_ok name)
    (sink_ctx sinks names) name"
  using assms
  by unfold_locales
    (auto simp: sink_ctx_def processorCtxImpl_def mem_stores_def mem_ctx_ok_def mem_ctx_view_def
      ctx_StreamTime_def ctx_AdvanceStreamTime_def lift_store_def)

text \<open>The task of a topology whose only store is \<open>name\<close>.\<close>

interpretation mem_ctx: store_ctx "lift_store (mem_store name)" "mem_ctx_view name" "mem_ctx_ok name"
    "sink_ctx sinks [name]" name for name sinks
  by (rule mem_store_ctx) simp

interpretation mem_tab: table_ctx "lift_store (mem_store name)" "mem_ctx_view name" "mem_data_ok name" "sink_ctx sinks [name]" name
    for name sinks
  by unfold_locales (auto simp: sink_ctx_def processorCtxImpl_def mem_stores_def mem_data_ok_def mem_ctx_view_def)

text \<open>\<open>lateCount.Add(1)\<close> and \<open>LateCount()\<close>.\<close>

definition late_count :: "string \<Rightarrow> ('d, 'a) estate \<Rightarrow> int" where
  "late_count c s = (case go_get (es_late s) c of None \<Rightarrow> 0 | Some n \<Rightarrow> n)"

definition add_late :: "string \<Rightarrow> ('d, 'a) estate \<Rightarrow> ('d, 'a) estate" where
  "add_late c s = s\<lparr>es_late := go_set c (i64 (late_count c s + 1)) (es_late s)\<rparr>"

interpretation mem_late: late_ctx "lift_store (mem_store name)" "mem_ctx_view name" "mem_ctx_ok name"
    "sink_ctx sinks [name]" name "add_late c" "late_count c" for name sinks c
  by unfold_locales
    (auto simp: add_late_def late_count_def mem_ctx_ok_def mem_ctx_view_def sink_ctx_def
      processorCtxImpl_def ctx_StreamTime_def ctx_AdvanceStreamTime_def lift_store_def
      split: option.split)

end
