(* ===== verification/Grouped.thy ===== *)
theory Grouped
  imports StoreCtx
begin

text \<open>
  \<open>operators.go\<close>, \<open>grouped.go\<close>, \<open>join.go\<close>: the functions the typed operators install in the
  graph. Stateless operators; the keyed aggregation and \<open>Count\<close>; the lookups of a stream-table
  and a stream-global-table join.
\<close>

section \<open>Stateless operators\<close>

definition Filter_fn :: "('a, 'k) gotype \<Rightarrow> ('a, 'v) gotype \<Rightarrow> ('k \<Rightarrow> 'v \<Rightarrow> bool) \<Rightarrow> ('s, 'a) ProcessFunc" where
  "Filter_fn kt vt fn r fwd =
     errOf (bindE (assertE ''filter: key type mismatch'' (type_assert kt (r_Key r))) (\<lambda>k.
            bindE (assertE ''filter: value type mismatch'' (type_assert vt (r_Value r))) (\<lambda>v.
            if fn k v then modifyE (fwd r) else retE ())))"

definition MapValues_fn :: "('a, 'k) gotype \<Rightarrow> ('a, 'v) gotype \<Rightarrow> ('a, 'w) gotype \<Rightarrow> ('k \<Rightarrow> 'v \<Rightarrow> 'w)
    \<Rightarrow> ('s, 'a) ProcessFunc" where
  "MapValues_fn kt vt wt fn r fwd =
     errOf (bindE (assertE ''mapvalues: key type mismatch'' (type_assert kt (r_Key r))) (\<lambda>k.
            bindE (assertE ''mapvalues: value type mismatch'' (type_assert vt (r_Value r))) (\<lambda>v.
            modifyE (fwd \<lparr>r_Key = box kt k, r_Value = box wt (fn k v), r_Timestamp = r_Timestamp r\<rparr>))))"

definition Map_fn :: "('a, 'k) gotype \<Rightarrow> ('a, 'v) gotype \<Rightarrow> ('a, 'j) gotype \<Rightarrow> ('a, 'w) gotype
    \<Rightarrow> ('k \<Rightarrow> 'v \<Rightarrow> 'j \<times> 'w) \<Rightarrow> ('s, 'a) ProcessFunc" where
  "Map_fn kt vt jt wt fn r fwd =
     errOf (bindE (assertE ''map: key type mismatch'' (type_assert kt (r_Key r))) (\<lambda>k.
            bindE (assertE ''map: value type mismatch'' (type_assert vt (r_Value r))) (\<lambda>v.
            case fn k v of (newKey, newVal) \<Rightarrow>
            modifyE (fwd \<lparr>r_Key = box jt newKey, r_Value = box wt newVal, r_Timestamp = r_Timestamp r\<rparr>))))"

definition SelectKey_fn :: "('a, 'k) gotype \<Rightarrow> ('a, 'v) gotype \<Rightarrow> ('a, 'j) gotype \<Rightarrow> ('k \<Rightarrow> 'v \<Rightarrow> 'j)
    \<Rightarrow> ('s, 'a) ProcessFunc" where
  "SelectKey_fn kt vt jt fn r fwd =
     errOf (bindE (assertE ''selectkey: key type mismatch'' (type_assert kt (r_Key r))) (\<lambda>k.
            bindE (assertE ''selectkey: value type mismatch'' (type_assert vt (r_Value r))) (\<lambda>v.
            modifyE (fwd \<lparr>r_Key = box jt (fn k v), r_Value = box vt v, r_Timestamp = r_Timestamp r\<rparr>))))"

section \<open>Keyed aggregation\<close>

definition Aggregate_fn :: "('a, 'k) gotype \<Rightarrow> ('a, 'v) gotype \<Rightarrow> ('a, 'c) gotype \<Rightarrow> 'k Serde \<Rightarrow> string
    \<Rightarrow> (unit \<Rightarrow> 'c) \<Rightarrow> ('k \<Rightarrow> 'v \<Rightarrow> 'c \<Rightarrow> 'c) \<Rightarrow> 'c Serde \<Rightarrow> ('s, 'a) StatefulProcessFunc" where
  "Aggregate_fn kt vt ct keySerde storeName initFn aggFn accSerde r pc =
     errOf (bindE (assertE ''aggregate: key type mismatch'' (type_assert kt (r_Key r))) (\<lambda>k.
            bindE (assertE ''aggregate: value type mismatch'' (type_assert vt (r_Value r))) (\<lambda>v.
            bindE (wiredE ''aggregate: store not wired'' ''aggregate: store type mismatch''
                     (CtxStore pc storeName)) (\<lambda>store.
            bindE (wrapE ''aggregate: encode key'' (pureE (Serialize keySerde k))) (\<lambda>keyBytes.
            bindE (wrapE ''aggregate: store Get'' (readE (Get store keyBytes))) (\<lambda>found.
            bindE (case found of
                     Some valBytes \<Rightarrow> wrapE ''aggregate: decode accumulator'' (pureE (Deserialize accSerde valBytes))
                   | None \<Rightarrow> retE (initFn ())) (\<lambda>cur.
            let nxt = aggFn k v cur in
            bindE (wrapE ''aggregate: encode accumulator'' (pureE (Serialize accSerde nxt))) (\<lambda>nextBytes.
            bindE (wrapE ''aggregate: store Put'' (doE (Put store keyBytes nextBytes))) (\<lambda>_.
            modifyE (Forward pc \<lparr>r_Key = box kt k, r_Value = box ct nxt, r_Timestamp = r_Timestamp r\<rparr>))))))))))"

text \<open>\<open>Count\<close>: the accumulator is an \<open>int64\<close>, and \<open>acc + 1\<close> wraps around.\<close>

definition count_init :: "unit \<Rightarrow> int" where
  "count_init u = 0"

definition count_agg :: "'k \<Rightarrow> 'v \<Rightarrow> int \<Rightarrow> int" where
  "count_agg k v acc = i64 (acc + 1)"

definition Count_fn :: "('a, 'k) gotype \<Rightarrow> ('a, 'v) gotype \<Rightarrow> ('a, int) gotype \<Rightarrow> 'k Serde \<Rightarrow> string
    \<Rightarrow> int Serde \<Rightarrow> ('s, 'a) StatefulProcessFunc" where
  "Count_fn kt vt ct keySerde storeName countSerde =
     Aggregate_fn kt vt ct keySerde storeName count_init count_agg countSerde"

section \<open>Joins with a table\<close>

definition JoinGlobal_fn :: "('a, 'k) gotype \<Rightarrow> ('a, 'v) gotype \<Rightarrow> ('a, 'w) gotype \<Rightarrow> 'gk Serde \<Rightarrow> 'gv Serde
    \<Rightarrow> string \<Rightarrow> ('k \<Rightarrow> 'v \<Rightarrow> 'gk) \<Rightarrow> ('v \<Rightarrow> 'gv \<Rightarrow> 'w) \<Rightarrow> ('s, 'a) StatefulProcessFunc" where
  "JoinGlobal_fn kt vt wt gktKeySerde gktValSerde gktStoreName keyMapper joiner r pc =
     errOf (bindE (assertE ''join-global: key type mismatch'' (type_assert kt (r_Key r))) (\<lambda>k.
            bindE (assertE ''join-global: value type mismatch'' (type_assert vt (r_Value r))) (\<lambda>v.
            bindE (wiredE ''join-global: store not wired'' ''join-global: store type mismatch''
                     (CtxStore pc gktStoreName)) (\<lambda>store.
            bindE (wrapE ''join-global: encode derived key'' (pureE (Serialize gktKeySerde (keyMapper k v)))) (\<lambda>gkBytes.
            bindE (wrapE ''join-global: store Get'' (readE (Get store gkBytes))) (\<lambda>found.
            case found of
              None \<Rightarrow> retE ()
            | Some valBytes \<Rightarrow>
                bindE (wrapE ''join-global: decode global table value'' (pureE (Deserialize gktValSerde valBytes))) (\<lambda>gv.
                modifyE (Forward pc \<lparr>r_Key = box kt k, r_Value = box wt (joiner v gv), r_Timestamp = r_Timestamp r\<rparr>))))))))"

definition JoinTable_fn :: "('a, 'k) gotype \<Rightarrow> ('a, 'v) gotype \<Rightarrow> ('a, 'w) gotype \<Rightarrow> 'k Serde \<Rightarrow> 't Serde
    \<Rightarrow> string \<Rightarrow> ('v \<Rightarrow> 't \<Rightarrow> 'w) \<Rightarrow> ('s, 'a) StatefulProcessFunc" where
  "JoinTable_fn kt vt wt tableKeySerde tableValSerde tableStoreName joiner r pc =
     errOf (bindE (assertE ''join-table: key type mismatch'' (type_assert kt (r_Key r))) (\<lambda>k.
            bindE (assertE ''join-table: value type mismatch'' (type_assert vt (r_Value r))) (\<lambda>v.
            bindE (wiredE ''join-table: store not wired'' ''join-table: store type mismatch''
                     (CtxStore pc tableStoreName)) (\<lambda>store.
            bindE (wrapE ''join-table: encode key'' (pureE (Serialize tableKeySerde k))) (\<lambda>kBytes.
            bindE (wrapE ''join-table: store Get'' (readE (Get store kBytes))) (\<lambda>found.
            case found of
              None \<Rightarrow> retE ()
            | Some valBytes \<Rightarrow>
                bindE (wrapE ''join-table: decode table value'' (pureE (Deserialize tableValSerde valBytes))) (\<lambda>vt'.
                modifyE (Forward pc \<lparr>r_Key = box kt k, r_Value = box wt (joiner v vt'), r_Timestamp = r_Timestamp r\<rparr>))))))))"

section \<open>The table a store holds\<close>

text \<open>The abstract table: the decoded accumulator of each key; and one step of the aggregation on it.\<close>

definition table :: "'k Serde \<Rightarrow> 'c Serde \<Rightarrow> (bytes \<rightharpoonup> bytes) \<Rightarrow> 'k \<Rightarrow> 'c option" where
  "table keySerde accSerde m k =
     (case Serialize keySerde k of
        Inl _ \<Rightarrow> None
      | Inr b \<Rightarrow> (case m b of
          None \<Rightarrow> None
        | Some c \<Rightarrow> (case Deserialize accSerde c of Inl _ \<Rightarrow> None | Inr a \<Rightarrow> Some a)))"

definition agg_step :: "(unit \<Rightarrow> 'c) \<Rightarrow> ('k \<Rightarrow> 'v \<Rightarrow> 'c \<Rightarrow> 'c) \<Rightarrow> 'k \<times> 'v \<times> int \<Rightarrow> ('k \<rightharpoonup> 'c) \<Rightarrow> 'k \<rightharpoonup> 'c" where
  "agg_step initFn aggFn = (\<lambda>(k, v, ts) m.
     m(k \<mapsto> aggFn k v (case m k of None \<Rightarrow> initFn () | Some a \<Rightarrow> a)))"

definition typed_record :: "('a, 'k) gotype \<Rightarrow> ('a, 'v) gotype \<Rightarrow> 'k \<times> 'v \<times> int \<Rightarrow> 'a Record" where
  "typed_record kt vt = (\<lambda>(k, v, ts). \<lparr>r_Key = box kt k, r_Value = box vt v, r_Timestamp = ts\<rparr>)"

text \<open>Every entry of a key decodes: no foreign or corrupt value was put under it.\<close>

definition decodable :: "'k Serde \<Rightarrow> 'c Serde \<Rightarrow> (bytes \<rightharpoonup> bytes) \<Rightarrow> bool" where
  "decodable keySerde accSerde m \<longleftrightarrow>
     (\<forall>k b c. Serialize keySerde k = Inr b \<longrightarrow> m b = Some c \<longrightarrow> (\<exists>a. Deserialize accSerde c = Inr a))"

locale table_op = table_ctx st view ok pc name
    + kt: go_type kt + vt: go_type vt + ks: total_serde keySerde + cs: total_serde accSerde
  for st :: "'s Store" and view ok and pc :: "('s, 'a) ProcessorContext" and name
    and kt :: "('a, 'k) gotype" and vt :: "('a, 'v) gotype"
    and keySerde :: "'k Serde" and accSerde :: "'c Serde"
begin

lemma table_upd: "table keySerde accSerde (m(ks.enc k \<mapsto> cs.enc a)) = (table keySerde accSerde m)(k \<mapsto> a)"
  by (rule ext) (simp add: table_def)

lemma decodable_upd: "decodable keySerde accSerde m \<Longrightarrow> decodable keySerde accSerde (m(ks.enc k \<mapsto> cs.enc a))"
  by (auto simp: decodable_def)

lemma table_found:
  "decodable keySerde accSerde m \<Longrightarrow> m (ks.enc k) = Some c \<Longrightarrow> \<exists>a. Deserialize accSerde c = Inr a \<and> table keySerde accSerde m k = Some a"
  by (force simp: decodable_def table_def)

lemma table_absent: "m (ks.enc k) = None \<Longrightarrow> table keySerde accSerde m k = None"
  by (simp add: table_def)

text \<open>One record: the new accumulator is put, then forwarded.\<close>

lemma aggregate_run:
  assumes ok: "ok s" and dec: "decodable keySerde accSerde (view s)"
    and cur: "cur = (case table keySerde accSerde (view s) k of None \<Rightarrow> initFn () | Some a \<Rightarrow> a)"
  shows "Aggregate_fn kt vt ct keySerde name initFn aggFn accSerde (typed_record kt vt (k, v, ts)) pc s
      = (None, Forward pc \<lparr>r_Key = box kt k, r_Value = box ct (aggFn k v cur), r_Timestamp = ts\<rparr>
          (snd (Put st (ks.enc k) (cs.enc (aggFn k v cur)) s)))"
proof -
  obtain e s1 where put: "Put st (ks.enc k) (cs.enc (aggFn k v cur)) s = (e, s1)" by fastforce
  have e: "e = None" using put_law [OF ok put] by simp
  show ?thesis
  proof (cases "view s (ks.enc k)")
    case None
    then have "cur = initFn ()" by (simp add: cur table_absent)
    then show ?thesis
      using None put e by (simp add: Aggregate_fn_def typed_record_def act_simps get_law [OF ok] Let_def)
  next
    case (Some c)
    then obtain a where "Deserialize accSerde c = Inr a" "cur = a"
      using table_found [OF dec Some] by (auto simp: cur)
    then show ?thesis
      using Some put e by (simp add: Aggregate_fn_def typed_record_def act_simps get_law [OF ok] Let_def)
  qed
qed

lemma aggregate_step:
  assumes ok: "ok s" and dec: "decodable keySerde accSerde (view s)"
  shows "\<exists>s'. Aggregate_fn kt vt ct keySerde name initFn aggFn accSerde (typed_record kt vt (k, v, ts)) pc s = (None, s')
    \<and> ok s' \<and> decodable keySerde accSerde (view s')
    \<and> table keySerde accSerde (view s') = agg_step initFn aggFn (k, v, ts) (table keySerde accSerde (view s))"
proof -
  define cur where "cur = (case table keySerde accSerde (view s) k of None \<Rightarrow> initFn () | Some a \<Rightarrow> a)"
  obtain e s1 where put: "Put st (ks.enc k) (cs.enc (aggFn k v cur)) s = (e, s1)" by fastforce
  have s1: "ok s1" "view s1 = (view s)(ks.enc k \<mapsto> cs.enc (aggFn k v cur))"
    using put_law [OF ok put] by auto
  have "table keySerde accSerde (view s1) = agg_step initFn aggFn (k, v, ts) (table keySerde accSerde (view s))"
    by (simp add: s1(2) table_upd agg_step_def cur_def)
  then show ?thesis
    using aggregate_run [OF ok dec, of cur initFn k ct aggFn v ts] cur_def put forward_keeps [OF s1(1)] decodable_upd [OF dec] s1(2)
    by simp
qed

lemma aggregate_feed:
  assumes "ok s" "decodable keySerde accSerde (view s)"
  shows "\<exists>s'. feed (Aggregate_fn kt vt ct keySerde name initFn aggFn accSerde) pc (map (typed_record kt vt) kvs) s = (None, s')
    \<and> ok s' \<and> decodable keySerde accSerde (view s')
    \<and> table keySerde accSerde (view s') = fold (agg_step initFn aggFn) kvs (table keySerde accSerde (view s))"
  using assms
proof (induction kvs arbitrary: s)
  case Nil
  then show ?case by simp
next
  case (Cons kv kvs)
  obtain k v ts where kv: "kv = (k, v, ts)" by (cases kv)
  show ?case
    using aggregate_step [OF Cons.prems, of ct initFn aggFn k v ts] Cons.IH kv by fastforce
qed

end

section \<open>Folding per key\<close>

lemma agg_step_apply:
  "agg_step initFn aggFn (k, v, ts) m x
    = (if x = k then Some (aggFn k v (case m k of None \<Rightarrow> initFn () | Some a \<Rightarrow> a)) else m x)"
  by (simp add: agg_step_def)

lemma agg_step_fold:
  "fold (agg_step initFn aggFn) kvs m k
    = (case map (fst \<circ> snd) (filter (\<lambda>kv. fst kv = k) kvs) of
         [] \<Rightarrow> m k
       | vs \<Rightarrow> Some (fold (aggFn k) vs (case m k of None \<Rightarrow> initFn () | Some a \<Rightarrow> a)))"
proof (induction kvs arbitrary: m)
  case Nil
  then show ?case by simp
next
  case (Cons kv kvs)
  obtain k' v ts where kv: "kv = (k', v, ts)" by (cases kv)
  show ?case
    by (cases "k' = k") (auto simp: Cons kv agg_step_apply split: list.split)
qed

lemma i64_add: "i64 (i64 x + y) = i64 (x + y)"
  by (simp add: i64_def mod_simps algebra_simps)

lemma count_fold: "fold (count_agg k) vs a = (if vs = [] then a else i64 (a + int (length vs)))"
proof (induction vs arbitrary: a)
  case Nil
  then show ?case by simp
next
  case (Cons v vs)
  then show ?case using i64_add [of "a + 1" "int (length vs)"] by (simp add: count_agg_def add_ac)
qed

context table_op
begin

lemma join_table_lookup:
  assumes "ok s" "decodable keySerde accSerde (view s)"
  shows "JoinTable_fn kt vt wt keySerde accSerde name joiner (typed_record kt vt (k, v, ts)) pc s
    = (None, case table keySerde accSerde (view s) k of
        None \<Rightarrow> s
      | Some a \<Rightarrow> Forward pc \<lparr>r_Key = box kt k, r_Value = box wt (joiner v a), r_Timestamp = ts\<rparr> s)"
proof (cases "view s (ks.enc k)")
  case None
  then show ?thesis
    by (simp add: JoinTable_fn_def typed_record_def act_simps get_law [OF assms(1)] table_absent)
next
  case (Some c)
  then obtain a where "Deserialize accSerde c = Inr a" "table keySerde accSerde (view s) k = Some a"
    using table_found [OF assms(2)] by blast
  then show ?thesis
    using Some by (simp add: JoinTable_fn_def typed_record_def act_simps get_law [OF assms(1)])
qed

lemma join_global_lookup:
  assumes "ok s" "decodable keySerde accSerde (view s)" "type_assert jt (box jt j) = Some j"
  shows "JoinGlobal_fn jt vt wt keySerde accSerde name keyMapper joiner (typed_record jt vt (j, v, ts)) pc s
    = (None, case table keySerde accSerde (view s) (keyMapper j v) of
        None \<Rightarrow> s
      | Some a \<Rightarrow> Forward pc \<lparr>r_Key = box jt j, r_Value = box wt (joiner v a), r_Timestamp = ts\<rparr> s)"
proof (cases "view s (ks.enc (keyMapper j v))")
  case None
  then show ?thesis
    using assms(3) by (simp add: JoinGlobal_fn_def typed_record_def act_simps get_law [OF assms(1)] table_absent)
next
  case (Some c)
  then obtain a where "Deserialize accSerde c = Inr a" "table keySerde accSerde (view s) (keyMapper j v) = Some a"
    using table_found [OF assms(2)] by blast
  then show ?thesis
    using Some assms(3) by (simp add: JoinGlobal_fn_def typed_record_def act_simps get_law [OF assms(1)])
qed

end

text \<open>The operators over in-memory stores, for byte-string keys and accumulators.\<close>

interpretation mem_table: table_op "lift_store (mem_store name)" "mem_ctx_view name" "mem_data_ok name"
    "sink_ctx sinks [name]" name bytes_type bytes_type bytesserde bytesserde for name sinks
  by unfold_locales

lemma mem_table_op:
  assumes "go_type kt" "go_type vt" "total_serde keySerde" "total_serde accSerde"
  shows "table_op (lift_store (mem_store name)) (mem_ctx_view name) (mem_data_ok name)
    (sink_ctx sinks [name]) name kt vt keySerde accSerde"
  using assms mem_tab.table_ctx_axioms by (simp add: table_op_def)

section \<open>Properties\<close>

text \<open>
  Keyed aggregation. Feeding any sequence of well-typed records to \<open>Aggregate\<close> succeeds, and
  afterwards the store holds, for every key, the fold of the aggregation function over the
  values of that key's records in arrival order, started from the key's earlier accumulator
  or from \<open>initFn()\<close>; the other keys keep their accumulators.
\<close>

theorem aggregate_is_fold:
  assumes "go_type kt" "go_type vt" "total_serde keySerde" "total_serde accSerde"
    and "mem_data_ok name s" "decodable keySerde accSerde (mem_ctx_view name s)"
  shows "\<exists>s'. feed (Aggregate_fn kt vt ct keySerde name initFn aggFn accSerde) (sink_ctx sinks [name])
        (map (typed_record kt vt) kvs) s = (None, s')
    \<and> (\<forall>k. table keySerde accSerde (mem_ctx_view name s') k
        = (case map (fst \<circ> snd) (filter (\<lambda>kv. fst kv = k) kvs) of
             [] \<Rightarrow> table keySerde accSerde (mem_ctx_view name s) k
           | vs \<Rightarrow> Some (fold (aggFn k) vs
               (case table keySerde accSerde (mem_ctx_view name s) k of None \<Rightarrow> initFn () | Some a \<Rightarrow> a))))"
  using table_op.aggregate_feed [OF mem_table_op [OF assms(1-4)] assms(5,6), where sinks1 = sinks and ct = ct and initFn = initFn and aggFn = aggFn and kvs = kvs]
  by (auto simp: agg_step_fold)

text \<open>
  Counting. From a store without entries for its keys, \<open>Count\<close> leaves under every key that
  occurred the number of its records, reduced to the \<open>int64\<close> range, and nothing under others.
\<close>

theorem count_counts_records:
  assumes "go_type kt" "go_type vt" "total_serde keySerde" "total_serde countSerde"
    and "mem_data_ok name s" "mem_ctx_view name s = Map.empty"
  shows "\<exists>s'. feed (Count_fn kt vt ct keySerde name countSerde) (sink_ctx sinks [name])
        (map (typed_record kt vt) kvs) s = (None, s')
    \<and> (\<forall>k. table keySerde countSerde (mem_ctx_view name s') k
        = (let n = length (filter (\<lambda>kv. fst kv = k) kvs)
           in if n = 0 then None else Some (i64 (int n))))"
proof -
  have tbl: "table keySerde countSerde (mem_ctx_view name s) = Map.empty"
    by (rule ext) (simp add: table_def assms(6) split: sum.split)
  have "fold (agg_step count_init count_agg) kvs Map.empty k
      = (let n = length (filter (\<lambda>kv. fst kv = k) kvs) in if n = 0 then None else Some (i64 (int n)))" for k
  proof -
    define ws where "ws = map (fst \<circ> snd) (filter (\<lambda>kv. fst kv = k) kvs)"
    have "length (filter (\<lambda>kv. fst kv = k) kvs) = length ws" by (simp add: ws_def)
    then show ?thesis
      unfolding agg_step_fold ws_def [symmetric] count_fold
      by (cases ws) (simp_all add: count_init_def del: of_nat_Suc)
  qed
  then show ?thesis
    using table_op.aggregate_feed [OF mem_table_op [OF assms(1-4)] assms(5), where sinks1 = sinks and ct = ct and initFn = count_init and aggFn = count_agg and kvs = kvs]
      tbl assms(6) by (auto simp: Count_fn_def decodable_def)
qed

text \<open>
  C32: Joins with a table are lookups. On a well-typed record, \<open>JoinTable\<close> forwards the joined value
  exactly when the table holds an accumulator for the record's key, and \<open>JoinGlobal\<close> exactly
  when it holds one for the derived key; otherwise the record is dropped; the store is only read.
\<close>

theorem table_joins_are_lookups:
  assumes "go_type kt" "go_type vt" "go_type jt" "total_serde keySerde" "total_serde accSerde"
    and "mem_data_ok name s" "decodable keySerde accSerde (mem_ctx_view name s)"
  shows "JoinTable_fn kt vt wt keySerde accSerde name joiner (typed_record kt vt (k, v, ts)) (sink_ctx sinks [name]) s
      = (None, case table keySerde accSerde (mem_ctx_view name s) k of
          None \<Rightarrow> s
        | Some a \<Rightarrow> Forward (sink_ctx sinks [name])
            \<lparr>r_Key = box kt k, r_Value = box wt (joiner v a), r_Timestamp = ts\<rparr> s)
    \<and> JoinGlobal_fn jt vt wt keySerde accSerde name keyMapper joiner (typed_record jt vt (j, v, ts)) (sink_ctx sinks [name]) s
      = (None, case table keySerde accSerde (mem_ctx_view name s) (keyMapper j v) of
          None \<Rightarrow> s
        | Some a \<Rightarrow> Forward (sink_ctx sinks [name])
            \<lparr>r_Key = box jt j, r_Value = box wt (joiner v a), r_Timestamp = ts\<rparr> s)"
  by (intro conjI table_op.join_table_lookup [OF mem_table_op [OF assms(1,2,4,5)] assms(6,7)]
    table_op.join_global_lookup [OF mem_table_op [OF assms(1,2,4,5)] assms(6,7) go_type.assert_box [OF assms(3)]])

section \<open>Witnesses\<close>

text \<open>A total serde for counts: a sign byte and a tally.\<close>

definition tally_serde :: "int Serde" where
  "tally_serde =
     \<lparr>Serialize = (\<lambda>x. Inr ((if x < 0 then 1 else 0) # replicate (nat \<bar>x\<bar>) 1)),
      Deserialize = (\<lambda>b. case b of [] \<Rightarrow> Inl (Err ''short'') | c # r \<Rightarrow>
        Inr (if c = 1 then - int (length r) else int (length r)))\<rparr>"

interpretation tally: total_serde tally_serde
  by unfold_locales (auto simp: tally_serde_def)

definition one_store :: "string \<Rightarrow> (MemBackend, goval) estate" where
  "one_store name =
     \<lparr>es_data = snd (mb_open name True \<lparr>mb_db = OpenMemDB, mb_stores = []\<rparr>),
      es_streamTime = Some 0, es_buffers = [], es_late = [], es_firstErr = None\<rparr>"

lemma one_store_ok: "name \<noteq> [] \<Longrightarrow> mem_ctx_ok name (one_store name)"
  by (simp add: one_store_def mem_ctx_ok_def mb_open_def OpenStore_def OpenMemDB_def mem_ok_def
      kv_ok_def NewKeyValueStore_def name_prefix_def)

lemmas one_store_data_ok = one_store_ok [THEN mem_ctx_data_ok]

lemma one_store_empty: "mem_ctx_view name (one_store n) = Map.empty"
  by (rule ext) (simp add: one_store_def mem_ctx_view_def mem_view_def mb_open_def OpenStore_def OpenMemDB_def)

lemma decodable_empty: "decodable keySerde accSerde Map.empty"
  by (simp add: decodable_def)

theorem aggregate_is_fold_witness:
  "\<exists>s'. feed (Aggregate_fn bytes_type int64_type int64_type bytesserde ''sum'' (\<lambda>_. 0) (\<lambda>_ v a. i64 (a + v)) tally_serde)
      (sink_ctx [''out''] [''sum'']) (map (typed_record bytes_type int64_type) [([1], 4, 10), ([2], 7, 11), ([1], 5, 12)])
      (one_store ''sum'') = (None, s')
    \<and> table bytesserde tally_serde (mem_ctx_view ''sum'' s') [1] = Some 9"
  using aggregate_is_fold [OF bytes_ty.go_type_axioms int64_ty.go_type_axioms bytes_sd.total_serde_axioms
      tally.total_serde_axioms one_store_data_ok [of "''sum''"], of int64_type "\<lambda>_. 0" "\<lambda>_ v a. i64 (a + v)"
      "[''out'']" "[([1], 4, 10), ([2], 7, 11), ([1], 5, 12)]"]
  by (auto simp: one_store_empty decodable_empty table_def bytesserde_def i64_def dest!: spec [of _ "[1]"])

theorem count_counts_records_witness:
  "\<exists>s'. feed (Count_fn bytes_type bytes_type int64_type bytesserde ''c'' tally_serde)
      (sink_ctx [''out''] [''c'']) (map (typed_record bytes_type bytes_type) [([1], [], 10), ([2], [], 11), ([1], [], 12)])
      (one_store ''c'') = (None, s')
    \<and> table bytesserde tally_serde (mem_ctx_view ''c'' s') [1] = Some 2"
  using count_counts_records [OF bytes_ty.go_type_axioms bytes_ty.go_type_axioms bytes_sd.total_serde_axioms
      tally.total_serde_axioms one_store_data_ok [of "''c''"] one_store_empty, of int64_type
      "[''out'']" "[([1], [], 10), ([2], [], 11), ([1], [], 12)]"]
  by (auto simp: i64_def dest!: spec [of _ "[1]"])

theorem table_joins_are_lookups_witness:
  "JoinTable_fn bytes_type bytes_type bytes_type bytesserde tally_serde ''t'' (\<lambda>v a. v)
      (typed_record bytes_type bytes_type ([1], [2], 3)) (sink_ctx [''out''] [''t'']) (one_store ''t'')
    = (None, one_store ''t'')"
  using table_joins_are_lookups [OF bytes_ty.go_type_axioms bytes_ty.go_type_axioms bytes_ty.go_type_axioms
      bytes_sd.total_serde_axioms tally.total_serde_axioms one_store_data_ok [of "''t''"], of bytes_type
      "\<lambda>v a. v" "[1]" "[2]" 3 "[''out'']" "\<lambda>k v. k" "[1]"]
  by (simp add: one_store_empty decodable_empty table_def bytesserde_def)

end
