(* ===== verification/Windows.thy ===== *)
theory Windows
  imports Prelude
begin

text \<open>
  \<open>window.go\<close>: windows, the \<open>WindowDefinition\<close> interface, tumbling and hopping windows, and
  \<open>joinWindowDef\<close> of \<open>ssjoin.go\<close>. Timestamps are Unix milliseconds (\<open>int64\<close>).
\<close>

section \<open>Definitions\<close>

record Window =
  w_Start :: int
  w_End :: int

record 'k Windowed =
  wd_Key :: 'k
  wd_Window :: Window

text \<open>
  The interface: \<open>Assign\<close> may fail to return (a hopping loop whose counter wraps around),
  which is \<open>None\<close>.
\<close>

record WindowDefinition =
  Assign :: "int \<Rightarrow> Window list option"
  MaxSizeMs :: int

text \<open>\<open>time.Duration.Milliseconds\<close>: nanoseconds divided by \<open>1e6\<close>, truncating.\<close>

definition Milliseconds :: "int \<Rightarrow> int" where
  "Milliseconds d = d sdiv 1000000"

definition tumbling_Assign :: "int \<Rightarrow> int \<Rightarrow> Window list" where
  "tumbling_Assign sizeMs ts =
     (let start = i64 ((ts sdiv sizeMs) * sizeMs)
      in [\<lparr>w_Start = start, w_End = i64 (start + sizeMs)\<rparr>])"

definition tumblingWindow :: "int \<Rightarrow> WindowDefinition" where
  "tumblingWindow sizeMs =
     \<lparr>Assign = (\<lambda>ts. Some (tumbling_Assign sizeMs ts)), MaxSizeMs = sizeMs\<rparr>"

definition TumblingWindows :: "int \<Rightarrow> error + WindowDefinition" where
  "TumblingWindows sz =
     (let sizeMs = Milliseconds sz in
      if sizeMs \<le> 0 then Inl (Err ''gstream: TumblingWindows size must be > 0'')
      else Inr (tumblingWindow sizeMs))"

definition floorDiv :: "int \<Rightarrow> int \<Rightarrow> int" where
  "floorDiv a b = (let q = a sdiv b in if a smod b < 0 then q - 1 else q)"

partial_function (option) hopping_loop ::
  "int \<Rightarrow> int \<Rightarrow> int \<Rightarrow> int \<Rightarrow> Window list \<Rightarrow> Window list option" where
  "hopping_loop sizeMs advanceMs latestStart start windows =
     (if start \<le> latestStart
      then hopping_loop sizeMs advanceMs latestStart (i64 (start + advanceMs))
             (windows @ [\<lparr>w_Start = start, w_End = i64 (start + sizeMs)\<rparr>])
      else Some windows)"

definition hopping_Assign :: "int \<Rightarrow> int \<Rightarrow> int \<Rightarrow> Window list option" where
  "hopping_Assign sizeMs advanceMs ts =
     (let latestStart = i64 (floorDiv ts advanceMs * advanceMs);
          earliestStart = i64 (floorDiv (i64 (i64 (ts - sizeMs) + advanceMs)) advanceMs * advanceMs);
          earliestStart = (if earliestStart < 0 then 0 else earliestStart)
      in hopping_loop sizeMs advanceMs latestStart earliestStart [])"

definition hoppingWindow :: "int \<Rightarrow> int \<Rightarrow> WindowDefinition" where
  "hoppingWindow sizeMs advanceMs =
     \<lparr>Assign = hopping_Assign sizeMs advanceMs, MaxSizeMs = sizeMs\<rparr>"

definition HoppingWindows :: "int \<Rightarrow> int \<Rightarrow> error + WindowDefinition" where
  "HoppingWindows sz advance =
     (let sizeMs = Milliseconds sz; advanceMs = Milliseconds advance in
      if advanceMs \<le> 0 then Inl (Err ''gstream: HoppingWindows advance must be > 0'')
      else if advanceMs > sizeMs then Inl (Err ''gstream: HoppingWindows advance must be <= size'')
      else Inr (hoppingWindow sizeMs advanceMs))"

text \<open>\<open>joinWindowDef\<close> (\<open>ssjoin.go\<close>): never assigns windows, only reports its retention span.\<close>

record JoinWindows =
  jw_Before :: int
  jw_After :: int
  jw_Grace :: int

definition newJoinWindowDef :: "JoinWindows \<Rightarrow> WindowDefinition" where
  "newJoinWindowDef w =
     \<lparr>Assign = (\<lambda>_. Some []),
      MaxSizeMs = i64 (Milliseconds (jw_Before w) + Milliseconds (jw_After w))\<rparr>"

section \<open>Division\<close>

lemma sdiv_nonneg: "0 \<le> a \<Longrightarrow> 0 < b \<Longrightarrow> a sdiv b = a div b" for a b :: int
  by (cases "a = 0") (simp_all add: signed_divide_int_def sgn_if)

lemma floorDiv_eq_div:
  assumes "0 < b"
  shows "floorDiv a b = a div b"
proof (cases "0 \<le> a")
  case True
  then have "a smod b = a mod b"
    using assms by (cases "a = 0") (simp_all add: signed_modulo_int_def sgn_if)
  then show ?thesis
    using True assms by (simp add: floorDiv_def Let_def sdiv_nonneg not_less)
next
  case False
  define c where "c = - a"
  have c: "0 < c" "a = - c" using False by (simp_all add: c_def)
  have "a sdiv b = - (c div b)" "a smod b = - (c mod b)"
    using c assms by (simp_all add: signed_divide_int_def signed_modulo_int_def sgn_if)
  moreover have "c mod b = 0 \<or> 0 < c mod b"
    using pos_mod_sign [of b c] assms by linarith
  ultimately show ?thesis
    using assms c(2) zdiv_zminus1_eq_if [of b c] by (auto simp: floorDiv_def Let_def)
qed

lemma floor_multiple_bounds:
  "0 < b \<Longrightarrow> a div b * b \<le> a \<and> a < a div b * b + b" for a b :: int
  using pos_mod_bound [of b a] pos_mod_sign [of b a] div_mult_mod_eq [of a b] by linarith

lemma int_le_div_iff: "0 < b \<Longrightarrow> q \<le> a div b \<longleftrightarrow> q * b \<le> a" for a b q :: int
proof
  assume "0 < b" "q \<le> a div b"
  then have "q * b \<le> a div b * b" by simp
  then show "q * b \<le> a" using floor_multiple_bounds [OF \<open>0 < b\<close>, of a] by linarith
next
  assume "0 < b" "q * b \<le> a"
  then show "q \<le> a div b" using zdiv_mono1 [of "q * b" a b] by simp
qed

section \<open>The hopping loop\<close>

abbreviation win :: "int \<Rightarrow> int \<Rightarrow> Window" where
  "win sizeMs start \<equiv> \<lparr>w_Start = start, w_End = start + sizeMs\<rparr>"

lemma hopping_loop_eq:
  assumes adv: "0 < adv" and sz: "0 < sz"
    and max: "latest + adv \<le> MaxInt64" "latest + sz \<le> MaxInt64"
  shows "0 \<le> start \<Longrightarrow> nat ((latest - start) div adv + 1) = n \<Longrightarrow>
    hopping_loop sz adv latest start acc
      = Some (acc @ map (\<lambda>i. win sz (start + int i * adv)) [0..<n])"
proof (induction n arbitrary: start acc)
  case 0
  then have "(latest - start) div adv < 0" by simp
  then have "latest < start"
    using adv by (simp add: pos_imp_zdiv_neg_iff)
  then show ?case by (simp add: hopping_loop.simps)
next
  case (Suc n)
  then have "0 \<le> (latest - start) div adv" by simp
  then have le: "start \<le> latest"
    using adv by (simp add: pos_imp_zdiv_nonneg_iff)
  have "(latest - (start + adv)) div adv = (latest - start - adv) div adv"
    by (simp add: algebra_simps)
  also have "\<dots> = (latest - start) div adv - 1"
    using div_mult_self1 [of adv "latest - start" "-1"] adv by simp
  finally have n: "nat ((latest - (start + adv)) div adv + 1) = n"
    using Suc.prems(2) by simp
  have "i64 (start + adv) = start + adv" and "i64 (start + sz) = start + sz"
    using le max adv sz Suc.prems(1) by (simp_all add: i64_id is_i64_def MinInt64_def)
  then have "hopping_loop sz adv latest start acc
      = hopping_loop sz adv latest (start + adv) (acc @ [win sz start])"
    using le by (simp add: hopping_loop.simps [of _ _ _ start])
  also have "\<dots> = Some ((acc @ [win sz start])
      @ map (\<lambda>i. win sz (start + adv + int i * adv)) [0..<n])"
    using Suc.IH [OF _ n] Suc.prems(1) adv by simp
  also have "map (\<lambda>i. win sz (start + adv + int i * adv)) [0..<n]
      = map (\<lambda>i. win sz (start + int i * adv)) [1..<Suc n]"
    by (simp add: map_Suc_upt [symmetric] algebra_simps del: upt_Suc)
  finally show ?case
    by (simp add: upt_conv_Cons del: upt_Suc)
qed

text \<open>In the range of timestamps where nothing wraps, the loop enumerates the aligned starts.\<close>

definition hop_starts :: "int \<Rightarrow> int \<Rightarrow> int \<Rightarrow> int list" where
  "hop_starts sz adv ts =
     (let lo = max 0 ((ts - sz + adv) div adv * adv)
      in map (\<lambda>i. lo + int i * adv) [0..<nat ((ts div adv * adv - lo) div adv + 1)])"

lemma hopping_Assign_eq:
  assumes "0 < adv" "adv \<le> sz" "0 \<le> ts" "ts + sz \<le> MaxInt64"
  shows "hopping_Assign sz adv ts = Some (map (win sz) (hop_starts sz adv ts))"
proof -
  have b1: "ts div adv * adv \<le> ts" and b2: "0 \<le> ts div adv * adv"
    using floor_multiple_bounds [of adv ts] assms by (simp_all add: pos_imp_zdiv_nonneg_iff)
  have b3: "(ts - sz + adv) div adv * adv \<le> ts - sz + adv"
    and b4: "ts - sz < (ts - sz + adv) div adv * adv"
    using floor_multiple_bounds [of adv "ts - sz + adv"] assms by simp_all
  have r: "i64 (ts - sz) = ts - sz" "i64 (ts - sz + adv) = ts - sz + adv"
    "i64 (ts div adv * adv) = ts div adv * adv"
    "i64 ((ts - sz + adv) div adv * adv) = (ts - sz + adv) div adv * adv"
    using assms b1 b2 b3 b4 by (simp_all add: i64_id is_i64_def MaxInt64_def MinInt64_def)
  define lo where "lo = max 0 ((ts - sz + adv) div adv * adv)"
  have "hopping_Assign sz adv ts = hopping_loop sz adv (ts div adv * adv) lo []"
    using assms by (simp add: hopping_Assign_def Let_def floorDiv_eq_div r lo_def max_def not_less)
  also have "\<dots> = Some ([] @ map (\<lambda>i. win sz (lo + int i * adv))
      [0..<nat ((ts div adv * adv - lo) div adv + 1)])"
    by (rule hopping_loop_eq) (use assms b1 b2 in \<open>auto simp: lo_def\<close>)
  finally show ?thesis
    by (simp add: hop_starts_def Let_def lo_def comp_def)
qed

lemma hop_starts_set:
  assumes "0 < adv" "adv \<le> sz" "0 \<le> ts"
  shows "s \<in> set (hop_starts sz adv ts) \<longleftrightarrow> adv dvd s \<and> 0 \<le> s \<and> s \<le> ts \<and> ts < s + sz"
proof -
  define lo where "lo = max 0 ((ts - sz + adv) div adv * adv)"
  define hi where "hi = ts div adv * adv"
  have lo_dvd: "adv dvd lo" and hi_dvd: "adv dvd hi"
    by (simp_all add: lo_def hi_def max_def)
  have lo_le: "lo \<le> s \<longleftrightarrow> 0 \<le> s \<and> ts < s + sz" if "adv dvd s" for s
  proof -
    from that have s: "s = s div adv * adv" by simp
    define q where "q = s div adv"
    with s have s: "s = q * adv" by simp
    have "(ts - sz + adv) div adv * adv \<le> s \<longleftrightarrow> (ts - sz + adv) div adv < q + 1"
      using assms(1) unfolding s zless_add1_eq by (simp add: mult_le_cancel_right order_le_less)
    also have "\<dots> \<longleftrightarrow> ts - sz + adv < (q + 1) * adv"
      using int_le_div_iff [OF assms(1), of "q + 1" "ts - sz + adv"] by linarith
    also have "\<dots> \<longleftrightarrow> ts < s + sz"
      using s by (simp add: algebra_simps)
    finally show ?thesis by (auto simp: lo_def)
  qed
  have hi_ge: "s \<le> hi \<longleftrightarrow> s \<le> ts" if "adv dvd s" for s
  proof -
    from that have s: "s = s div adv * adv" by simp
    define q where "q = s div adv"
    with s have s: "s = q * adv" by simp
    have "s \<le> hi \<longleftrightarrow> q \<le> ts div adv" using assms(1) s by (simp add: hi_def)
    also have "\<dots> \<longleftrightarrow> s \<le> ts"
      using assms(1) unfolding s by (rule int_le_div_iff)
    finally show ?thesis .
  qed
  have "s \<in> set (hop_starts sz adv ts)
      \<longleftrightarrow> (\<exists>i. s = lo + int i * adv \<and> i < nat ((hi - lo) div adv + 1))"
    by (auto simp: hop_starts_def Let_def lo_def hi_def)
  also have "\<dots> \<longleftrightarrow> adv dvd s \<and> lo \<le> s \<and> s \<le> hi"
  proof
    assume "\<exists>i. s = lo + int i * adv \<and> i < nat ((hi - lo) div adv + 1)"
    then obtain i where s: "s = lo + int i * adv" and "i < nat ((hi - lo) div adv + 1)" by blast
    then have "int i \<le> (hi - lo) div adv" by linarith
    then have "int i * adv \<le> hi - lo"
      using int_le_div_iff [OF assms(1)] by blast
    then show "adv dvd s \<and> lo \<le> s \<and> s \<le> hi"
      using s lo_dvd assms(1) by simp
  next
    assume *: "adv dvd s \<and> lo \<le> s \<and> s \<le> hi"
    define q where "q = (s - lo) div adv"
    have q: "s - lo = q * adv"
      using * lo_dvd unfolding q_def by (metis dvd_diff dvd_div_mult_self)
    have "0 \<le> q" using * assms(1) by (simp add: q_def pos_imp_zdiv_nonneg_iff)
    moreover have "q * adv \<le> hi - lo" using q * by simp
    then have "q \<le> (hi - lo) div adv"
      using int_le_div_iff [OF assms(1)] by blast
    ultimately show "\<exists>i. s = lo + int i * adv \<and> i < nat ((hi - lo) div adv + 1)"
      using q by (intro exI [of _ "nat q"]) (auto simp: algebra_simps)
  qed
  finally show ?thesis using lo_le hi_ge by blast
qed

lemma hop_starts_sorted: "0 < adv \<Longrightarrow> sorted_wrt (<) (hop_starts sz adv ts)"
  by (simp add: hop_starts_def Let_def sorted_wrt_map del: upt_Suc)

text \<open>
  Outside that range the counter wraps around. It runs through the residues of one class modulo
  \<open>gcd advanceMs (2 ^ 64)\<close>; the largest \<open>int64\<close> of the class is the only bound it cannot pass.
\<close>

definition last_start :: "int \<Rightarrow> int" where
  "last_start adv = 9223372036854775808 - gcd adv 18446744073709551616"

lemma dvd_i64: "g dvd 18446744073709551616 \<Longrightarrow> g dvd i64 x \<longleftrightarrow> g dvd x"
proof -
  assume g: "g dvd 18446744073709551616"
  obtain q where "i64 x = x + q * 18446744073709551616"
  proof
    show "i64 x = x + - ((x + 9223372036854775808) div 18446744073709551616) * 18446744073709551616"
      by (simp add: i64_def minus_div_mult_eq_mod [symmetric])
  qed
  then show ?thesis
    using g by (simp add: dvd_add_left_iff)
qed

lemma i64_cong:
  assumes "18446744073709551616 dvd x - y" and "is_i64 y"
  shows "i64 x = y"
proof -
  have "(x + 9223372036854775808) mod 18446744073709551616
      = (y + 9223372036854775808) mod 18446744073709551616"
    using assms(1) by (simp add: mod_eq_dvd_iff)
  then show ?thesis
    using i64_id [OF assms(2)] by (simp add: i64_def)
qed

lemma gcd_2_64:
  assumes "0 < adv" "adv \<le> MaxInt64"
  shows "gcd adv 18446744073709551616 dvd 9223372036854775808"
proof -
  let ?g = "gcd adv 18446744073709551616"
  obtain h where h: "18446744073709551616 = ?g * h" by (meson dvdE gcd_dvd2)
  have "even h"
  proof (rule ccontr)
    assume "odd h"
    then have "coprime h (2 ^ 64)" by (simp only: coprime_power_right_iff coprime_right_2_iff_odd simp_thms)
    moreover have "h dvd 2 ^ 64" using dvd_triv_right [of h ?g] unfolding h [symmetric] by simp
    ultimately have "h dvd 1" by (meson coprime_common_divisor dvd_refl)
    then consider "h = 1" | "h = -1" by (auto simp: abs_if split: if_splits)
    then have "?g = 18446744073709551616"
    proof cases
      case 2
      then have "?g = -18446744073709551616" using h by simp
      then show ?thesis using gcd_ge_0_int [of adv 18446744073709551616] by simp
    qed (use h in simp)
    moreover have "?g \<le> adv" using assms(1) by simp
    ultimately show False using assms(2) by (simp add: MaxInt64_def)
  qed
  then obtain m where "h = 2 * m" by blast
  then have "9223372036854775808 = ?g * m" using h by (simp add: mult.commute)
  then show ?thesis by (rule dvdI)
qed

lemma last_start_max:
  assumes "0 < adv" "adv \<le> MaxInt64" "gcd adv 18446744073709551616 dvd x" "is_i64 x"
  shows "x \<le> last_start adv"
proof -
  let ?g = "gcd adv 18446744073709551616"
  have "?g dvd 9223372036854775808 - x" using assms gcd_2_64 by simp
  moreover have "0 < 9223372036854775808 - x" using assms(4) by (simp add: is_i64_def MaxInt64_def)
  ultimately show ?thesis
    using zdvd_imp_le by (fastforce simp: last_start_def)
qed

lemma last_start_reached:
  assumes "0 < adv" "adv \<le> MaxInt64" "gcd adv 18446744073709551616 dvd start"
  shows "\<exists>n. i64 (start + int n * adv) = last_start adv"
proof -
  let ?g = "gcd adv 18446744073709551616" and ?M = "18446744073709551616 :: int"
  have "?g dvd last_start adv - start"
    using gcd_2_64 [OF assms(1,2)] assms(3) by (simp add: last_start_def)
  then obtain c where c: "last_start adv - start = ?g * c" by (rule dvdE)
  obtain u v where uv: "u * adv + v * ?M = ?g" using bezout_int by blast
  define n where "n = nat ((u * c) mod ?M)"
  have n: "int n = u * c - (u * c) div ?M * ?M"
    by (simp add: n_def minus_div_mult_eq_mod)
  have "start + int n * adv - last_start adv
      = (u * adv - ?g) * c - (u * c) div ?M * adv * ?M"
    unfolding n using c by (simp add: algebra_simps)
  also have "u * adv - ?g = - v * ?M" using uv by simp
  finally have "?M dvd start + int n * adv - last_start adv"
    by (metis dvd_diff dvd_triv_right dvd_mult2)
  moreover have "is_i64 (last_start adv)"
  proof -
    have "0 < ?g" and "?g \<le> adv" using assms(1) by simp_all
    then show ?thesis
      using assms(2) unfolding last_start_def is_i64_def MaxInt64_def MinInt64_def by linarith
  qed
  ultimately show ?thesis using i64_cong by blast
qed

lemma hopping_loop_exits:
  "latest < i64 (start + int n * adv) \<Longrightarrow> is_i64 start \<Longrightarrow>
    \<exists>r. hopping_loop sz adv latest start acc = Some r"
proof (induction n arbitrary: start acc)
  case 0
  then show ?case by (simp add: i64_id hopping_loop.simps)
next
  case (Suc n)
  have "i64 (i64 (start + adv) + int n * adv) = i64 (start + int (Suc n) * adv)"
    by (simp add: i64_def mod_simps algebra_simps)
  then have "\<exists>r. hopping_loop sz adv latest (i64 (start + adv)) acc' = Some r" for acc'
    using Suc.prems(1) by (intro Suc.IH) (simp_all add: i64_range)
  then show ?case by (simp add: hopping_loop.simps [of _ _ _ start])
qed

lemma hopping_loop_stays:
  assumes "hopping_loop sizeMs advanceMs latestStart start windows = Some r"
  shows "\<not> (0 < advanceMs \<and> advanceMs \<le> MaxInt64 \<and> latestStart = last_start advanceMs
    \<and> is_i64 start \<and> gcd advanceMs 18446744073709551616 dvd start)"
proof (rule hopping_loop.raw_induct [of "\<lambda>_ advanceMs latestStart start _ _.
      \<not> (0 < advanceMs \<and> advanceMs \<le> MaxInt64 \<and> latestStart = last_start advanceMs
        \<and> is_i64 start \<and> gcd advanceMs 18446744073709551616 dvd start)", OF _ assms], intro notI)
  fix loop sizeMs advanceMs latestStart start and windows r :: "Window list"
  assume IH: "\<And>s a l st ws r. loop s a l st ws = Some r \<Longrightarrow>
      \<not> (0 < a \<and> a \<le> MaxInt64 \<and> l = last_start a
        \<and> is_i64 st \<and> gcd a 18446744073709551616 dvd st)"
    and body: "(if start \<le> latestStart then loop sizeMs advanceMs latestStart (i64 (start + advanceMs))
        (windows @ [\<lparr>w_Start = start, w_End = i64 (start + sizeMs)\<rparr>]) else Some windows) = Some r"
    and *: "0 < advanceMs \<and> advanceMs \<le> MaxInt64 \<and> latestStart = last_start advanceMs
        \<and> is_i64 start \<and> gcd advanceMs 18446744073709551616 dvd start"
  then have "loop sizeMs advanceMs latestStart (i64 (start + advanceMs))
      (windows @ [\<lparr>w_Start = start, w_End = i64 (start + sizeMs)\<rparr>]) = Some r"
    using last_start_max by (simp split: if_splits)
  then have "\<not> gcd advanceMs 18446744073709551616 dvd i64 (start + advanceMs)"
    using IH * i64_range by blast
  then show False
    using * by (simp add: dvd_i64)
qed

lemma tumbling_Assign_eq:
  assumes "0 < sz" "0 \<le> ts" "ts + sz \<le> MaxInt64"
  shows "Assign (tumblingWindow sz) ts = Some [win sz (ts div sz * sz)]"
proof -
  have "ts div sz * sz \<le> ts" "0 \<le> ts div sz * sz"
    using floor_multiple_bounds [of sz ts] assms by (simp_all add: pos_imp_zdiv_nonneg_iff)
  then have "i64 (ts div sz * sz) = ts div sz * sz" "i64 (ts div sz * sz + sz) = ts div sz * sz + sz"
    using assms by (simp_all add: i64_id is_i64_def MaxInt64_def MinInt64_def)
  then show ?thesis
    using assms by (simp add: tumblingWindow_def tumbling_Assign_def sdiv_nonneg Let_def)
qed

section \<open>Properties\<close>

text \<open>
  C36: Hopping windows. For a non-negative timestamp far enough from the end of the \<open>int64\<close>
  range, \<open>Assign\<close> returns (its loop ends), and it returns exactly the windows of the configured
  size that start at a non-negative multiple of the advance and contain the timestamp, in
  ascending order and without repetition.
\<close>

theorem hopping_assign_exact:
  assumes "0 < adv" "adv \<le> sz" "0 \<le> ts" "ts + sz \<le> MaxInt64"
  shows "\<exists>ws. Assign (hoppingWindow sz adv) ts = Some ws
    \<and> set ws = {win sz s | s. adv dvd s \<and> 0 \<le> s \<and> s \<le> ts \<and> ts < s + sz}
    \<and> sorted_wrt (<) (map w_Start ws)"
  using hopping_Assign_eq [OF assms] hop_starts_set [OF assms(1-3)] hop_starts_sorted [OF assms(1)]
  by (auto simp: hoppingWindow_def comp_def)

theorem hopping_assign_exact_witness:
  "\<exists>ws. Assign (hoppingWindow 10 5) 12 = Some ws
    \<and> set ws = {win 10 s | s. 5 dvd s \<and> 0 \<le> s \<and> s \<le> 12 \<and> 12 < s + 10}
    \<and> sorted_wrt (<) (map w_Start ws)"
  by (rule hopping_assign_exact) (simp_all add: MaxInt64_def)

text \<open>
  Tumbling windows. For a non-negative timestamp the single assigned window is the aligned
  window of the configured size that contains it, and hopping windows whose advance equals
  their size assign the same.
\<close>

theorem tumbling_assign_partition:
  assumes "0 < sz" "0 \<le> ts" "ts + sz \<le> MaxInt64"
  shows "\<exists>s. Assign (tumblingWindow sz) ts = Some [win sz s]
    \<and> Assign (hoppingWindow sz sz) ts = Some [win sz s]
    \<and> sz dvd s \<and> 0 \<le> s \<and> s \<le> ts \<and> ts < s + sz"
proof -
  let ?s = "ts div sz * sz"
  have b: "?s \<le> ts" "ts < ?s + sz" "0 \<le> ?s"
    using floor_multiple_bounds [of sz ts] assms by (simp_all add: pos_imp_zdiv_nonneg_iff)
  have t: "Assign (tumblingWindow sz) ts = Some [win sz ?s]"
    using assms by (rule tumbling_Assign_eq)
  have "hop_starts sz sz ts = [?s]"
    using b by (simp add: hop_starts_def Let_def)
  then have "Assign (hoppingWindow sz sz) ts = Some [win sz ?s]"
    using hopping_Assign_eq [of sz sz ts] assms by (simp add: hoppingWindow_def)
  with t b show ?thesis by auto
qed

theorem tumbling_assign_partition_witness:
  "\<exists>s. Assign (tumblingWindow 10) 25 = Some [win 10 s]
    \<and> Assign (hoppingWindow 10 10) 25 = Some [win 10 s]
    \<and> 10 dvd s \<and> 0 \<le> s \<and> s \<le> 25 \<and> 25 < s + 10"
  by (rule tumbling_assign_partition) (simp_all add: MaxInt64_def)

text \<open>
  C38: Near the end of the \<open>int64\<close> range the counter of the hopping loop wraps around, and then
  \<open>Assign\<close> may not return. For every size, every positive \<open>int64\<close> advance and every non-negative
  timestamp it fails to return exactly when the latest start, the timestamp rounded down to a
  multiple of the advance, is \<open>2 ^ 63\<close> less the largest power of two that divides the advance.
  For an advance that is itself a power of two this is every timestamp in the last advance of
  the range; for an advance of 3 it never happens at the largest timestamp, since the wrapped
  counter passes the bound.
\<close>

theorem hopping_assign_diverges:
  assumes "0 < adv" "adv \<le> MaxInt64" "0 \<le> ts" "ts \<le> MaxInt64"
  shows "Assign (hoppingWindow sz adv) ts = None
    \<longleftrightarrow> ts div adv * adv = 2 ^ 63 - gcd adv (2 ^ 64)"
proof -
  let ?g = "gcd adv 18446744073709551616" and ?l = "ts div adv * adv"
  define e where "e = i64 ((i64 (i64 (ts - sz) + adv)) div adv * adv)"
  define start where "start = (if e < 0 then 0 else e)"
  have l: "is_i64 ?l" "?g dvd ?l" "i64 ?l = ?l"
    using floor_multiple_bounds [of adv ts] assms
    by (auto simp: is_i64_def MaxInt64_def MinInt64_def pos_imp_zdiv_nonneg_iff intro!: i64_id)
  have start: "is_i64 start" "?g dvd start"
    by (auto simp: start_def e_def i64_range dvd_i64)
      (simp add: is_i64_def MaxInt64_def MinInt64_def)
  have "Assign (hoppingWindow sz adv) ts = hopping_loop sz adv ?l start []"
    using assms l(3)
    by (simp add: hoppingWindow_def hopping_Assign_def Let_def floorDiv_eq_div start_def e_def)
  moreover have "hopping_loop sz adv ?l start [] = None \<longleftrightarrow> ?l = last_start adv"
  proof
    assume "?l = last_start adv"
    then show "hopping_loop sz adv ?l start [] = None"
      using hopping_loop_stays [of sz adv ?l start "[]"] start assms by (metis not_None_eq)
  next
    assume none: "hopping_loop sz adv ?l start [] = None"
    show "?l = last_start adv"
    proof (rule ccontr)
      assume "?l \<noteq> last_start adv"
      then have "?l < last_start adv"
        using last_start_max [OF assms(1,2) l(2,1)] by simp
      then obtain n where "?l < i64 (start + int n * adv)"
        using last_start_reached [OF assms(1,2) start(2)] by metis
      then show False
        using hopping_loop_exits [OF _ start(1), of ?l n adv sz "[]"] none by simp
    qed
  qed
  ultimately show ?thesis by (simp add: last_start_def)
qed

theorem hopping_assign_diverges_witness:
  "Assign (hoppingWindow 60000 1) MaxInt64 = None
    \<and> Assign (hoppingWindow 60000 4096) (MaxInt64 - 4000) = None
    \<and> Assign (hoppingWindow 60000 3) MaxInt64 \<noteq> None"
  using hopping_assign_diverges [of 1 MaxInt64 60000]
    hopping_assign_diverges [of 4096 "MaxInt64 - 4000" 60000]
    hopping_assign_diverges [of 3 MaxInt64 60000] gcd_dvd1 [of "3 :: int" "2 ^ 64"]
  by (auto simp: MaxInt64_def simp del: gcd_dvd1)

end
