(* ===== verification/Windowed.thy ===== *)
theory Windowed
  imports Grouped Windows
begin

text \<open>
  \<open>windowed.go\<close>: the aggregation over time windows. A record advances the stream-time, is
  dropped when it is too late, and otherwise is folded into the accumulator of every window
  its timestamp is assigned to.
\<close>

section \<open>Definitions\<close>

text \<open>The loop body for one window, and the handler.\<close>

definition window_update :: "'s Store \<Rightarrow> bytes \<Rightarrow> 'k \<Rightarrow> 'v \<Rightarrow> (unit \<Rightarrow> 'c) \<Rightarrow> ('k \<Rightarrow> 'v \<Rightarrow> 'c \<Rightarrow> 'c) \<Rightarrow> 'c Serde
    \<Rightarrow> Window \<Rightarrow> ('s, unit) act" where
  "window_update store kBytes k v initFn aggFn accSerde w =
     bindE (wrapE ''windowed aggregate: store WindowGet'' (readE (WindowGet store kBytes (w_Start w)))) (\<lambda>found.
     bindE (case found of
              Some valBytes \<Rightarrow> wrapE ''windowed aggregate: decode accumulator'' (pureE (Deserialize accSerde valBytes))
            | None \<Rightarrow> retE (initFn ())) (\<lambda>cur.
     let nxt = aggFn k v cur in
     bindE (wrapE ''windowed aggregate: encode accumulator'' (pureE (Serialize accSerde nxt))) (\<lambda>nextBytes.
     wrapE ''windowed aggregate: store WindowPut'' (doE (WindowPut store kBytes (w_Start w) nextBytes)))))"

definition WindowedAggregate_fn :: "('a, 'k) gotype \<Rightarrow> ('a, 'v) gotype \<Rightarrow> 'k Serde \<Rightarrow> WindowDefinition \<Rightarrow> int
    \<Rightarrow> ('a Record \<Rightarrow> int) option \<Rightarrow> ('s \<Rightarrow> 's) \<Rightarrow> string \<Rightarrow> (unit \<Rightarrow> 'c) \<Rightarrow> ('k \<Rightarrow> 'v \<Rightarrow> 'c \<Rightarrow> 'c) \<Rightarrow> 'c Serde
    \<Rightarrow> ('s, 'a) StatefulProcessFunc" where
  "WindowedAggregate_fn kt vt keySerde windows graceMs extractorFn addLate storeName initFn aggFn accSerde r pc s0 =
     (let ts = (case extractorFn of Some f \<Rightarrow> f r | None \<Rightarrow> r_Timestamp r);
          s = AdvanceStreamTime pc ts s0;
          lateBoundary = i64 (i64 (StreamTime pc s - MaxSizeMs windows) - graceMs)
      in if ts < lateBoundary then (None, addLate s)
         else errOf
           (bindE (assertE ''windowed aggregate: key type mismatch'' (type_assert kt (r_Key r))) (\<lambda>k.
            bindE (assertE ''windowed aggregate: value type mismatch'' (type_assert vt (r_Value r))) (\<lambda>v.
            bindE (wiredE ''windowed aggregate: store not wired'' ''windowed aggregate: store type mismatch''
                     (CtxStore pc storeName)) (\<lambda>store.
            bindE (wrapE ''windowed aggregate: encode key'' (pureE (Serialize keySerde k))) (\<lambda>kBytes.
            case Assign windows ts of
              None \<Rightarrow> failE Diverges
            | Some ws \<Rightarrow> forE ws (window_update store kBytes k v initFn aggFn accSerde)))))) s)"

definition WindowedCount_fn :: "('a, 'k) gotype \<Rightarrow> ('a, 'v) gotype \<Rightarrow> 'k Serde \<Rightarrow> WindowDefinition \<Rightarrow> int
    \<Rightarrow> ('a Record \<Rightarrow> int) option \<Rightarrow> ('s \<Rightarrow> 's) \<Rightarrow> string \<Rightarrow> int Serde \<Rightarrow> ('s, 'a) StatefulProcessFunc" where
  "WindowedCount_fn kt vt keySerde windows graceMs extractorFn addLate storeName countSerde =
     WindowedAggregate_fn kt vt keySerde windows graceMs extractorFn addLate storeName
       count_init count_agg countSerde"

section \<open>The table of a window store\<close>

definition wtable :: "'k Serde \<Rightarrow> 'c Serde \<Rightarrow> (bytes \<rightharpoonup> bytes) \<Rightarrow> 'k \<times> int \<Rightarrow> 'c option" where
  "wtable keySerde accSerde m = (\<lambda>(k, start).
     case Serialize keySerde k of
       Inl _ \<Rightarrow> None
     | Inr b \<Rightarrow> if key_fits b \<and> is_i64 start then
         (case m (CompositeKey b start) of
            None \<Rightarrow> None
          | Some c \<Rightarrow> (case Deserialize accSerde c of Inl _ \<Rightarrow> None | Inr a \<Rightarrow> Some a))
       else None)"

definition wdecodable :: "'c Serde \<Rightarrow> (bytes \<rightharpoonup> bytes) \<Rightarrow> bool" where
  "wdecodable accSerde m \<longleftrightarrow> (\<forall>c v. m c = Some v \<longrightarrow> (\<exists>a. Deserialize accSerde v = Inr a))"

text \<open>
  The specification. \<open>accepted\<close> keeps the records that are not late, given the stream-time so
  far and the allowed lateness; \<open>assigned\<close> lists the updates an accepted record causes.
\<close>

fun accepted :: "int \<Rightarrow> int \<Rightarrow> ('k \<times> 'v \<times> int) list \<Rightarrow> ('k \<times> 'v \<times> int) list" where
  "accepted lateness T [] = []"
| "accepted lateness T ((k, v, ts) # rs) =
     (if ts < max T ts - lateness then accepted lateness (max T ts) rs
      else (k, v, ts) # accepted lateness (max T ts) rs)"

definition assigned :: "(int \<Rightarrow> int list) \<Rightarrow> 'k \<times> 'v \<times> int \<Rightarrow> (('k \<times> int) \<times> 'v \<times> int) list" where
  "assigned starts = (\<lambda>(k, v, ts). map (\<lambda>start. ((k, start), v, ts)) (starts ts))"

definition wagg :: "('k \<Rightarrow> 'v \<Rightarrow> 'c \<Rightarrow> 'c) \<Rightarrow> 'k \<times> int \<Rightarrow> 'v \<Rightarrow> 'c \<Rightarrow> 'c" where
  "wagg aggFn = (\<lambda>(k, start). aggFn k)"

text \<open>
  A record is admissible when its key fits the key format, its timestamp is a non-negative
  \<open>int64\<close> and the window definition assigns it windows with the given starts.
\<close>

definition admissible :: "'k Serde \<Rightarrow> WindowDefinition \<Rightarrow> (int \<Rightarrow> int list) \<Rightarrow> 'k \<times> 'v \<times> int \<Rightarrow> bool" where
  "admissible keySerde windows starts = (\<lambda>(k, v, ts).
     (case Serialize keySerde k of Inr b \<Rightarrow> key_fits b | Inl _ \<Rightarrow> False) \<and> is_i64 ts \<and> 0 \<le> ts
     \<and> map_option (map w_Start) (Assign windows ts) = Some (starts ts) \<and> list_all is_i64 (starts ts))"

lemma i64_add_diff: "i64 (y + i64 (1 + x) - z) = i64 (1 + (x + y) - z)"
  using i64_add [of "1 + x" "y - z"] by (simp add: algebra_simps)

lemma filter_one: "distinct xs \<Longrightarrow> filter (\<lambda>y. y = x) xs = (if x \<in> set xs then [x] else [])"
  by (induction xs) (auto simp: filter_empty_conv)

lemma assigned_values:
  assumes "\<forall>kv \<in> set rs. distinct (starts (snd (snd kv)))"
  shows "map (fst \<circ> snd) (filter (\<lambda>kv. fst kv = (k, start)) (concat (map (assigned starts) rs)))
    = map (fst \<circ> snd) (filter (\<lambda>(k', v, ts). k' = k \<and> start \<in> set (starts ts)) rs)"
  using assms
proof (induction rs)
  case Nil
  then show ?case by simp
next
  case (Cons kv rs)
  obtain k' v ts where kv: "kv = (k', v, ts)" by (cases kv)
  have "filter (\<lambda>st. st = start) (starts ts) = (if start \<in> set (starts ts) then [start] else [])"
    using Cons.prems kv by (simp add: filter_one)
  then show ?case
    using Cons kv by (auto simp: assigned_def filter_map comp_def filter_empty_conv)
qed

locale window_op = late_ctx st view ok pc name addLate lateCount
    + kt: go_type kt + vt: go_type vt + ks: total_serde keySerde + cs: total_serde accSerde
  for st :: "'s Store" and view ok and pc :: "('s, 'a) ProcessorContext" and name addLate lateCount
    and kt :: "('a, 'k) gotype" and vt :: "('a, 'v) gotype"
    and keySerde :: "'k Serde" and accSerde :: "'c Serde"
begin

lemma wtable_upd:
  assumes "key_fits (ks.enc k)" "is_i64 start"
  shows "wtable keySerde accSerde (m(CompositeKey (ks.enc k) start \<mapsto> cs.enc a))
    = (wtable keySerde accSerde m)((k, start) \<mapsto> a)"
proof (rule ext)
  fix x :: "'k \<times> int"
  obtain k' t' where x: "x = (k', t')" by fastforce
  have "CompositeKey (ks.enc k') t' = CompositeKey (ks.enc k) start \<longleftrightarrow> k' = k \<and> t' = start"
    if "key_fits (ks.enc k')" "is_i64 t'"
    using CompositeKey_inject that assms by simp
  then show "wtable keySerde accSerde (m(CompositeKey (ks.enc k) start \<mapsto> cs.enc a)) x
      = ((wtable keySerde accSerde m)((k, start) \<mapsto> a)) x"
    using assms by (auto simp: x wtable_def)
qed

lemma wdecodable_upd: "wdecodable accSerde m \<Longrightarrow> wdecodable accSerde (m(c \<mapsto> cs.enc a))"
  by (auto simp: wdecodable_def)

lemma window_update_step:
  assumes ok: "ok s" and dec: "wdecodable accSerde (view s)"
    and fits: "key_fits (ks.enc k)" "is_i64 (w_Start w)"
  shows "\<exists>s'. window_update st (ks.enc k) k v initFn aggFn accSerde w s = (Inr (), s')
    \<and> ok s' \<and> wdecodable accSerde (view s') \<and> StreamTime pc s' = StreamTime pc s \<and> lateCount s' = lateCount s
    \<and> wtable keySerde accSerde (view s')
      = agg_step initFn (wagg aggFn) ((k, w_Start w), v, ts) (wtable keySerde accSerde (view s))"
proof -
  let ?start = "w_Start w"
  define cur where "cur = (case wtable keySerde accSerde (view s) (k, ?start) of None \<Rightarrow> initFn () | Some a \<Rightarrow> a)"
  obtain e s1 where put: "WindowPut st (ks.enc k) ?start (cs.enc (aggFn k v cur)) s = (e, s1)" by fastforce
  have s1: "e = None" "ok s1" "view s1 = (view s)(CompositeKey (ks.enc k) ?start \<mapsto> cs.enc (aggFn k v cur))"
    using window_put_law [OF ok put] by auto
  have frame: "StreamTime pc s1 = StreamTime pc s" "lateCount s1 = lateCount s"
    using window_put_time [of "ks.enc k" ?start _ s] window_put_late [of "ks.enc k" ?start _ s] put
    by (metis snd_conv)+
  have run: "window_update st (ks.enc k) k v initFn aggFn accSerde w s = (Inr (), s1)"
  proof (cases "view s (CompositeKey (ks.enc k) ?start)")
    case None
    then have "cur = initFn ()" using fits by (simp add: cur_def wtable_def)
    then show ?thesis
      using None put s1(1) by (simp add: window_update_def act_simps window_get_law [OF ok] Let_def)
  next
    case (Some c)
    then obtain a where a: "Deserialize accSerde c = Inr a" using dec by (auto simp: wdecodable_def)
    then have "cur = a" using Some fits by (simp add: cur_def wtable_def)
    then show ?thesis
      using Some a put s1(1) by (simp add: window_update_def act_simps window_get_law [OF ok] Let_def)
  qed
  have "wtable keySerde accSerde (view s1)
      = agg_step initFn (wagg aggFn) ((k, ?start), v, ts) (wtable keySerde accSerde (view s))"
    by (simp add: s1(3) wtable_upd [OF fits] agg_step_def wagg_def cur_def)
  then show ?thesis
    using run frame s1 wdecodable_upd [OF dec] by simp
qed

lemma window_updates:
  assumes "ok s" "wdecodable accSerde (view s)" "key_fits (ks.enc k)" "\<forall>w \<in> set ws. is_i64 (w_Start w)"
  shows "\<exists>s'. forE ws (window_update st (ks.enc k) k v initFn aggFn accSerde) s = (Inr (), s')
    \<and> ok s' \<and> wdecodable accSerde (view s') \<and> StreamTime pc s' = StreamTime pc s \<and> lateCount s' = lateCount s
    \<and> wtable keySerde accSerde (view s')
      = fold (agg_step initFn (wagg aggFn)) (map (\<lambda>start. ((k, start), v, ts)) (map w_Start ws))
          (wtable keySerde accSerde (view s))"
  using assms
proof (induction ws arbitrary: s)
  case Nil
  then show ?case by (simp add: retE_def)
next
  case (Cons w ws)
  have w: "is_i64 (w_Start w)" "\<forall>w \<in> set ws. is_i64 (w_Start w)" using Cons.prems(4) by simp_all
  obtain s1 where s1: "window_update st (ks.enc k) k v initFn aggFn accSerde w s = (Inr (), s1)"
    "ok s1" "wdecodable accSerde (view s1)" "StreamTime pc s1 = StreamTime pc s" "lateCount s1 = lateCount s"
    "wtable keySerde accSerde (view s1)
      = agg_step initFn (wagg aggFn) ((k, w_Start w), v, ts) (wtable keySerde accSerde (view s))"
    using window_update_step [OF Cons.prems(1-3) w(1)] by metis
  show ?case
    using Cons.IH [OF s1(2,3) Cons.prems(3) w(2)] s1 by (simp add: bindE_def)
qed

lemma window_record:
  assumes ok: "ok s" and dec: "wdecodable accSerde (view s)"
    and asg: "Assign windows ts = Some ws" "\<forall>w \<in> set ws. is_i64 (w_Start w)" and fits: "key_fits (ks.enc k)"
    and bnd: "is_i64 (max (StreamTime pc s) ts - MaxSizeMs windows)"
      "is_i64 (max (StreamTime pc s) ts - MaxSizeMs windows - graceMs)"
  shows "\<exists>s'. WindowedAggregate_fn kt vt keySerde windows graceMs None addLate name initFn aggFn accSerde
        (typed_record kt vt (k, v, ts)) pc s = (None, s')
    \<and> ok s' \<and> wdecodable accSerde (view s') \<and> StreamTime pc s' = max (StreamTime pc s) ts
    \<and> (if ts < max (StreamTime pc s) ts - (MaxSizeMs windows + graceMs)
        then wtable keySerde accSerde (view s') = wtable keySerde accSerde (view s)
          \<and> lateCount s' = i64 (lateCount s + 1)
        else wtable keySerde accSerde (view s')
            = fold (agg_step initFn (wagg aggFn)) (map (\<lambda>start. ((k, start), v, ts)) (map w_Start ws))
                (wtable keySerde accSerde (view s))
          \<and> lateCount s' = lateCount s)"
proof -
  let ?s = "AdvanceStreamTime pc ts s"
  have adv: "ok ?s" "view ?s = view s" "StreamTime pc ?s = max (StreamTime pc s) ts" "lateCount ?s = lateCount s"
    using advance_law [OF ok, of ts] advance_late [of ts s] by simp_all
  have late: "ts < i64 (i64 (StreamTime pc ?s - MaxSizeMs windows) - graceMs)
      \<longleftrightarrow> ts < max (StreamTime pc s) ts - (MaxSizeMs windows + graceMs)"
    using bnd by (simp add: adv(3) i64_id algebra_simps)
  show ?thesis
  proof (cases "ts < max (StreamTime pc s) ts - (MaxSizeMs windows + graceMs)")
    case True
    then show ?thesis
      using late adv dec add_late_law [OF adv(1)]
      by (simp add: WindowedAggregate_fn_def typed_record_def Let_def)
  next
    case False
    then show ?thesis
      using late adv dec asg(1) window_updates [OF adv(1) _ fits asg(2), of v initFn aggFn ts]
      by (auto simp: WindowedAggregate_fn_def typed_record_def Let_def act_simps)
  qed
qed

lemma window_feed:
  assumes "ok s" "wdecodable accSerde (view s)" "0 \<le> StreamTime pc s" "is_i64 (StreamTime pc s)"
    and "\<forall>kv \<in> set kvs. admissible keySerde windows starts kv"
    and size: "0 \<le> MaxSizeMs windows" "0 \<le> graceMs" "MaxSizeMs windows + graceMs \<le> MaxInt64"
  shows "\<exists>s'. feed (WindowedAggregate_fn kt vt keySerde windows graceMs None addLate name initFn aggFn accSerde) pc
        (map (typed_record kt vt) kvs) s = (None, s')
    \<and> ok s' \<and> wdecodable accSerde (view s')
    \<and> wtable keySerde accSerde (view s')
      = fold (agg_step initFn (wagg aggFn))
          (concat (map (assigned starts) (accepted (MaxSizeMs windows + graceMs) (StreamTime pc s) kvs)))
          (wtable keySerde accSerde (view s))
    \<and> i64 (lateCount s') = i64 (lateCount s + int (length kvs)
        - int (length (accepted (MaxSizeMs windows + graceMs) (StreamTime pc s) kvs)))"
  using assms
proof (induction kvs arbitrary: s)
  case Nil
  then show ?case by simp
next
  case (Cons kv kvs)
  obtain k v ts where kv: "kv = (k, v, ts)" by (cases kv)
  have adm: "admissible keySerde windows starts (k, v, ts)" using Cons.prems(5) kv by simp
  then obtain ws where ws: "Assign windows ts = Some ws" "map w_Start ws = starts ts"
    by (auto simp: admissible_def)
  have i64s: "\<forall>w \<in> set ws. is_i64 (w_Start w)"
    using adm by (simp add: admissible_def list_all_iff flip: ws(2))
  have k: "key_fits (ks.enc k)" "0 \<le> ts" "is_i64 ts"
    using adm by (simp_all add: admissible_def)
  have T: "0 \<le> max (StreamTime pc s) ts" "is_i64 (max (StreamTime pc s) ts)"
    using Cons.prems(3,4) k by (auto simp: max_def)
  have bnd: "is_i64 (max (StreamTime pc s) ts - MaxSizeMs windows)"
    "is_i64 (max (StreamTime pc s) ts - MaxSizeMs windows - graceMs)"
    using T size by (auto simp: is_i64_def MaxInt64_def MinInt64_def)
  obtain s1 where s1: "WindowedAggregate_fn kt vt keySerde windows graceMs None addLate name initFn aggFn accSerde
        (typed_record kt vt (k, v, ts)) pc s = (None, s1)" "ok s1" "wdecodable accSerde (view s1)"
      "StreamTime pc s1 = max (StreamTime pc s) ts"
      "wtable keySerde accSerde (view s1) =
        (if ts < max (StreamTime pc s) ts - (MaxSizeMs windows + graceMs) then wtable keySerde accSerde (view s)
         else fold (agg_step initFn (wagg aggFn)) (assigned starts (k, v, ts)) (wtable keySerde accSerde (view s)))"
      "lateCount s1 = (if ts < max (StreamTime pc s) ts - (MaxSizeMs windows + graceMs)
         then i64 (lateCount s + 1) else lateCount s)"
    using window_record [OF Cons.prems(1,2) ws(1) i64s k(1) bnd, of initFn aggFn v] ws(2)
    by (auto simp: assigned_def split: if_splits)
  have "\<forall>kv \<in> set kvs. admissible keySerde windows starts kv" using Cons.prems(5) by simp
  then show ?case
    using Cons.IH [OF s1(2,3) _ _ _ size] s1 T kv
    by (auto simp: fold_append i64_add_diff algebra_simps)
qed

end

text \<open>The operator over in-memory stores, for byte-string keys and accumulators.\<close>

interpretation mem_window: window_op "lift_store (mem_store name)" "mem_ctx_view name" "mem_ctx_ok name"
    "sink_ctx sinks [name]" name "add_late c" "late_count c" bytes_type bytes_type bytesserde bytesserde for name sinks c
  by unfold_locales

lemma mem_window_op:
  assumes "go_type kt" "go_type vt" "total_serde keySerde" "total_serde accSerde"
  shows "window_op (lift_store (mem_store name)) (mem_ctx_view name) (mem_ctx_ok name)
    (sink_ctx sinks [name]) name (add_late c) (late_count c) kt vt keySerde accSerde"
  using assms mem_late.late_ctx_axioms by (simp add: window_op_def)

section \<open>Properties\<close>

text \<open>
  C7: Windowed aggregation. Feeding any sequence of admissible records succeeds; afterwards the
  accumulator of every pair of key and window start is the fold of the aggregation function
  over the accepted records of that key that were assigned a window with that start, in
  arrival order. A record is accepted unless its timestamp lies more than size plus grace
  behind the highest timestamp so far, and every record that is not accepted is counted as late.
\<close>

theorem windowed_aggregate_is_fold:
  assumes "go_type kt" "go_type vt" "total_serde keySerde" "total_serde accSerde"
    and "mem_ctx_ok name s" "wdecodable accSerde (mem_ctx_view name s)"
    and "es_streamTime s = Some T" "0 \<le> T" "is_i64 T"
    and "\<forall>kv \<in> set kvs. admissible keySerde windows starts kv \<and> distinct (starts (snd (snd kv)))"
    and "0 \<le> MaxSizeMs windows" "0 \<le> graceMs" "MaxSizeMs windows + graceMs \<le> MaxInt64"
  shows "\<exists>s'. feed (WindowedAggregate_fn kt vt keySerde windows graceMs None (add_late c) name initFn aggFn accSerde)
        (sink_ctx sinks [name]) (map (typed_record kt vt) kvs) s = (None, s')
    \<and> (\<forall>k start. wtable keySerde accSerde (mem_ctx_view name s') (k, start)
        = (case map (fst \<circ> snd) (filter (\<lambda>(k', v, ts). k' = k \<and> start \<in> set (starts ts))
                  (accepted (MaxSizeMs windows + graceMs) T kvs)) of
             [] \<Rightarrow> wtable keySerde accSerde (mem_ctx_view name s) (k, start)
           | vs \<Rightarrow> Some (fold (aggFn k) vs
               (case wtable keySerde accSerde (mem_ctx_view name s) (k, start) of None \<Rightarrow> initFn () | Some a \<Rightarrow> a))))
    \<and> i64 (late_count c s') = i64 (late_count c s + int (length kvs)
        - int (length (accepted (MaxSizeMs windows + graceMs) T kvs)))"
proof -
  have T: "StreamTime (sink_ctx sinks [name]) s = T"
    using assms(7) by (simp add: sink_ctx_def processorCtxImpl_def ctx_StreamTime_def)
  have sub: "set (accepted l T' rs) \<subseteq> set rs" for l T' and rs :: "('b \<times> 'c \<times> int) list"
    by (induction l T' rs rule: accepted.induct) auto
  have dist: "\<forall>kv \<in> set (accepted (MaxSizeMs windows + graceMs) T kvs). distinct (starts (snd (snd kv)))"
    using assms(10) sub by blast
  have op: "window_op (lift_store (mem_store name)) (mem_ctx_view name) (mem_ctx_ok name)
      (sink_ctx sinks [name]) name (add_late c) (late_count c) kt vt keySerde accSerde"
    by (rule mem_window_op [OF assms(1-4)])
  show ?thesis
    using window_op.window_feed [OF op assms(5,6), of kvs windows starts graceMs initFn aggFn]
      assms(8-13) T assigned_values [OF dist]
    by (auto simp: agg_step_fold wagg_def)
qed

lemma in_tumbling_window:
  fixes ts start sz :: int
  assumes "0 < sz" "sz dvd start"
  shows "start = ts div sz * sz \<longleftrightarrow> start \<le> ts \<and> ts < start + sz"
proof
  assume "start = ts div sz * sz"
  then show "start \<le> ts \<and> ts < start + sz" using floor_multiple_bounds [OF assms(1), of ts] by simp
next
  assume *: "start \<le> ts \<and> ts < start + sz"
  obtain q where q: "start = q * sz" using assms(2) by (metis dvd_div_mult_self)
  then have "q \<le> ts div sz" using int_le_div_iff [OF assms(1), of q ts] * by simp
  moreover have "\<not> q + 1 \<le> ts div sz"
    using int_le_div_iff [OF assms(1), of "q + 1" ts] * q by (simp add: algebra_simps)
  ultimately show "start = ts div sz * sz" using q by simp
qed

text \<open>
  Tumbling counts. From an empty store, a tumbling-window \<open>Count\<close> leaves, for every key and
  every aligned window, the number of accepted records of that key whose timestamps lie in the
  window, and no entry where there was none.
\<close>

theorem tumbling_count_exact:
  assumes "go_type kt" "go_type vt" "total_serde keySerde" "total_serde countSerde"
    and "mem_ctx_ok name s" "mem_ctx_view name s = Map.empty"
    and "es_streamTime s = Some T" "0 \<le> T" "is_i64 T"
    and size: "0 < sz" "0 \<le> graceMs" "sz + graceMs \<le> MaxInt64"
    and recs: "\<forall>(k, v, ts) \<in> set kvs. 0 \<le> ts \<and> ts + sz \<le> MaxInt64
      \<and> (case Serialize keySerde k of Inr b \<Rightarrow> key_fits b | Inl _ \<Rightarrow> False)"
  shows "\<exists>s'. feed (WindowedCount_fn kt vt keySerde (tumblingWindow sz) graceMs None (add_late c) name countSerde)
        (sink_ctx sinks [name]) (map (typed_record kt vt) kvs) s = (None, s')
    \<and> (\<forall>k start. sz dvd start \<longrightarrow> wtable keySerde countSerde (mem_ctx_view name s') (k, start)
        = (let n = length (filter (\<lambda>(k', v, ts). k' = k \<and> start \<le> ts \<and> ts < start + sz)
                     (accepted (sz + graceMs) T kvs))
           in if n = 0 then None else Some (i64 (int n))))"
proof -
  let ?starts = "\<lambda>ts. [ts div sz * sz]"
  have M: "MaxSizeMs (tumblingWindow sz) = sz" by (simp add: tumblingWindow_def)
  have adm: "admissible keySerde (tumblingWindow sz) ?starts kv" if "kv \<in> set kvs" for kv
  proof -
    obtain k v ts where kv: "kv = (k, v, ts)" by (cases kv)
    have ts: "0 \<le> ts" "ts + sz \<le> MaxInt64" "case Serialize keySerde k of Inr b \<Rightarrow> key_fits b | Inl _ \<Rightarrow> False"
      using recs that kv by auto
    have "is_i64 (ts div sz * sz)" "is_i64 ts"
      using floor_multiple_bounds [OF size(1), of ts] ts size
      by (auto simp: is_i64_def MaxInt64_def MinInt64_def pos_imp_zdiv_nonneg_iff intro: order_trans [of _ 0])
    then show ?thesis
      using ts kv by (simp add: admissible_def tumbling_Assign_eq [OF size(1)])
  qed
  have empty: "wtable keySerde countSerde Map.empty = Map.empty"
    by (rule ext) (simp add: wtable_def split: sum.split prod.split)
  have op: "window_op (lift_store (mem_store name)) (mem_ctx_view name) (mem_ctx_ok name)
      (sink_ctx sinks [name]) name (add_late c) (late_count c) kt vt keySerde countSerde"
    by (rule mem_window_op [OF assms(1-4)])
  have T: "StreamTime (sink_ctx sinks [name]) s = T"
    using assms(7) by (simp add: sink_ctx_def processorCtxImpl_def ctx_StreamTime_def)
  have fold: "fold (agg_step count_init (wagg count_agg)) (concat (map (assigned ?starts) rs)) Map.empty (k, start)
      = (let n = length (filter (\<lambda>(k', v, ts). k' = k \<and> start \<le> ts \<and> ts < start + sz) rs)
         in if n = 0 then None else Some (i64 (int n)))"
    if "sz dvd start" for k start and rs :: "('b \<times> 'c \<times> int) list"
  proof -
    define vs where "vs = map (fst \<circ> snd) (filter (\<lambda>(k', v, ts). k' = k \<and> start \<in> set (?starts ts)) rs)"
    have len: "length (filter (\<lambda>(k', v, ts). k' = k \<and> start \<le> ts \<and> ts < start + sz) rs) = length vs"
      using in_tumbling_window [OF size(1) that] by (simp add: vs_def)
    have "map (fst \<circ> snd) (filter (\<lambda>kv. fst kv = (k, start)) (concat (map (assigned ?starts) rs))) = vs"
      unfolding vs_def by (rule assigned_values) simp
    then show ?thesis
      unfolding agg_step_fold len
      using count_fold [of k vs 0] by (cases vs) (simp_all add: wagg_def count_init_def)
  qed
  show ?thesis
    using window_op.window_feed [OF op assms(5), of kvs "tumblingWindow sz" ?starts graceMs count_init count_agg]
      adm size assms(8,9) T fold
    by (auto simp: WindowedCount_fn_def wdecodable_def M assms(6) empty)
qed

section \<open>Witnesses\<close>

lemma bytes_key_small: "length k < 4294967295 \<Longrightarrow> case Serialize bytesserde k of Inr b \<Rightarrow> key_fits b | Inl _ \<Rightarrow> False"
  by (simp add: bytesserde_def key_fits_def)

theorem windowed_aggregate_is_fold_witness:
  "\<exists>s'. feed (WindowedAggregate_fn bytes_type int64_type bytesserde (tumblingWindow 10) 0 None (add_late ''c'') ''w''
        (\<lambda>_. 0) (\<lambda>_ v a. i64 (a + v)) tally_serde) (sink_ctx [''out''] [''w''])
        (map (typed_record bytes_type int64_type) [([1], 4, 12), ([1], 5, 40), ([1], 6, 13), ([1], 7, 41)])
        (one_store ''w'') = (None, s')
    \<and> wtable bytesserde tally_serde (mem_ctx_view ''w'' s') ([1], 40) = Some 12"
proof -
  let ?kvs = "[([1], 4, 12), ([1], 5, 40), ([1], 6, 13), ([1], 7, 41)] :: (bytes \<times> int \<times> int) list"
  have adm: "\<forall>kv \<in> set ?kvs. admissible bytesserde (tumblingWindow 10) (\<lambda>ts. [ts div 10 * 10]) kv \<and> distinct [snd (snd kv) div 10 * 10]"
    by (simp add: admissible_def bytesserde_def key_fits_def tumbling_Assign_eq MaxInt64_def is_i64_def MinInt64_def)
  have st: "es_streamTime (one_store ''w'') = Some 0" by (simp add: one_store_def)
  have dec: "wdecodable tally_serde (mem_ctx_view ''w'' (one_store ''w''))"
    by (simp add: one_store_empty wdecodable_def)
  have acc: "accepted (MaxSizeMs (tumblingWindow 10) + 0) 0 ?kvs = [([1], 4, 12), ([1], 5, 40), ([1], 7, 41)]"
    by (simp add: tumblingWindow_def)
  have side: "0 \<le> (0 :: int)" "is_i64 0" "0 \<le> MaxSizeMs (tumblingWindow 10)" "MaxSizeMs (tumblingWindow 10) + 0 \<le> MaxInt64"
    by (simp_all add: is_i64_def MinInt64_def MaxInt64_def tumblingWindow_def)
  have none: "wtable bytesserde tally_serde (mem_ctx_view ''w'' (one_store ''w'')) ([1], 40) = None"
    by (simp add: one_store_empty wtable_def bytesserde_def)
  have ok: "mem_ctx_ok ''w'' (one_store ''w'')" by (simp add: one_store_ok)
  show ?thesis
    using windowed_aggregate_is_fold [OF bytes_ty.go_type_axioms int64_ty.go_type_axioms
        bytes_sd.total_serde_axioms tally.total_serde_axioms ok dec st side(1,2) adm side(3,1,4),
        of "''c''" "\<lambda>_. 0" "\<lambda>_ v a. i64 (a + v)" "[''out'']"]
    unfolding acc
    by - (erule exE, elim conjE, intro exI conjI, assumption, drule spec [of _ "[1]"], drule spec [of _ 40],
      simp add: none i64_def)
qed

theorem tumbling_count_exact_witness:
  "\<exists>s'. feed (WindowedCount_fn bytes_type bytes_type bytesserde (tumblingWindow 10) 0 None (add_late ''c'') ''w'' tally_serde)
        (sink_ctx [''out''] [''w'']) (map (typed_record bytes_type bytes_type) [([1], [], 12), ([1], [], 19), ([1], [], 20)])
        (one_store ''w'') = (None, s')
    \<and> wtable bytesserde tally_serde (mem_ctx_view ''w'' s') ([1], 10) = Some 2"
proof -
  have st: "es_streamTime (one_store ''w'') = Some 0" by (simp add: one_store_def)
  show ?thesis
    using tumbling_count_exact [OF bytes_ty.go_type_axioms bytes_ty.go_type_axioms
        bytes_sd.total_serde_axioms tally.total_serde_axioms one_store_ok [of "''w''"] one_store_empty st,
        of 10 0 "[([1], [], 12), ([1], [], 19), ([1], [], 20)]" "''c''" "[''out'']"]
    by (auto simp: MaxInt64_def MinInt64_def is_i64_def bytesserde_def key_fits_def i64_def
        dest!: spec [of _ "[1]"] spec [of _ 10])
qed

end
