(* ===== verification/Session.thy ===== *)
theory Session
  imports Windowed
begin

text \<open>
  \<open>session.go\<close>: the encoding of session values and the aggregation over session windows. A record
  merges every stored session of its key that lies within the inactivity gap of its timestamp
  into one session that also covers the record.
\<close>

section \<open>Definitions\<close>

definition SessionWindow :: "int \<Rightarrow> error + int" where
  "SessionWindow gap =
     (let gapMs = Milliseconds gap in
      if gapMs \<le> 0 then Inl (Err ''gstream: SessionWindow gap must be > 0'') else Inr gapMs)"

definition EncodeSessionValue :: "int \<Rightarrow> bytes \<Rightarrow> bytes" where
  "EncodeSessionValue sessionEnd accBytes = be_bytes 8 sessionEnd @ accBytes"

definition DecodeSessionValue :: "bytes \<Rightarrow> error + int \<times> bytes" where
  "DecodeSessionValue raw =
     (if length raw < 8 then Inl (Err ''gstream: DecodeSessionValue: too short'')
      else Inr (int64_of_be (take 8 raw), drop 8 raw))"

record 'c matchedSession =
  ms_start :: int
  ms_end :: int
  ms_acc :: 'c

text \<open>The visitor of the scan: malformed values and corrupt accumulators are skipped.\<close>

definition session_visit :: "int \<Rightarrow> int \<Rightarrow> 'c Serde \<Rightarrow> int \<times> bytes \<Rightarrow> 'c matchedSession list
    \<Rightarrow> 'c matchedSession list + 'c matchedSession list" where
  "session_visit gapMs ts accSerde = (\<lambda>(sStart, valBytes) matched.
     case DecodeSessionValue valBytes of
       Inl _ \<Rightarrow> Inr matched
     | Inr (sEnd, accBytes) \<Rightarrow>
         if i64 (sEnd + gapMs) \<ge> ts \<and> i64 (sStart - gapMs) \<le> ts
         then (case Deserialize accSerde accBytes of
                 Inl _ \<Rightarrow> Inr matched
               | Inr acc \<Rightarrow> Inr (matched @ [\<lparr>ms_start = sStart, ms_end = sEnd, ms_acc = acc\<rparr>]))
         else Inr matched)"

definition scan_sessions :: "'s Store \<Rightarrow> bytes \<Rightarrow> int \<Rightarrow> int \<Rightarrow> 'c Serde \<Rightarrow> 's \<Rightarrow> error + 'c matchedSession list" where
  "scan_sessions store kBytes gapMs ts accSerde s =
     (case RangeForKey store kBytes s of (entries, err) \<Rightarrow>
        (case visit_loop (session_visit gapMs ts accSerde) entries err [] of
           (matched, None) \<Rightarrow> Inr matched
         | (matched, Some e) \<Rightarrow> Inl e))"

definition merged_acc :: "'k \<Rightarrow> (unit \<Rightarrow> 'c) \<Rightarrow> ('k \<Rightarrow> 'c \<Rightarrow> 'c \<Rightarrow> 'c) \<Rightarrow> 'c matchedSession list \<Rightarrow> 'c" where
  "merged_acc k initFn mergeFn matched =
     (case matched of
        [] \<Rightarrow> initFn ()
      | m # ms \<Rightarrow> foldl (\<lambda>acc m. mergeFn k acc (ms_acc m)) (ms_acc m) ms)"

definition merged_start :: "int \<Rightarrow> 'c matchedSession list \<Rightarrow> int" where
  "merged_start ts matched = foldl (\<lambda>x m. if ms_start m < x then ms_start m else x) ts matched"

definition merged_end :: "int \<Rightarrow> 'c matchedSession list \<Rightarrow> int" where
  "merged_end ts matched = foldl (\<lambda>x m. if ms_end m > x then ms_end m else x) ts matched"

definition SessionAggregate_fn :: "('a, 'k) gotype \<Rightarrow> ('a, 'v) gotype \<Rightarrow> 'k Serde \<Rightarrow> int \<Rightarrow> int
    \<Rightarrow> ('a Record \<Rightarrow> int) option \<Rightarrow> ('s \<Rightarrow> 's) \<Rightarrow> string \<Rightarrow> (unit \<Rightarrow> 'c) \<Rightarrow> ('k \<Rightarrow> 'v \<Rightarrow> 'c \<Rightarrow> 'c)
    \<Rightarrow> ('k \<Rightarrow> 'c \<Rightarrow> 'c \<Rightarrow> 'c) \<Rightarrow> 'c Serde \<Rightarrow> ('s, 'a) StatefulProcessFunc" where
  "SessionAggregate_fn kt vt keySerde gapMs graceMs extractorFn addLate storeName initFn aggFn mergeFn accSerde r pc s0 =
     (let ts = (case extractorFn of Some f \<Rightarrow> f r | None \<Rightarrow> r_Timestamp r);
          s = AdvanceStreamTime pc ts s0;
          lateBoundary = i64 (i64 (StreamTime pc s - gapMs) - graceMs)
      in if ts < lateBoundary then (None, addLate s)
         else errOf
           (bindE (assertE ''session aggregate: key type mismatch'' (type_assert kt (r_Key r))) (\<lambda>k.
            bindE (assertE ''session aggregate: value type mismatch'' (type_assert vt (r_Value r))) (\<lambda>v.
            bindE (wiredE ''session aggregate: store not wired'' ''session aggregate: store type mismatch''
                     (CtxStore pc storeName)) (\<lambda>store.
            bindE (wrapE ''session aggregate: encode key'' (pureE (Serialize keySerde k))) (\<lambda>kBytes.
            bindE (wrapE ''session aggregate: scan sessions'' (readE (scan_sessions store kBytes gapMs ts accSerde))) (\<lambda>matched.
            let mergedStart = merged_start ts matched;
                mergedEnd = merged_end ts matched;
                mergedAcc = aggFn k v (merged_acc k initFn mergeFn matched) in
            bindE (forE matched (\<lambda>m. wrapE ''session aggregate: delete old session''
                     (doE (WindowDelete store kBytes (ms_start m))))) (\<lambda>_.
            bindE (wrapE ''session aggregate: encode accumulator'' (pureE (Serialize accSerde mergedAcc))) (\<lambda>accBytes.
            wrapE ''session aggregate: write merged session''
              (doE (WindowPut store kBytes mergedStart (EncodeSessionValue mergedEnd accBytes))))))))))) s)"

definition count_merge :: "'k \<Rightarrow> int \<Rightarrow> int \<Rightarrow> int" where
  "count_merge k a b = i64 (a + b)"

definition SessionCount_fn :: "('a, 'k) gotype \<Rightarrow> ('a, 'v) gotype \<Rightarrow> 'k Serde \<Rightarrow> int \<Rightarrow> int
    \<Rightarrow> ('a Record \<Rightarrow> int) option \<Rightarrow> ('s \<Rightarrow> 's) \<Rightarrow> string \<Rightarrow> int Serde \<Rightarrow> ('s, 'a) StatefulProcessFunc" where
  "SessionCount_fn kt vt keySerde gapMs graceMs extractorFn addLate storeName countSerde =
     SessionAggregate_fn kt vt keySerde gapMs graceMs extractorFn addLate storeName
       count_init count_agg count_merge countSerde"

section \<open>The encoding\<close>

lemma decode_encode_session: "is_i64 e \<Longrightarrow> DecodeSessionValue (EncodeSessionValue e b) = Inr (e, b)"
  by (simp add: DecodeSessionValue_def EncodeSessionValue_def int64_of_be_be_bytes)

lemma encode_decode_session:
  assumes "DecodeSessionValue raw = Inr (e, b)"
  shows "raw = EncodeSessionValue e b \<and> is_i64 e"
  using assms be_bytes_8_int64 [of "take 8 raw"]
  by (auto simp: DecodeSessionValue_def EncodeSessionValue_def int64_of_be_def i64_range split: if_splits)

lemma decode_session_err: "(\<exists>err. DecodeSessionValue raw = Inl err) \<longleftrightarrow> length raw < 8"
  by (simp add: DecodeSessionValue_def)

section \<open>The sessions a store holds\<close>

definition stable :: "'k Serde \<Rightarrow> 'c Serde \<Rightarrow> (bytes \<rightharpoonup> bytes) \<Rightarrow> 'k \<Rightarrow> int \<Rightarrow> (int \<times> 'c) option" where
  "stable keySerde accSerde m k start =
     (case Serialize keySerde k of
        Inl _ \<Rightarrow> None
      | Inr b \<Rightarrow> if key_fits b \<and> is_i64 start then
          (case m (CompositeKey b start) of
             None \<Rightarrow> None
           | Some c \<Rightarrow> (case DecodeSessionValue c of
               Inl _ \<Rightarrow> None
             | Inr (e, accBytes) \<Rightarrow> (case Deserialize accSerde accBytes of Inl _ \<Rightarrow> None | Inr a \<Rightarrow> Some (e, a))))
        else None)"

definition matches :: "int \<Rightarrow> int \<Rightarrow> int \<Rightarrow> int \<Rightarrow> bool" where
  "matches gapMs ts s e \<longleftrightarrow> i64 (e + gapMs) \<ge> ts \<and> i64 (s - gapMs) \<le> ts"

lemma session_visit_loop:
  "\<exists>ms. visit_loop (session_visit gapMs ts accSerde) es None acc = (acc @ ms, None)
    \<and> map ms_start ms = map fst (filter (\<lambda>(s, v). case DecodeSessionValue v of Inl _ \<Rightarrow> False
        | Inr (e, b) \<Rightarrow> matches gapMs ts s e \<and> (\<exists>a. Deserialize accSerde b = Inr a)) es)
    \<and> (\<forall>s e a. \<lparr>ms_start = s, ms_end = e, ms_acc = a\<rparr> \<in> set ms \<longleftrightarrow> (\<exists>v b. (s, v) \<in> set es
        \<and> DecodeSessionValue v = Inr (e, b) \<and> Deserialize accSerde b = Inr a \<and> matches gapMs ts s e))"
proof (induction es arbitrary: acc)
  case Nil
  then show ?case by simp
next
  case (Cons x es)
  obtain s v where x: "x = (s, v)" by fastforce
  let ?hit = "case DecodeSessionValue v of Inl _ \<Rightarrow> None | Inr (e, b) \<Rightarrow>
      if matches gapMs ts s e then (case Deserialize accSerde b of Inl _ \<Rightarrow> None
        | Inr a \<Rightarrow> Some \<lparr>ms_start = s, ms_end = e, ms_acc = a\<rparr>) else None"
  show ?case
  proof (cases ?hit)
    case None
    then have "session_visit gapMs ts accSerde x acc = Inr acc"
      and no: "\<not> (\<exists>e b a. DecodeSessionValue v = Inr (e, b) \<and> Deserialize accSerde b = Inr a \<and> matches gapMs ts s e)"
      by (auto simp: session_visit_def x matches_def split: sum.splits prod.splits if_splits)
    then show ?thesis
      using Cons.IH [of acc] x by (auto split: sum.splits)
  next
    case (Some m)
    then obtain e b a where *: "DecodeSessionValue v = Inr (e, b)" "Deserialize accSerde b = Inr a"
      "matches gapMs ts s e" "m = \<lparr>ms_start = s, ms_end = e, ms_acc = a\<rparr>"
      by (auto split: sum.splits prod.splits if_splits)
    then have "session_visit gapMs ts accSerde x acc = Inr (acc @ [m])"
      by (auto simp: session_visit_def x matches_def)
    moreover obtain ms where ms: "visit_loop (session_visit gapMs ts accSerde) es None (acc @ [m]) = ((acc @ [m]) @ ms, None)"
      "map ms_start ms = map fst (filter (\<lambda>(s, v). case DecodeSessionValue v of Inl _ \<Rightarrow> False
        | Inr (e, b) \<Rightarrow> matches gapMs ts s e \<and> (\<exists>a. Deserialize accSerde b = Inr a)) es)"
      "\<forall>s e a. \<lparr>ms_start = s, ms_end = e, ms_acc = a\<rparr> \<in> set ms \<longleftrightarrow> (\<exists>v b. (s, v) \<in> set es
        \<and> DecodeSessionValue v = Inr (e, b) \<and> Deserialize accSerde b = Inr a \<and> matches gapMs ts s e)"
      using Cons.IH [of "acc @ [m]"] by blast
    ultimately show ?thesis
      using * x by (intro exI [of _ "m # ms"]) auto
  qed
qed

lemma merged_start_in: "merged_start ts ms \<in> insert ts (ms_start ` set ms)"
  unfolding merged_start_def by (induction ms arbitrary: ts) auto

lemma merged_end_in: "merged_end ts ms \<in> insert ts (ms_end ` set ms)"
  unfolding merged_end_def by (induction ms arbitrary: ts) auto

lemma merged_start_le: "merged_start ts ms \<le> ts" "m \<in> set ms \<Longrightarrow> merged_start ts ms \<le> ms_start m"
proof -
  have "foldl (\<lambda>x m. if ms_start m < x then ms_start m else x) ts ms \<le> ts
      \<and> (\<forall>m \<in> set ms. foldl (\<lambda>x m. if ms_start m < x then ms_start m else x) ts ms \<le> ms_start m)"
    by (induction ms arbitrary: ts) (auto, (meson less_imp_le not_less order_trans)+)
  then show "merged_start ts ms \<le> ts" "m \<in> set ms \<Longrightarrow> merged_start ts ms \<le> ms_start m"
    by (simp_all add: merged_start_def)
qed

lemma merged_end_ge: "ts \<le> merged_end ts ms" "m \<in> set ms \<Longrightarrow> ms_end m \<le> merged_end ts ms"
proof -
  have "ts \<le> foldl (\<lambda>x m. if ms_end m > x then ms_end m else x) ts ms
      \<and> (\<forall>m \<in> set ms. ms_end m \<le> foldl (\<lambda>x m. if ms_end m > x then ms_end m else x) ts ms)"
    by (induction ms arbitrary: ts) (auto, (meson less_imp_le not_less order_trans)+)
  then show "ts \<le> merged_end ts ms" "m \<in> set ms \<Longrightarrow> ms_end m \<le> merged_end ts ms"
    by (simp_all add: merged_end_def)
qed

context window_op
begin

lemma stable_enc:
  "stable keySerde accSerde m k start = Some (e, a) \<longleftrightarrow> key_fits (ks.enc k) \<and> is_i64 start
    \<and> (\<exists>v b. m (CompositeKey (ks.enc k) start) = Some v \<and> DecodeSessionValue v = Inr (e, b) \<and> Deserialize accSerde b = Inr a)"
  by (auto simp: stable_def split: option.splits sum.splits prod.splits)

lemma scan_sessions_ok:
  assumes "ok s" "window_keys (view s)" "key_fits (ks.enc k)"
  shows "\<exists>ms. scan_sessions st (ks.enc k) gapMs ts accSerde s = Inr ms \<and> distinct (map ms_start ms)
    \<and> (\<forall>start e a. \<lparr>ms_start = start, ms_end = e, ms_acc = a\<rparr> \<in> set ms
        \<longleftrightarrow> stable keySerde accSerde (view s) k start = Some (e, a) \<and> matches gapMs ts start e)"
proof -
  let ?es = "window_entries (ks.enc k) (view s)"
  obtain ms where ms: "visit_loop (session_visit gapMs ts accSerde) ?es None [] = ([] @ ms, None)"
    "map ms_start ms = map fst (filter (\<lambda>(s, v). case DecodeSessionValue v of Inl _ \<Rightarrow> False
        | Inr (e, b) \<Rightarrow> matches gapMs ts s e \<and> (\<exists>a. Deserialize accSerde b = Inr a)) ?es)"
    "\<forall>s e a. \<lparr>ms_start = s, ms_end = e, ms_acc = a\<rparr> \<in> set ms \<longleftrightarrow> (\<exists>v b. (s, v) \<in> set ?es
        \<and> DecodeSessionValue v = Inr (e, b) \<and> Deserialize accSerde b = Inr a \<and> matches gapMs ts s e)"
    using session_visit_loop [of gapMs ts accSerde ?es "[]"] by blast
  have "distinct (map ms_start ms)"
    unfolding ms(2) using window_entries_distinct [OF finite_view [OF assms(1)] assms(2,3)]
    by (rule distinct_map_filter)
  moreover have "scan_sessions st (ks.enc k) gapMs ts accSerde s = Inr ms"
    using ms(1) by (simp add: scan_sessions_def range_for_key_law [OF assms(1,3,2)])
  moreover have "\<lparr>ms_start = start, ms_end = e, ms_acc = a\<rparr> \<in> set ms
      \<longleftrightarrow> stable keySerde accSerde (view s) k start = Some (e, a) \<and> matches gapMs ts start e" for start e a
    using ms(3) assms(3) window_entries_set [OF finite_view [OF assms(1)] assms(2,3)]
    by (auto simp: stable_enc)
  ultimately show ?thesis by blast
qed

lemma delete_sessions:
  assumes "ok s"
  shows "\<exists>s'. forE ms (\<lambda>m. wrapE msg (doE (WindowDelete st kb (ms_start m)))) s = (Inr (), s')
    \<and> ok s' \<and> view s' = (\<lambda>c. if c \<in> (\<lambda>m. CompositeKey kb (ms_start m)) ` set ms then None else view s c)
    \<and> StreamTime pc s' = StreamTime pc s \<and> lateCount s' = lateCount s"
  using assms
proof (induction ms arbitrary: s)
  case Nil
  then show ?case by (simp add: retE_def)
next
  case (Cons m ms)
  obtain e s1 where del: "WindowDelete st kb (ms_start m) s = (e, s1)" by fastforce
  have s1: "e = None" "ok s1" "view s1 = (view s)(CompositeKey kb (ms_start m) := None)"
    using window_delete_law [OF Cons.prems del] by auto
  have "StreamTime pc s1 = StreamTime pc s" "lateCount s1 = lateCount s"
    using window_delete_time [of kb "ms_start m" s] window_delete_late [of kb "ms_start m" s] del by simp_all
  then show ?case
    using Cons.IH [OF s1(2)] del s1 by (auto simp: act_simps fun_eq_iff)
qed

lemma stable_upd:
  assumes "key_fits (ks.enc k)" "is_i64 start" "is_i64 e" "\<forall>m \<in> set ms. is_i64 (ms_start m)"
  shows "stable keySerde accSerde ((\<lambda>c. if c \<in> (\<lambda>m. CompositeKey (ks.enc k) (ms_start m)) ` set ms then None else f c)
      (CompositeKey (ks.enc k) start \<mapsto> EncodeSessionValue e (cs.enc a))) k' start'
    = (if k' = k \<and> start' = start then Some (e, a)
       else if k' = k \<and> start' \<in> ms_start ` set ms then None else stable keySerde accSerde f k' start')"
proof (cases "key_fits (ks.enc k') \<and> is_i64 start'")
  case True
  have inj: "CompositeKey (ks.enc k') start' = CompositeKey (ks.enc k) t \<longleftrightarrow> k' = k \<and> start' = t" if "is_i64 t" for t
    using CompositeKey_inject True assms(1) that by simp
  have "CompositeKey (ks.enc k') start' \<in> (\<lambda>m. CompositeKey (ks.enc k) (ms_start m)) ` set ms
      \<longleftrightarrow> k' = k \<and> start' \<in> ms_start ` set ms"
    using inj assms(4) by (auto simp: image_iff)
  then show ?thesis
    using True inj [OF assms(2)] assms(3)
    by (cases "k' = k") (auto simp: stable_def decode_encode_session)
next
  case False
  then show ?thesis using assms by (auto simp: stable_def)
qed

lemma session_accept:
  assumes ok: "ok s" and wk: "window_keys (view s)" and fits: "key_fits (ks.enc k)" and ts: "is_i64 ts"
    and late: "\<not> ts < i64 (i64 (max (StreamTime pc s) ts - gapMs) - graceMs)"
  shows "\<exists>s' ms. SessionAggregate_fn kt vt keySerde gapMs graceMs None addLate name initFn aggFn mergeFn accSerde
        (typed_record kt vt (k, v, ts)) pc s = (None, s')
    \<and> ok s' \<and> window_keys (view s') \<and> StreamTime pc s' = max (StreamTime pc s) ts \<and> lateCount s' = lateCount s
    \<and> distinct (map ms_start ms)
    \<and> (\<forall>start e a. \<lparr>ms_start = start, ms_end = e, ms_acc = a\<rparr> \<in> set ms
        \<longleftrightarrow> stable keySerde accSerde (view s) k start = Some (e, a) \<and> matches gapMs ts start e)
    \<and> (\<forall>k' start'. stable keySerde accSerde (view s') k' start'
        = (if k' = k \<and> start' = merged_start ts ms
           then Some (merged_end ts ms, aggFn k v (merged_acc k initFn mergeFn ms))
           else if k' = k \<and> start' \<in> ms_start ` set ms then None
           else stable keySerde accSerde (view s) k' start'))"
proof -
  let ?s = "AdvanceStreamTime pc ts s"
  have adv: "ok ?s" "view ?s = view s" "StreamTime pc ?s = max (StreamTime pc s) ts" "lateCount ?s = lateCount s"
    using advance_law [OF ok, of ts] advance_late [of ts s] by simp_all
  obtain ms where ms: "scan_sessions st (ks.enc k) gapMs ts accSerde ?s = Inr ms" "distinct (map ms_start ms)"
    "\<forall>start e a. \<lparr>ms_start = start, ms_end = e, ms_acc = a\<rparr> \<in> set ms
        \<longleftrightarrow> stable keySerde accSerde (view s) k start = Some (e, a) \<and> matches gapMs ts start e"
    using scan_sessions_ok [OF adv(1), of k gapMs ts] adv(2) wk fits by auto
  let ?a = "aggFn k v (merged_acc k initFn mergeFn ms)"
  obtain s1 where s1: "forE ms (\<lambda>m. wrapE ''session aggregate: delete old session''
        (doE (WindowDelete st (ks.enc k) (ms_start m)))) ?s = (Inr (), s1)" "ok s1"
      "view s1 = (\<lambda>c. if c \<in> (\<lambda>m. CompositeKey (ks.enc k) (ms_start m)) ` set ms then None else view s c)"
      "StreamTime pc s1 = max (StreamTime pc s) ts" "lateCount s1 = lateCount s"
    using delete_sessions [OF adv(1), of ms "''session aggregate: delete old session''" "ks.enc k"]
    unfolding adv(2-4) by blast
  obtain e s2 where put: "WindowPut st (ks.enc k) (merged_start ts ms)
      (EncodeSessionValue (merged_end ts ms) (cs.enc ?a)) s1 = (e, s2)" by fastforce
  have s2: "e = None" "ok s2" "view s2 = (view s1)(CompositeKey (ks.enc k) (merged_start ts ms)
      \<mapsto> EncodeSessionValue (merged_end ts ms) (cs.enc ?a))"
    using window_put_law [OF s1(2) put] by auto
  have frame: "StreamTime pc s2 = StreamTime pc s1" "lateCount s2 = lateCount s1"
    using window_put_time window_put_late put by (metis snd_conv)+
  have mem: "is_i64 (ms_start m) \<and> is_i64 (ms_end m)" if "m \<in> set ms" for m
  proof -
    have "stable keySerde accSerde (view s) k (ms_start m) = Some (ms_end m, ms_acc m)"
      using ms(3) that by (metis matchedSession.surjective unit.exhaust)
    then show ?thesis using encode_decode_session by (auto simp: stable_enc)
  qed
  have i64s: "is_i64 (merged_start ts ms)" "is_i64 (merged_end ts ms)"
    using merged_start_in [of ts ms] merged_end_in [of ts ms] mem ts by auto
  have "window_keys (view s2)"
    unfolding s2(3) s1(3) using wk fits i64s(1) by (intro window_keys_upd)
      (auto simp: window_keys_def domI split: if_splits)
  moreover have "SessionAggregate_fn kt vt keySerde gapMs graceMs None addLate name initFn aggFn mergeFn accSerde
      (typed_record kt vt (k, v, ts)) pc s = (None, s2)"
    using late adv(3) ms(1) s1(1) put s2(1)
    by (simp add: SessionAggregate_fn_def typed_record_def Let_def act_simps)
  moreover have "stable keySerde accSerde (view s2) k' start'
        = (if k' = k \<and> start' = merged_start ts ms then Some (merged_end ts ms, ?a)
           else if k' = k \<and> start' \<in> ms_start ` set ms then None
           else stable keySerde accSerde (view s) k' start')" for k' start'
    unfolding s2(3) s1(3) using mem by (intro stable_upd [OF fits i64s]) blast
  ultimately show ?thesis
    using s2(2) frame s1(4,5) ms(2,3) by (intro exI [of _ s2] exI [of _ ms]) auto
qed

end

section \<open>Sessionization\<close>

text \<open>
  The specification of session counts for one key, given the timestamps of its accepted records:
  every session starts and ends at a record, holds the number of records between its bounds, and
  is connected (from any point of it, the next record is at most the gap away); every record is
  in a session; and two sessions are more than the gap apart. These conditions determine the
  sessions.
\<close>

definition count_in :: "int list \<Rightarrow> int \<Rightarrow> int \<Rightarrow> nat" where
  "count_in tss s e = length (filter (\<lambda>t. s \<le> t \<and> t \<le> e) tss)"

definition session_ok :: "int \<Rightarrow> int list \<Rightarrow> int \<Rightarrow> int \<Rightarrow> int \<Rightarrow> bool" where
  "session_ok gap tss s e n \<longleftrightarrow> s \<le> e \<and> s \<in> set tss \<and> e \<in> set tss \<and> n = i64 (int (count_in tss s e))
     \<and> (\<forall>x. s \<le> x \<longrightarrow> x < e \<longrightarrow> (\<exists>t \<in> set tss. x < t \<and> t \<le> x + gap))"

definition sessions_of :: "int \<Rightarrow> int list \<Rightarrow> (int \<rightharpoonup> int \<times> int) \<Rightarrow> bool" where
  "sessions_of gap tss S \<longleftrightarrow>
     (\<forall>s e n. S s = Some (e, n) \<longrightarrow> session_ok gap tss s e n)
     \<and> (\<forall>t \<in> set tss. \<exists>s e n. S s = Some (e, n) \<and> s \<le> t \<and> t \<le> e)
     \<and> (\<forall>s e n s' e' n'. S s = Some (e, n) \<longrightarrow> S s' = Some (e', n') \<longrightarrow> s < s' \<longrightarrow> e + gap < s')"

lemma sessions_of_empty: "sessions_of gap [] Map.empty"
  by (simp add: sessions_of_def)

lemma merged_count:
  "merged_acc k count_init count_merge ms = (case ms of [] \<Rightarrow> 0 | [m] \<Rightarrow> ms_acc m | _ \<Rightarrow> i64 (\<Sum>m\<leftarrow>ms. ms_acc m))"
proof -
  have fold: "foldl (\<lambda>acc m. count_merge k acc (ms_acc m)) a xs
      = (if xs = [] then a else i64 (a + (\<Sum>m\<leftarrow>xs. ms_acc m)))" for a and xs :: "int matchedSession list"
  proof (induction xs arbitrary: a)
    case (Cons x xs)
    then show ?case
      using i64_add [of "a + ms_acc x" "\<Sum>m\<leftarrow>xs. ms_acc m"] by (simp add: count_merge_def add_ac)
  qed simp
  show ?thesis
    by (cases ms) (auto simp: merged_acc_def count_init_def fold split: list.split)
qed

lemma merged_count_i64:
  "count_agg k v (merged_acc k count_init count_merge ms) = i64 ((\<Sum>m\<leftarrow>ms. ms_acc m) + 1)"
  using i64_add [of "\<Sum>m\<leftarrow>ms. ms_acc m" 1]
  by (auto simp: merged_count count_agg_def split: list.split)

lemma i64_sum_list: "i64 ((\<Sum>x\<leftarrow>xs. i64 (f x)) + y) = i64 ((\<Sum>x\<leftarrow>xs. f x) + y)"
proof (induction xs arbitrary: y)
  case (Cons x xs)
  have "i64 (i64 (f x) + ((\<Sum>x\<leftarrow>xs. i64 (f x)) + y)) = i64 ((\<Sum>x\<leftarrow>xs. i64 (f x)) + (f x + y))"
    using i64_add [of "f x" "(\<Sum>x\<leftarrow>xs. i64 (f x)) + y"] by (simp add: add_ac)
  then show ?case using Cons.IH [of "f x + y"] by (simp add: add_ac)
qed simp

lemma int_sum_list: "int (\<Sum>x\<leftarrow>xs. f x) = (\<Sum>x\<leftarrow>xs. int (f x))"
  by (induction xs) simp_all

text \<open>Counting over disjoint intervals.\<close>

lemma count_partition:
  assumes "distinct ms"
    and "\<And>t. t \<in> set tss \<Longrightarrow> (lo \<le> t \<and> t \<le> hi) \<longleftrightarrow> (\<exists>m \<in> set ms. ms_start m \<le> t \<and> t \<le> ms_end m)"
    and "\<And>m m' t. m \<in> set ms \<Longrightarrow> m' \<in> set ms \<Longrightarrow> ms_start m \<le> t \<Longrightarrow> t \<le> ms_end m \<Longrightarrow>
      ms_start m' \<le> t \<Longrightarrow> t \<le> ms_end m' \<Longrightarrow> m = m'"
  shows "count_in tss lo hi = (\<Sum>m\<leftarrow>ms. count_in tss (ms_start m) (ms_end m))"
  using assms(2)
proof (induction tss)
  case Nil
  have "(\<Sum>m\<leftarrow>ms. count_in [] (ms_start m) (ms_end m)) = 0" by (induction ms) (simp_all add: count_in_def)
  then show ?case by (simp add: count_in_def)
next
  case (Cons t tss)
  let ?in = "\<lambda>m. ms_start m \<le> t \<and> t \<le> ms_end m"
  have tin: "lo \<le> t \<and> t \<le> hi \<longleftrightarrow> (\<exists>m \<in> set ms. ?in m)" by (rule Cons.prems) simp
  have one: "(\<Sum>m\<leftarrow>ms. if ?in m then 1 else 0) = (if lo \<le> t \<and> t \<le> hi then 1 else 0 :: nat)"
  proof (cases "\<exists>m \<in> set ms. ?in m")
    case True
    then obtain m where m: "m \<in> set ms" "?in m" by blast
    then have "?in x \<longleftrightarrow> x = m" if "x \<in> set ms" for x using assms(3) that by blast
    then have "(\<Sum>x\<leftarrow>ms. if ?in x then 1 else 0) = (\<Sum>x\<leftarrow>ms. if x = m then 1 else 0 :: nat)"
      by (intro arg_cong [of _ _ sum_list] map_cong) auto
    also have "\<dots> = (\<Sum>x \<in> set ms. if x = m then 1 else 0)"
      using assms(1) by (simp add: sum_list_distinct_conv_sum_set)
    also have "\<dots> = 1" using m(1) by simp
    finally have z: "(\<Sum>x\<leftarrow>ms. if ?in x then 1 else 0) = (1 :: nat)" .
    show ?thesis unfolding z using True tin by simp
  next
    case False
    then have "(\<Sum>x\<leftarrow>ms. if ?in x then 1 else 0) = (\<Sum>x\<leftarrow>ms. 0 :: nat)"
      by (intro arg_cong [of _ _ sum_list] map_cong) auto
    also have "\<dots> = 0" by simp
    finally have z: "(\<Sum>x\<leftarrow>ms. if ?in x then 1 else 0) = (0 :: nat)" .
    show ?thesis unfolding z using False tin by simp
  qed
  have "(\<Sum>m\<leftarrow>ms. count_in (t # tss) (ms_start m) (ms_end m))
      = (\<Sum>m\<leftarrow>ms. (if ?in m then 1 else 0) + count_in tss (ms_start m) (ms_end m))"
    by (intro arg_cong [of _ _ sum_list] map_cong) (auto simp: count_in_def)
  then show ?case
    using Cons by (simp add: sum_list_addf one) (simp add: count_in_def)
qed

text \<open>One accepted record preserves the specification.\<close>

locale session_step =
  fixes gap ts :: int and tss :: "int list" and S S' :: "int \<rightharpoonup> int \<times> int" and ms :: "int matchedSession list"
    and acc :: int
  assumes gap: "0 < gap"
    and S: "sessions_of gap tss S"
    and ms: "\<And>s e n. \<lparr>ms_start = s, ms_end = e, ms_acc = n\<rparr> \<in> set ms \<longleftrightarrow> S s = Some (e, n) \<and> ts \<le> e + gap \<and> s - gap \<le> ts"
    and dist: "distinct (map ms_start ms)"
    and acc: "acc = i64 ((\<Sum>m\<leftarrow>ms. ms_acc m) + 1)"
    and S': "\<And>x. S' x = (if x = merged_start ts ms then Some (merged_end ts ms, acc)
      else if x \<in> ms_start ` set ms then None else S x)"
begin

abbreviation lo :: int where "lo \<equiv> merged_start ts ms"
abbreviation hi :: int where "hi \<equiv> merged_end ts ms"

lemma old_ok: "S s = Some (e, n) \<Longrightarrow> session_ok gap tss s e n"
  and old_cover: "t \<in> set tss \<Longrightarrow> \<exists>s e n. S s = Some (e, n) \<and> s \<le> t \<and> t \<le> e"
  and old_apart: "S s = Some (e, n) \<Longrightarrow> S s' = Some (e', n') \<Longrightarrow> s < s' \<Longrightarrow> e + gap < s'"
  using S unfolding sessions_of_def by blast+

lemma msD:
  assumes "m \<in> set ms"
  shows "S (ms_start m) = Some (ms_end m, ms_acc m)" "ts \<le> ms_end m + gap" "ms_start m - gap \<le> ts"
    "ms_start m \<le> ms_end m" "ms_start m \<in> set tss" "ms_end m \<in> set tss"
proof -
  have "m = \<lparr>ms_start = ms_start m, ms_end = ms_end m, ms_acc = ms_acc m\<rparr>" by simp
  then show *: "S (ms_start m) = Some (ms_end m, ms_acc m)" "ts \<le> ms_end m + gap" "ms_start m - gap \<le> ts"
    using ms assms by metis+
  show "ms_start m \<le> ms_end m" "ms_start m \<in> set tss" "ms_end m \<in> set tss"
    using old_ok [OF *(1)] by (simp_all add: session_ok_def)
qed

lemma msI: "S s = Some (e, n) \<Longrightarrow> ts \<le> e + gap \<Longrightarrow> s - gap \<le> ts \<Longrightarrow> \<exists>m \<in> set ms. ms_start m = s \<and> ms_end m = e"
  using ms [of s e n] by force

lemma lo_cases: "lo = ts \<or> (\<exists>m \<in> set ms. lo = ms_start m)"
  using merged_start_in [of ts ms] by auto

lemma hi_cases: "hi = ts \<or> (\<exists>m \<in> set ms. hi = ms_end m)"
  using merged_end_in [of ts ms] by auto

lemma bounds: "lo \<le> ts" "ts \<le> hi" "m \<in> set ms \<Longrightarrow> lo \<le> ms_start m" "m \<in> set ms \<Longrightarrow> ms_end m \<le> hi"
  by (simp_all add: merged_start_le merged_end_ge)

lemma unmatched:
  assumes "S s = Some (e, n)" "\<not> (ts \<le> e + gap \<and> s - gap \<le> ts)"
  shows "e + gap < lo \<or> hi + gap < s"
proof (cases "ts \<le> e + gap")
  case True
  then have far: "ts + gap < s" using assms(2) by linarith
  have "ms_end m + gap < s" if "m \<in> set ms" for m
  proof -
    have "ms_start m < s" using msD(3) [OF that] far gap by linarith
    then show ?thesis using old_apart [OF msD(1) [OF that] assms(1)] by simp
  qed
  then have "hi + gap < s" using hi_cases far by auto
  then show ?thesis by simp
next
  case False
  then have far: "e + gap < ts" by linarith
  have "e + gap < ms_start m" if "m \<in> set ms" for m
  proof -
    have "e < ms_end m" using msD(2) [OF that] far by linarith
    moreover have "s \<noteq> ms_start m" using msD(1) [OF that] assms(1) calculation by auto
    moreover have "\<not> ms_start m < s"
      using old_apart [OF msD(1) [OF that] assms(1)] calculation(1) old_ok [OF assms(1)] gap
      by (auto simp: session_ok_def)
    ultimately show ?thesis using old_apart [OF assms(1) msD(1) [OF that]] by simp
  qed
  then have "e + gap < lo" using lo_cases far by auto
  then show ?thesis by simp
qed

lemma merged_members:
  assumes "t \<in> set tss"
  shows "lo \<le> t \<and> t \<le> hi \<longleftrightarrow> (\<exists>m \<in> set ms. ms_start m \<le> t \<and> t \<le> ms_end m)"
proof
  assume t: "lo \<le> t \<and> t \<le> hi"
  obtain s e n where s: "S s = Some (e, n)" "s \<le> t" "t \<le> e" using old_cover [OF assms] by blast
  have "ts \<le> e + gap \<and> s - gap \<le> ts"
    using unmatched [OF s(1)] s(2,3) t gap by linarith
  then show "\<exists>m \<in> set ms. ms_start m \<le> t \<and> t \<le> ms_end m" using msI [OF s(1)] s by auto
next
  assume "\<exists>m \<in> set ms. ms_start m \<le> t \<and> t \<le> ms_end m"
  then show "lo \<le> t \<and> t \<le> hi" using bounds(3,4) by force
qed

lemma disjoint_members:
  assumes "m \<in> set ms" "m' \<in> set ms" "ms_start m \<le> t" "t \<le> ms_end m" "ms_start m' \<le> t" "t \<le> ms_end m'"
  shows "m = m'"
proof -
  have "ms_start m = ms_start m'"
    using old_apart [OF msD(1) [OF assms(1)] msD(1) [OF assms(2)]]
      old_apart [OF msD(1) [OF assms(2)] msD(1) [OF assms(1)]] assms(3-6) gap by linarith
  then show ?thesis using dist assms(1,2) by (simp add: distinct_map inj_on_def)
qed

lemma merged_total: "acc = i64 (int (count_in (tss @ [ts]) lo hi))"
proof -
  have "count_in tss lo hi = (\<Sum>m\<leftarrow>ms. count_in tss (ms_start m) (ms_end m))"
    using merged_members disjoint_members dist by (intro count_partition) (auto simp: distinct_map)
  then have total: "int (count_in (tss @ [ts]) lo hi) = (\<Sum>m\<leftarrow>ms. int (count_in tss (ms_start m) (ms_end m))) + 1"
    using bounds by (simp add: count_in_def int_sum_list)
  have accs: "map ms_acc ms = map (\<lambda>m. i64 (int (count_in tss (ms_start m) (ms_end m)))) ms"
    using old_ok [OF msD(1)] by (intro map_cong) (auto simp: session_ok_def)
  show ?thesis
    unfolding acc total accs using i64_sum_list [of "\<lambda>m. int (count_in tss (ms_start m) (ms_end m))" ms 1] by simp
qed

lemma merged_connected: "lo \<le> x \<Longrightarrow> x < hi \<Longrightarrow> \<exists>t \<in> set (tss @ [ts]). x < t \<and> t \<le> x + gap"
proof -
  assume x: "lo \<le> x" "x < hi"
  show ?thesis
  proof (cases "\<exists>m \<in> set ms. ms_start m \<le> x \<and> x < ms_end m")
    case True
    then obtain m where "m \<in> set ms" "ms_start m \<le> x" "x < ms_end m" by blast
    then show ?thesis using old_ok [OF msD(1)] by (fastforce simp: session_ok_def)
  next
    case False
    show ?thesis
    proof (cases "x < ts")
      case True
      then obtain m where m: "m \<in> set ms" "lo = ms_start m" using lo_cases x by auto
      then have "ms_end m \<le> x" using False x by force
      then show ?thesis using msD(2) [OF m(1)] True by auto
    next
      case tsx: False
      then obtain m where m: "m \<in> set ms" "hi = ms_end m" using hi_cases x by auto
      then have "x < ms_start m" using False x by force
      then show ?thesis using msD(3,5) [OF m(1)] tsx by force
    qed
  qed
qed

lemma merged_ok: "session_ok gap (tss @ [ts]) lo hi acc"
  using bounds(1,2) lo_cases hi_cases msD(5,6) merged_total merged_connected
  by (auto simp: session_ok_def)

lemma kept: "S' x = Some (e, n) \<Longrightarrow> x \<noteq> lo \<Longrightarrow> S x = Some (e, n) \<and> (e + gap < lo \<or> hi + gap < x)"
proof -
  assume "S' x = Some (e, n)" "x \<noteq> lo"
  then have x: "S x = Some (e, n)" "x \<notin> ms_start ` set ms" by (auto simp: S' split: if_splits)
  then have "\<not> (ts \<le> e + gap \<and> x - gap \<le> ts)" using msI [OF x(1)] by blast
  then show ?thesis using unmatched [OF x(1)] x(1) by blast
qed

lemma kept_ok: "S x = Some (e, n) \<Longrightarrow> e + gap < lo \<or> hi + gap < x \<Longrightarrow> session_ok gap (tss @ [ts]) x e n"
  using old_ok [of x e n] bounds(1,2) gap by (fastforce simp: session_ok_def count_in_def)

lemma preserved: "sessions_of gap (tss @ [ts]) S'"
  unfolding sessions_of_def
proof (intro conjI allI impI ballI)
  fix s e n assume "S' s = Some (e, n)"
  then show "session_ok gap (tss @ [ts]) s e n"
    using kept kept_ok merged_ok S' by (cases "s = lo") auto
next
  fix t assume "t \<in> set (tss @ [ts])"
  then consider "lo \<le> t \<and> t \<le> hi" | "t \<in> set tss" "\<not> (lo \<le> t \<and> t \<le> hi)" using bounds(1,2) by auto
  then show "\<exists>s e n. S' s = Some (e, n) \<and> s \<le> t \<and> t \<le> e"
  proof cases
    case 1
    then show ?thesis using S' [of lo] by auto
  next
    case 2
    then obtain s e n where s: "S s = Some (e, n)" "s \<le> t" "t \<le> e" using old_cover by blast
    then have out: "s \<notin> ms_start ` set ms" using 2 merged_members msD(1) by fastforce
    moreover have "s \<noteq> lo"
    proof
      assume "s = lo"
      then have "s = ts" using lo_cases out by auto
      then show False using msI [OF s(1)] s gap out by auto
    qed
    ultimately show ?thesis using s S' [of s] by auto
  qed
next
  fix s e n s' e' n' assume *: "S' s = Some (e, n)" "S' s' = Some (e', n')" "s < s'"
  show "e + gap < s'"
  proof (cases "s = lo \<or> s' = lo")
    case False
    then show ?thesis using kept * old_apart by blast
  next
    case True
    then show ?thesis
      using * kept [OF *(1)] kept [OF *(2)] S' [of lo] bounds old_ok gap
      by (fastforce simp: session_ok_def)
  qed
qed

end

text \<open>
  The reference sessionization of a list of timestamps, on a map from session starts to session
  ends and counts; it satisfies the specification.
\<close>

definition ref_matched :: "int \<Rightarrow> int \<Rightarrow> (int \<rightharpoonup> int \<times> int) \<Rightarrow> int matchedSession list" where
  "ref_matched gap ts S =
     map (\<lambda>s. \<lparr>ms_start = s, ms_end = fst (the (S s)), ms_acc = snd (the (S s))\<rparr>)
       (sorted_list_of_set {s \<in> dom S. ts \<le> fst (the (S s)) + gap \<and> s - gap \<le> ts})"

definition ref_session :: "int \<Rightarrow> int \<Rightarrow> (int \<rightharpoonup> int \<times> int) \<Rightarrow> int \<rightharpoonup> int \<times> int" where
  "ref_session gap ts S =
     (let ms = ref_matched gap ts S in
      (\<lambda>x. if x = merged_start ts ms then Some (merged_end ts ms, i64 ((\<Sum>m\<leftarrow>ms. ms_acc m) + 1))
           else if x \<in> ms_start ` set ms then None else S x))"

definition ref_sessions :: "int \<Rightarrow> int list \<Rightarrow> int \<rightharpoonup> int \<times> int" where
  "ref_sessions gap tss = fold (ref_session gap) tss Map.empty"

lemma ref_session_finite: "finite (dom S) \<Longrightarrow> finite (dom (ref_session gap ts S))"
  by (rule finite_subset [of _ "insert (merged_start ts (ref_matched gap ts S)) (dom S)"])
    (auto simp: ref_session_def Let_def split: if_splits)

lemma ref_sessions_finite: "finite (dom (ref_sessions gap tss))"
  unfolding ref_sessions_def by (induction tss rule: rev_induct) (simp_all add: ref_session_finite)

lemma ref_session_step:
  assumes "0 < gap" "sessions_of gap tss S" "finite (dom S)"
  shows "session_step gap ts tss S (ref_session gap ts S) (ref_matched gap ts S)
    (i64 ((\<Sum>m\<leftarrow>ref_matched gap ts S. ms_acc m) + 1))"
proof
  show "0 < gap" "sessions_of gap tss S" by (rule assms)+
  show "\<lparr>ms_start = s, ms_end = e, ms_acc = n\<rparr> \<in> set (ref_matched gap ts S)
      \<longleftrightarrow> S s = Some (e, n) \<and> ts \<le> e + gap \<and> s - gap \<le> ts" for s e n
    using assms(3) by (auto simp: ref_matched_def image_iff)
  show "distinct (map ms_start (ref_matched gap ts S))"
    by (simp add: ref_matched_def comp_def)
qed (simp_all add: ref_session_def Let_def)

lemma ref_sessions_ok: "0 < gap \<Longrightarrow> sessions_of gap tss (ref_sessions gap tss)"
proof (induction tss rule: rev_induct)
  case Nil
  then show ?case by (simp add: ref_sessions_def sessions_of_empty)
next
  case (snoc ts tss)
  have "ref_sessions gap (tss @ [ts]) = ref_session gap ts (ref_sessions gap tss)"
    by (simp add: ref_sessions_def)
  then show ?case
    using session_step.preserved [OF ref_session_step [OF snoc.prems snoc.IH [OF snoc.prems] ref_sessions_finite]]
    by simp
qed

interpretation ref_step: session_step "max 1 gap" ts tss "ref_sessions (max 1 gap) tss"
    "ref_session (max 1 gap) ts (ref_sessions (max 1 gap) tss)" "ref_matched (max 1 gap) ts (ref_sessions (max 1 gap) tss)"
    "i64 ((\<Sum>m\<leftarrow>ref_matched (max 1 gap) ts (ref_sessions (max 1 gap) tss). ms_acc m) + 1)" for gap ts tss
  by (rule ref_session_step) (simp_all add: ref_sessions_ok ref_sessions_finite)

section \<open>Runs of the session count\<close>

definition times :: "'k \<Rightarrow> ('k \<times> 'v \<times> int) list \<Rightarrow> int list" where
  "times k rs = map (snd \<circ> snd) (filter (\<lambda>r. fst r = k) rs)"

definition session_record :: "'k Serde \<Rightarrow> int \<Rightarrow> 'k \<times> 'v \<times> int \<Rightarrow> bool" where
  "session_record keySerde gapMs = (\<lambda>(k, v, ts).
     (case Serialize keySerde k of Inr b \<Rightarrow> key_fits b | Inl _ \<Rightarrow> False) \<and> 0 \<le> ts \<and> ts + gapMs \<le> MaxInt64)"

lemma times_append: "times k (xs @ ys) = times k xs @ times k ys"
  by (simp add: times_def)

lemma times_single: "times k' [(k, v, ts)] = (if k' = k then [ts] else [])"
  by (simp add: times_def)

lemma matches_in_range:
  assumes "sessions_of gapMs tss S" "S s = Some (e, n)" "\<forall>t \<in> set tss. 0 \<le> t \<and> t + gapMs \<le> MaxInt64" "0 < gapMs" "gapMs \<le> MaxInt64"
  shows "matches gapMs ts s e \<longleftrightarrow> ts \<le> e + gapMs \<and> s - gapMs \<le> ts"
proof -
  have "s \<in> set tss" "e \<in> set tss" using assms(1,2) by (auto simp: sessions_of_def session_ok_def)
  then have "is_i64 (e + gapMs)" "is_i64 (s - gapMs)"
    using assms(3-5) by (auto simp: is_i64_def MaxInt64_def MinInt64_def)
  then show ?thesis by (simp add: matches_def i64_id)
qed

context window_op
begin

lemma session_late:
  assumes ok: "ok s" and late: "ts < i64 (i64 (max (StreamTime pc s) ts - gapMs) - graceMs)"
  shows "\<exists>s'. SessionAggregate_fn kt vt keySerde gapMs graceMs None addLate name initFn aggFn mergeFn accSerde
        (typed_record kt vt (k, v, ts)) pc s = (None, s')
    \<and> ok s' \<and> view s' = view s \<and> StreamTime pc s' = max (StreamTime pc s) ts \<and> lateCount s' = i64 (lateCount s + 1)"
proof -
  have adv: "ok (AdvanceStreamTime pc ts s)" "view (AdvanceStreamTime pc ts s) = view s"
    "StreamTime pc (AdvanceStreamTime pc ts s) = max (StreamTime pc s) ts" "lateCount (AdvanceStreamTime pc ts s) = lateCount s"
    using advance_law [OF ok, of ts] advance_late [of ts s] by simp_all
  then show ?thesis
    using late add_late_law [OF adv(1)] by (simp add: SessionAggregate_fn_def typed_record_def Let_def)
qed

end

lemma session_count_step:
  assumes op: "window_op st view ok pc name addLate lateCount kt vt keySerde countSerde"
    and st: "ok s" "window_keys (view s)" "0 \<le> StreamTime pc s" "is_i64 (StreamTime pc s)"
    and gap: "0 < gapMs" "0 \<le> graceMs" "gapMs + graceMs \<le> MaxInt64"
    and inv: "\<forall>k. sessions_of gapMs (times k past) (stable keySerde countSerde (view s) k)"
    and past: "\<forall>r \<in> set past. session_record keySerde gapMs r"
    and rec: "session_record keySerde gapMs (k, v, ts)"
  shows "\<exists>s'. SessionCount_fn kt vt keySerde gapMs graceMs None addLate name countSerde
        (typed_record kt vt (k, v, ts)) pc s = (None, s')
    \<and> ok s' \<and> window_keys (view s') \<and> StreamTime pc s' = max (StreamTime pc s) ts
    \<and> (\<forall>k'. sessions_of gapMs (times k' (past @ accepted (gapMs + graceMs) (StreamTime pc s) [(k, v, ts)]))
          (stable keySerde countSerde (view s') k'))"
proof -
  have ser: "total_serde keySerde" using op by (simp add: window_op_def)
  have fits: "key_fits (total_serde.enc keySerde k)" and ts: "0 \<le> ts" "ts + gapMs \<le> MaxInt64"
    using rec total_serde.serialize_enc [OF ser, of k] by (simp_all add: session_record_def)
  have i64ts: "is_i64 ts" using ts gap by (simp add: is_i64_def MinInt64_def)
  let ?T = "max (StreamTime pc s) ts"
  have T: "0 \<le> ?T" "is_i64 ?T" using st(3,4) i64ts by (auto simp: max_def)
  then have "is_i64 (?T - gapMs)" "is_i64 (?T - gapMs - graceMs)"
    using gap by (auto simp: is_i64_def MaxInt64_def MinInt64_def)
  then have late: "ts < i64 (i64 (?T - gapMs) - graceMs) \<longleftrightarrow> ts < ?T - (gapMs + graceMs)"
    by (simp add: i64_id algebra_simps)
  show ?thesis
  proof (cases "ts < ?T - (gapMs + graceMs)")
    case True
    then show ?thesis
      using window_op.session_late [OF op st(1), of ts gapMs graceMs count_init count_agg count_merge k v] late inv st(2)
      by (auto simp: SessionCount_fn_def)
  next
    case False
    then have nl: "\<not> ts < i64 (i64 (?T - gapMs) - graceMs)" using late by simp
    obtain s' ms where s': "SessionCount_fn kt vt keySerde gapMs graceMs None addLate name countSerde
          (typed_record kt vt (k, v, ts)) pc s = (None, s')" "ok s'" "window_keys (view s')" "StreamTime pc s' = ?T"
        "distinct (map ms_start ms)"
        "\<forall>start e a. \<lparr>ms_start = start, ms_end = e, ms_acc = a\<rparr> \<in> set ms
          \<longleftrightarrow> stable keySerde countSerde (view s) k start = Some (e, a) \<and> matches gapMs ts start e"
        "\<forall>k' start'. stable keySerde countSerde (view s') k' start'
          = (if k' = k \<and> start' = merged_start ts ms
             then Some (merged_end ts ms, count_agg k v (merged_acc k count_init count_merge ms))
             else if k' = k \<and> start' \<in> ms_start ` set ms then None
             else stable keySerde countSerde (view s) k' start')"
      using window_op.session_accept [OF op st(1,2) fits i64ts nl, of count_init count_agg count_merge v]
      unfolding SessionCount_fn_def by blast
    have range: "\<forall>t \<in> set (times k past). 0 \<le> t \<and> t + gapMs \<le> MaxInt64"
      using past by (auto simp: times_def session_record_def)
    have "session_step gapMs ts (times k past) (stable keySerde countSerde (view s) k)
        (stable keySerde countSerde (view s') k) ms (count_agg k v (merged_acc k count_init count_merge ms))"
    proof
      show "\<lparr>ms_start = b, ms_end = e, ms_acc = n\<rparr> \<in> set ms \<longleftrightarrow>
          stable keySerde countSerde (view s) k b = Some (e, n) \<and> ts \<le> e + gapMs \<and> b - gapMs \<le> ts" for b e n
        using s'(6) matches_in_range [OF _ _ range gap(1)] inv gap by fastforce
    qed (use gap inv s'(5,7) in \<open>simp_all add: merged_count_i64\<close>)
    then have "sessions_of gapMs (times k past @ [ts]) (stable keySerde countSerde (view s') k)"
      by (rule session_step.preserved)
    moreover have "stable keySerde countSerde (view s') k' = stable keySerde countSerde (view s) k'" if "k' \<noteq> k" for k'
      using that s'(7) by (simp add: fun_eq_iff)
    ultimately have "\<forall>k'. sessions_of gapMs (times k' (past @ [(k, v, ts)])) (stable keySerde countSerde (view s') k')"
      using inv by (auto simp: times_append times_single)
    then show ?thesis using s'(1-4) False by auto
  qed
qed

lemma accepted_Cons: "accepted l T (r # rs) = accepted l T [r] @ accepted l (max T (snd (snd r))) rs"
  by (cases r) simp

lemma accepted_subset: "set (accepted l T rs) \<subseteq> set rs"
  by (induction l T rs rule: accepted.induct) auto

lemma session_count_feed:
  assumes op: "window_op st view ok pc name addLate lateCount kt vt keySerde countSerde"
    and gap: "0 < gapMs" "0 \<le> graceMs" "gapMs + graceMs \<le> MaxInt64"
  shows "ok s \<Longrightarrow> window_keys (view s) \<Longrightarrow> 0 \<le> StreamTime pc s \<Longrightarrow> is_i64 (StreamTime pc s) \<Longrightarrow>
    \<forall>k. sessions_of gapMs (times k past) (stable keySerde countSerde (view s) k) \<Longrightarrow>
    \<forall>r \<in> set past. session_record keySerde gapMs r \<Longrightarrow> \<forall>r \<in> set kvs. session_record keySerde gapMs r \<Longrightarrow>
    \<exists>s'. feed (SessionCount_fn kt vt keySerde gapMs graceMs None addLate name countSerde) pc
        (map (typed_record kt vt) kvs) s = (None, s')
      \<and> (\<forall>k. sessions_of gapMs (times k (past @ accepted (gapMs + graceMs) (StreamTime pc s) kvs))
          (stable keySerde countSerde (view s') k))"
proof (induction kvs arbitrary: s past)
  case Nil
  then show ?case by simp
next
  case (Cons r kvs)
  obtain k v ts where r: "r = (k, v, ts)" by (cases r)
  have rec: "session_record keySerde gapMs (k, v, ts)" using Cons.prems(7) r by simp
  obtain s1 where s1: "SessionCount_fn kt vt keySerde gapMs graceMs None addLate name countSerde
        (typed_record kt vt (k, v, ts)) pc s = (None, s1)"
      "ok s1" "window_keys (view s1)" "StreamTime pc s1 = max (StreamTime pc s) ts"
      "\<forall>k'. sessions_of gapMs (times k' (past @ accepted (gapMs + graceMs) (StreamTime pc s) [(k, v, ts)]))
          (stable keySerde countSerde (view s1) k')"
    using session_count_step [OF op Cons.prems(1-4) gap Cons.prems(5,6) rec] by blast
  have T: "0 \<le> StreamTime pc s1" "is_i64 (StreamTime pc s1)"
    using s1(4) Cons.prems(3,4) rec gap by (auto simp: max_def session_record_def is_i64_def MinInt64_def)
  have past: "\<forall>r \<in> set (past @ accepted (gapMs + graceMs) (StreamTime pc s) [(k, v, ts)]). session_record keySerde gapMs r"
    using Cons.prems(6) rec accepted_subset [of "gapMs + graceMs" "StreamTime pc s" "[(k, v, ts)]"] by auto
  have kvs: "\<forall>r \<in> set kvs. session_record keySerde gapMs r" using Cons.prems(7) by simp
  show ?case
    using Cons.IH [OF s1(2,3) T s1(5) past kvs] s1(1,4) r
    by (simp add: accepted_Cons [of _ _ "(k, v, ts)" kvs] del: accepted.simps)
qed

section \<open>Properties\<close>

text \<open>
  C6: Session counts. From an empty store, feeding any sequence of records to the session \<open>Count\<close>
  succeeds, and for every key the stored sessions are exactly the sessions of the accepted
  records: each starts and ends at an accepted record and holds the number of accepted records
  between its bounds, neighbouring records of a session are at most the gap apart, every
  accepted record lies in a session, and two sessions of a key are more than the gap apart.
\<close>

theorem session_count_exact:
  assumes "go_type kt" "go_type vt" "total_serde keySerde" "total_serde countSerde"
    and "mem_ctx_ok name s" "mem_ctx_view name s = Map.empty"
    and "es_streamTime s = Some T" "0 \<le> T" "is_i64 T"
    and "0 < gapMs" "0 \<le> graceMs" "gapMs + graceMs \<le> MaxInt64"
    and "\<forall>r \<in> set kvs. session_record keySerde gapMs r"
  shows "\<exists>s'. feed (SessionCount_fn kt vt keySerde gapMs graceMs None (add_late c) name countSerde)
        (sink_ctx sinks [name]) (map (typed_record kt vt) kvs) s = (None, s')
    \<and> (\<forall>k. sessions_of gapMs (times k (accepted (gapMs + graceMs) T kvs))
          (stable keySerde countSerde (mem_ctx_view name s') k))"
proof -
  have op: "window_op (lift_store (mem_store name)) (mem_ctx_view name) (mem_ctx_ok name)
      (sink_ctx sinks [name]) name (add_late c) (late_count c) kt vt keySerde countSerde"
    by (rule mem_window_op [OF assms(1-4)])
  have T: "StreamTime (sink_ctx sinks [name]) s = T"
    using assms(7) by (simp add: sink_ctx_def processorCtxImpl_def ctx_StreamTime_def)
  have empty: "stable keySerde countSerde (mem_ctx_view name s) k = Map.empty" for k
    by (rule ext) (simp add: stable_def assms(6) split: sum.split)
  show ?thesis
    using session_count_feed [OF op assms(10-12,5), of "[]" kvs] assms(6,8,9,13) T empty
    by (simp add: times_def sessions_of_empty)
qed

text \<open>
  The encoding of a session value, its end and the accumulator bytes, is read back unchanged,
  and everything the decoder accepts is such an encoding.
\<close>

theorem session_value_roundtrip:
  assumes "is_i64 sessionEnd"
  shows "DecodeSessionValue (EncodeSessionValue sessionEnd accBytes) = Inr (sessionEnd, accBytes)
    \<and> (\<forall>raw. DecodeSessionValue raw = Inr (sessionEnd, accBytes) \<longleftrightarrow> raw = EncodeSessionValue sessionEnd accBytes)
    \<and> (\<forall>raw. (\<exists>err. DecodeSessionValue raw = Inl err) \<longleftrightarrow> length raw < 8)"
  using decode_encode_session [OF assms] encode_decode_session decode_session_err by blast

section \<open>Witnesses\<close>

theorem session_count_exact_witness:
  "\<exists>s'. feed (SessionCount_fn bytes_type bytes_type bytesserde 5 0 None (add_late ''c'') ''s'' tally_serde)
        (sink_ctx [''out''] [''s'']) (map (typed_record bytes_type bytes_type) [([1], [], 10), ([1], [], 14), ([1], [], 30)])
        (one_store ''s'') = (None, s')
    \<and> sessions_of 5 [10, 14, 30] (stable bytesserde tally_serde (mem_ctx_view ''s'' s') [1])"
proof -
  let ?kvs = "[([1], [], 10), ([1], [], 14), ([1], [], 30)] :: (bytes \<times> bytes \<times> int) list"
  have ok: "mem_ctx_ok ''s'' (one_store ''s'')" by (simp add: one_store_ok)
  have st: "es_streamTime (one_store ''s'') = Some 0" by (simp add: one_store_def)
  have side: "0 \<le> (0 :: int)" "is_i64 0" "0 < (5 :: int)" "5 + 0 \<le> MaxInt64"
    by (simp_all add: is_i64_def MinInt64_def MaxInt64_def)
  have recs: "\<forall>r \<in> set ?kvs. session_record bytesserde 5 r"
    by (simp add: session_record_def bytesserde_def key_fits_def MaxInt64_def)
  have acc: "times [1] (accepted (5 + 0) 0 ?kvs) = [10, 14, 30]" by (simp add: times_def)
  show ?thesis
    using session_count_exact [OF bytes_ty.go_type_axioms bytes_ty.go_type_axioms bytes_sd.total_serde_axioms
        tally.total_serde_axioms ok one_store_empty st side(1,2,3,1,4) recs, of "''c''" "[''out'']"]
    by - (erule exE, elim conjE, intro exI conjI, assumption, drule spec [of _ "[1]"], simp only: acc)
qed

theorem session_value_roundtrip_witness:
  "DecodeSessionValue (EncodeSessionValue 7 [1, 2]) = Inr (7, [1, 2])"
  using session_value_roundtrip [of 7 "[1, 2]"] by (simp add: is_i64_def MinInt64_def MaxInt64_def)

end
