(* ===== verification/SSJoin.thy ===== *)
theory SSJoin
  imports Windowed
begin

text \<open>
  \<open>ssjoin.go\<close>: the windowed join of two streams. Each side buffers its records in a window store
  of its own and scans the store of the other side for the timestamps its window covers.
\<close>

section \<open>Definitions\<close>

definition ssJoinScanBounds :: "bytes \<Rightarrow> int \<Rightarrow> int \<Rightarrow> int \<Rightarrow> int \<Rightarrow> bytes \<times> bytes" where
  "ssJoinScanBounds kBytes ts beforeMs afterMs graceMs =
     (let sub = i64 (beforeMs + graceMs);
          loMs = (if ts > sub then i64 (ts - sub) else 0);
          hiMs = (if afterMs > 0 \<and> ts > i64 (MaxInt64 - afterMs) then MaxInt64 else i64 (ts + afterMs))
      in (CompositeKey kBytes loMs, CompositeKey kBytes (i64 (hiMs + 1))))"

text \<open>
  The visitor of a scan: it decodes the value of the other side and forwards the joined record; a
  value that does not decode stops the scan with an error.
\<close>

primrec ssjoin_visit :: "string \<Rightarrow> string \<Rightarrow> 'w Serde \<Rightarrow> ('w \<Rightarrow> 's \<Rightarrow> 's) \<Rightarrow> (bytes \<times> bytes) list \<Rightarrow> error option
    \<Rightarrow> 's \<Rightarrow> error option \<times> 's" where
  "ssjoin_visit rangeMsg decodeMsg serde emit [] err s = (map_option (\<lambda>e. Wrap rangeMsg [e]) err, s)"
| "ssjoin_visit rangeMsg decodeMsg serde emit (e # es) err s =
     (case Deserialize serde (snd e) of
        Inl dErr \<Rightarrow> (Some (Wrap decodeMsg [dErr]), s)
      | Inr w \<Rightarrow> ssjoin_visit rangeMsg decodeMsg serde emit es err (emit w s))"

definition JoinLeft_fn :: "('a, 'k) gotype \<Rightarrow> ('a, 'v) gotype \<Rightarrow> ('a, 'x) gotype \<Rightarrow> 'k Serde \<Rightarrow> 'v Serde \<Rightarrow> 'w Serde
    \<Rightarrow> JoinWindows \<Rightarrow> string \<Rightarrow> string \<Rightarrow> ('v \<Rightarrow> 'w \<Rightarrow> 'x) \<Rightarrow> ('s, 'a) StatefulProcessFunc" where
  "JoinLeft_fn kt vt xt keySerde leftSerde rightSerde windows leftStoreName rightStoreName joiner r pc s0 =
     (let winDef = newJoinWindowDef windows;
          beforeMs = Milliseconds (jw_Before windows);
          afterMs = Milliseconds (jw_After windows);
          graceMs = Milliseconds (jw_Grace windows);
          ts = r_Timestamp r;
          s = AdvanceStreamTime pc ts s0;
          lateBoundary = i64 (i64 (StreamTime pc s - MaxSizeMs winDef) - graceMs)
      in if ts < lateBoundary then (None, s)
         else errOf
           (bindE (assertE ''ssjoin left: key type mismatch'' (type_assert kt (r_Key r))) (\<lambda>k.
            bindE (assertE ''ssjoin left: value type mismatch'' (type_assert vt (r_Value r))) (\<lambda>v1.
            bindE (wrapE ''ssjoin left: encode key'' (pureE (Serialize keySerde k))) (\<lambda>kBytes.
            bindE (wrapE ''ssjoin left: encode value'' (pureE (Serialize leftSerde v1))) (\<lambda>v1Bytes.
            bindE (wiredE ''ssjoin left: store not wired'' ''ssjoin left: store type mismatch''
                     (CtxStore pc leftStoreName)) (\<lambda>leftStore.
            bindE (wrapE ''ssjoin left: WindowPut'' (doE (WindowPut leftStore kBytes ts v1Bytes))) (\<lambda>_.
            bindE (wiredE ''ssjoin left: right store not wired'' ''ssjoin left: right store type mismatch''
                     (CtxStore pc rightStoreName)) (\<lambda>rightStore.
            (case ssJoinScanBounds kBytes ts beforeMs afterMs graceMs of (lower, upper) \<Rightarrow>
            (\<lambda>s1. case RangeCompositeBytes rightStore lower upper s1 of (entries, err) \<Rightarrow>
               doE (ssjoin_visit ''ssjoin left: RangeCompositeBytes'' ''ssjoin left: decode right value'' rightSerde
                 (\<lambda>v2. Forward pc \<lparr>r_Key = box kt k, r_Value = box xt (joiner v1 v2), r_Timestamp = ts\<rparr>)
                 entries err) s1)))))))))) s)"

definition JoinRight_fn :: "('a, 'k) gotype \<Rightarrow> ('a, 'w) gotype \<Rightarrow> ('a, 'x) gotype \<Rightarrow> 'k Serde \<Rightarrow> 'v Serde \<Rightarrow> 'w Serde
    \<Rightarrow> JoinWindows \<Rightarrow> string \<Rightarrow> string \<Rightarrow> ('v \<Rightarrow> 'w \<Rightarrow> 'x) \<Rightarrow> ('s, 'a) StatefulProcessFunc" where
  "JoinRight_fn kt wt xt keySerde leftSerde rightSerde windows leftStoreName rightStoreName joiner r pc s0 =
     (let winDef = newJoinWindowDef windows;
          beforeMs = Milliseconds (jw_Before windows);
          afterMs = Milliseconds (jw_After windows);
          graceMs = Milliseconds (jw_Grace windows);
          ts = r_Timestamp r;
          s = AdvanceStreamTime pc ts s0;
          lateBoundary = i64 (i64 (StreamTime pc s - MaxSizeMs winDef) - graceMs)
      in if ts < lateBoundary then (None, s)
         else errOf
           (bindE (assertE ''ssjoin right: key type mismatch'' (type_assert kt (r_Key r))) (\<lambda>k.
            bindE (assertE ''ssjoin right: value type mismatch'' (type_assert wt (r_Value r))) (\<lambda>v2.
            bindE (wrapE ''ssjoin right: encode key'' (pureE (Serialize keySerde k))) (\<lambda>kBytes.
            bindE (wrapE ''ssjoin right: encode value'' (pureE (Serialize rightSerde v2))) (\<lambda>v2Bytes.
            bindE (wiredE ''ssjoin right: store not wired'' ''ssjoin right: store type mismatch''
                     (CtxStore pc rightStoreName)) (\<lambda>rightStore.
            bindE (wrapE ''ssjoin right: WindowPut'' (doE (WindowPut rightStore kBytes ts v2Bytes))) (\<lambda>_.
            bindE (wiredE ''ssjoin right: left store not wired'' ''ssjoin right: left store type mismatch''
                     (CtxStore pc leftStoreName)) (\<lambda>leftStore.
            (case ssJoinScanBounds kBytes ts beforeMs afterMs graceMs of (lower, upper) \<Rightarrow>
            (\<lambda>s1. case RangeCompositeBytes leftStore lower upper s1 of (entries, err) \<Rightarrow>
               doE (ssjoin_visit ''ssjoin right: RangeCompositeBytes'' ''ssjoin right: decode left value'' leftSerde
                 (\<lambda>v1. Forward pc \<lparr>r_Key = box kt k, r_Value = box xt (joiner v1 v2), r_Timestamp = ts\<rparr>)
                 entries err) s1)))))))))) s)"

section \<open>The scanned range\<close>

text \<open>The timestamps a record at \<open>ts\<close> joins with.\<close>

definition join_range :: "int \<Rightarrow> int \<Rightarrow> int \<Rightarrow> int \<Rightarrow> int \<Rightarrow> bool" where
  "join_range ts beforeMs afterMs graceMs t \<longleftrightarrow> max 0 (ts - beforeMs - graceMs) \<le> t \<and> t \<le> ts + afterMs"

lemma CompositeKey_less_other:
  assumes "key_fits k" "key_fits k'" "k' \<noteq> k" "is_i64 a" "is_i64 b" "is_i64 t"
  shows "\<not> (CompositeKey k a \<le> CompositeKey k' t \<and> CompositeKey k' t < CompositeKey k b)"
proof
  assume *: "CompositeKey k a \<le> CompositeKey k' t \<and> CompositeKey k' t < CompositeKey k b"
  then obtain r where "CompositeKey k' t = key_prefix k @ r"
    using between_prefix_extension by (metis CompositeKey_prefix)
  then have "prefix (key_prefix k) (key_prefix k' @ be_bytes 8 t)"
    by (simp add: prefix_def CompositeKey_prefix)
  then show False using key_prefix_same_length assms(1-3) by blast
qed

lemma CompositeKey_less_min:
  assumes "0 \<le> t" "t \<le> MaxInt64"
  shows "CompositeKey k t < CompositeKey k MinInt64"
proof -
  have "be_val (be_bytes 8 t) < be_val (be_bytes 8 MinInt64)"
    using assms by (simp add: be_val_be_bytes MinInt64_def MaxInt64_def)
  then show ?thesis
    by (simp add: CompositeKey_prefix append_less_append be_val_less_iff)
qed

lemma scan_bounds:
  assumes "0 \<le> ts" "ts \<le> MaxInt64" "0 \<le> beforeMs" "0 \<le> afterMs" "0 \<le> graceMs"
    and "beforeMs + graceMs \<le> MaxInt64" "afterMs \<le> MaxInt64" "0 \<le> t" "t \<le> MaxInt64"
    and b: "ssJoinScanBounds k ts beforeMs afterMs graceMs = (lower, upper)"
  shows "lower \<le> CompositeKey k t \<and> CompositeKey k t < upper \<longleftrightarrow> join_range ts beforeMs afterMs graceMs t"
proof -
  have i: "i64 (beforeMs + graceMs) = beforeMs + graceMs" "i64 (MaxInt64 - afterMs) = MaxInt64 - afterMs"
    using assms by (simp_all add: i64_id is_i64_def MinInt64_def)
  define lo where "lo = max 0 (ts - beforeMs - graceMs)"
  define hi where "hi = min MaxInt64 (ts + afterMs)"
  have "(if ts > beforeMs + graceMs then i64 (ts - (beforeMs + graceMs)) else 0) = lo"
    using assms by (simp add: lo_def i64_id is_i64_def MinInt64_def)
  moreover have "(if afterMs > 0 \<and> ts > MaxInt64 - afterMs then MaxInt64 else i64 (ts + afterMs)) = hi"
    using assms by (auto simp: hi_def i64_id is_i64_def MinInt64_def MaxInt64_def)
  ultimately have bounds: "lower = CompositeKey k lo" "upper = CompositeKey k (i64 (hi + 1))"
    using b by (simp_all add: ssJoinScanBounds_def Let_def i)
  have lo: "0 \<le> lo" "lo \<le> MaxInt64" using assms by (auto simp: lo_def)
  have hi: "0 \<le> hi" "hi \<le> MaxInt64" using assms by (auto simp: hi_def MaxInt64_def)
  have "CompositeKey k lo \<le> CompositeKey k t \<longleftrightarrow> lo \<le> t"
    using CompositeKey_less_iff [OF assms(8,9) lo, of k] by (simp add: not_less flip: linorder_not_less)
  moreover have "CompositeKey k t < CompositeKey k (i64 (hi + 1)) \<longleftrightarrow> t \<le> hi"
  proof (cases "hi = MaxInt64")
    case True
    then have "i64 (hi + 1) = MinInt64" by (simp add: i64_def MaxInt64_def MinInt64_def)
    then show ?thesis using CompositeKey_less_min [OF assms(8,9)] True assms(9) by simp
  next
    case False
    then have "i64 (hi + 1) = hi + 1" using hi by (simp add: i64_id is_i64_def MinInt64_def)
    then show ?thesis using CompositeKey_less_iff [OF assms(8,9), of "hi + 1" k] hi False by simp
  qed
  moreover have "t \<le> hi \<longleftrightarrow> t \<le> ts + afterMs" using assms(9) by (simp add: hi_def)
  ultimately show ?thesis by (simp add: bounds join_range_def lo_def)
qed

lemma scan_bounds_i64:
  assumes "ssJoinScanBounds k ts beforeMs afterMs graceMs = (lower, upper)"
  shows "\<exists>a b. is_i64 a \<and> is_i64 b \<and> lower = CompositeKey k a \<and> upper = CompositeKey k b"
proof -
  have "is_i64 (if c then i64 x else 0)" for c x
    using i64_range [of x] by (simp add: is_i64_def MinInt64_def MaxInt64_def)
  then show ?thesis
    using assms i64_range unfolding ssJoinScanBounds_def Let_def by blast
qed

section \<open>What a record joins with\<close>

text \<open>The keys of a store that buffers records with non-negative timestamps.\<close>

definition join_keys :: "(bytes \<rightharpoonup> bytes) \<Rightarrow> bool" where
  "join_keys m \<longleftrightarrow> finite (dom m)
     \<and> (\<forall>c \<in> dom m. \<exists>k t. key_fits k \<and> 0 \<le> t \<and> t \<le> MaxInt64 \<and> c = CompositeKey k t)"

text \<open>The buffered values of the key in the window of a record at \<open>ts\<close>, in timestamp order.\<close>

definition partners :: "(bytes \<rightharpoonup> bytes) \<Rightarrow> bytes \<Rightarrow> int \<Rightarrow> int \<Rightarrow> int \<Rightarrow> int \<Rightarrow> bytes list" where
  "partners m kBytes ts beforeMs afterMs graceMs =
     map (\<lambda>t. the (m (CompositeKey kBytes t)))
       (sorted_list_of_set {t. 0 \<le> t \<and> t \<le> MaxInt64 \<and> CompositeKey kBytes t \<in> dom m
          \<and> join_range ts beforeMs afterMs graceMs t})"

lemma scan_partners:
  assumes "0 \<le> ts" "ts \<le> MaxInt64" "0 \<le> beforeMs" "0 \<le> afterMs" "0 \<le> graceMs"
    and "beforeMs + graceMs \<le> MaxInt64" "afterMs \<le> MaxInt64" "key_fits k" "join_keys m"
    and b: "ssJoinScanBounds k ts beforeMs afterMs graceMs = (lower, upper)"
  shows "map snd (entries_between lower upper m) = partners m k ts beforeMs afterMs graceMs"
proof -
  let ?T = "{t. 0 \<le> t \<and> t \<le> MaxInt64 \<and> CompositeKey k t \<in> dom m \<and> join_range ts beforeMs afterMs graceMs t}"
  let ?C = "{c \<in> dom m. lower \<le> c \<and> c < upper}"
  have i64: "is_i64 t" if "0 \<le> t" "t \<le> MaxInt64" for t using that by (simp add: is_i64_def MinInt64_def)
  have img: "?C = CompositeKey k ` ?T"
  proof (intro equalityI subsetI)
    fix c assume c: "c \<in> ?C"
    then obtain k' t where k': "key_fits k'" "0 \<le> t" "t \<le> MaxInt64" "c = CompositeKey k' t"
      using assms(9) unfolding join_keys_def by blast
    have "k' = k"
      using c k' CompositeKey_less_other [OF assms(8) k'(1)] scan_bounds_i64 [OF b] i64 by blast
    then show "c \<in> CompositeKey k ` ?T"
      using c k' scan_bounds [OF assms(1-7) k'(2,3) b] by auto
  next
    fix c assume "c \<in> CompositeKey k ` ?T"
    then show "c \<in> ?C" using scan_bounds [OF assms(1-7) _ _ b] by auto
  qed
  have inj: "inj_on (CompositeKey k) ?T"
    using CompositeKey_inject [OF assms(8,8)] i64 by (auto simp: inj_on_def)
  have fin: "finite ?C" using assms(9) by (simp add: join_keys_def)
  then have finT: "finite ?T" using inj unfolding img by (rule finite_imageD)
  have "sorted_wrt (<) (sorted_list_of_set ?T)" by simp
  then have "sorted_wrt (<) (map (CompositeKey k) (sorted_list_of_set ?T))"
    unfolding sorted_wrt_map
    by (rule sorted_wrt_mono_rel [rotated]) (use finT CompositeKey_less_iff in auto)
  then have "sorted (map (CompositeKey k) (sorted_list_of_set ?T))" "distinct (map (CompositeKey k) (sorted_list_of_set ?T))"
    by (simp_all only: strict_sorted_iff)
  then have "sorted_list_of_set ?C = map (CompositeKey k) (sorted_list_of_set ?T)"
    using fin finT img by (intro sorted_distinct_set_unique) auto
  then show ?thesis
    by (simp add: entries_between_def partners_def comp_def)
qed

locale join_ctx = l: byte_store lst lview lok + r: byte_store rst rview rok
  for lst rst :: "'s Store" and lview rview :: "'s \<Rightarrow> bytes \<rightharpoonup> bytes" and lok rok :: "'s \<Rightarrow> bool" +
  fixes pc :: "('s, 'a) ProcessorContext" and lname rname :: string
  assumes l_store [simp]: "CtxStore pc lname = IsStore lst"
    and r_store [simp]: "CtxStore pc rname = IsStore rst"
    and advance: "lok s \<Longrightarrow> rok s \<Longrightarrow> lok (AdvanceStreamTime pc t s) \<and> rok (AdvanceStreamTime pc t s)
      \<and> lview (AdvanceStreamTime pc t s) = lview s \<and> rview (AdvanceStreamTime pc t s) = rview s
      \<and> StreamTime pc (AdvanceStreamTime pc t s) = max (StreamTime pc s) t"
    and l_put_r: "lok s \<Longrightarrow> rok s \<Longrightarrow> WindowPut lst k t v s = (e, s') \<Longrightarrow> rok s' \<and> rview s' = rview s"
    and r_put_l: "lok s \<Longrightarrow> rok s \<Longrightarrow> WindowPut rst k t v s = (e, s') \<Longrightarrow> lok s' \<and> lview s' = lview s"

text \<open>Visiting values that decode forwards one joined record for each, in order.\<close>

lemma ssjoin_visit_decodes:
  "list_all2 (\<lambda>e w. Deserialize serde (snd e) = Inr w) es ws \<Longrightarrow>
    ssjoin_visit m1 m2 serde emit es None s = (None, fold emit ws s)"
  by (induction es ws arbitrary: s rule: list_all2_induct) simp_all

definition all_decode :: "'w Serde \<Rightarrow> (bytes \<rightharpoonup> bytes) \<Rightarrow> bool" where
  "all_decode serde m \<longleftrightarrow> (\<forall>c v. m c = Some v \<longrightarrow> (\<exists>w. Deserialize serde v = Inr w))"

definition decoded :: "'w Serde \<Rightarrow> bytes \<Rightarrow> 'w" where
  "decoded serde b = (case Deserialize serde b of Inr w \<Rightarrow> w | Inl _ \<Rightarrow> undefined)"

lemma visit_entries:
  assumes "all_decode serde m" "finite (dom m)"
  shows "ssjoin_visit m1 m2 serde emit (entries_between lower upper m) None s
    = (None, fold emit (map (decoded serde) (map snd (entries_between lower upper m))) s)"
proof (rule ssjoin_visit_decodes)
  have "Deserialize serde (snd e) = Inr (decoded serde (snd e))" if "e \<in> set (entries_between lower upper m)" for e
  proof -
    have "m (fst e) = Some (snd e)"
      using that entries_between_set [OF assms(2), of "fst e" "snd e" lower upper] by simp
    then obtain w where "Deserialize serde (snd e) = Inr w"
      using assms(1) unfolding all_decode_def by blast
    then show ?thesis by (simp add: decoded_def)
  qed
  then show "list_all2 (\<lambda>e w. Deserialize serde (snd e) = Inr w) (entries_between lower upper m)
      (map (decoded serde) (map snd (entries_between lower upper m)))"
    by (simp add: list_all2_conv_all_nth)
qed

context join_ctx
begin

lemma join_left:
  assumes "go_type kt" "go_type vt" "total_serde keySerde" "total_serde leftSerde"
    and st: "lok s" "rok s" and rv: "join_keys (rview s)" "all_decode rightSerde (rview s)"
    and w: "b = Milliseconds (jw_Before jw)" "a = Milliseconds (jw_After jw)" "g = Milliseconds (jw_Grace jw)"
      "0 \<le> b" "0 \<le> a" "0 \<le> g" "a + b + g \<le> MaxInt64"
    and rec: "0 \<le> ts" "ts \<le> MaxInt64" "0 \<le> StreamTime pc s" "StreamTime pc s \<le> MaxInt64"
    and key: "Serialize keySerde k = Inr kb" "key_fits kb" "Serialize leftSerde v = Inr vb"
    and acc: "max (StreamTime pc s) ts - (a + b + g) \<le> ts"
  shows "\<exists>s1. JoinLeft_fn kt vt xt keySerde leftSerde rightSerde jw lname rname joiner (typed_record kt vt (k, v, ts)) pc s
      = (None, fold (\<lambda>w. Forward pc \<lparr>r_Key = box kt k, r_Value = box xt (joiner v w), r_Timestamp = ts\<rparr>)
          (map (decoded rightSerde) (partners (rview s) kb ts b a g)) s1)
    \<and> s1 = snd (WindowPut lst kb ts vb (AdvanceStreamTime pc ts s))
    \<and> lview s1 = (lview s)(CompositeKey kb ts \<mapsto> vb) \<and> rview s1 = rview s"
proof -
  let ?s = "AdvanceStreamTime pc ts s"
  have adv: "lok ?s" "rok ?s" "lview ?s = lview s" "rview ?s = rview s" "StreamTime pc ?s = max (StreamTime pc s) ts"
    using advance [OF st] by simp_all
  obtain e s1 where put: "WindowPut lst kb ts vb ?s = (e, s1)" by fastforce
  have s1: "e = None" "lok s1" "lview s1 = (lview s)(CompositeKey kb ts \<mapsto> vb)"
    using l.window_put_law [OF adv(1) put] adv(3) by auto
  have r1: "rok s1" "rview s1 = rview s" using l_put_r [OF adv(1,2) put] adv(4) by auto
  obtain lower upper where lu: "ssJoinScanBounds kb ts b a g = (lower, upper)" by fastforce
  have max: "MaxSizeMs (newJoinWindowDef jw) = a + b"
    using w by (simp add: newJoinWindowDef_def i64_id is_i64_def MinInt64_def algebra_simps)
  have "is_i64 (max (StreamTime pc s) ts - (a + b))" "is_i64 (max (StreamTime pc s) ts - (a + b) - g)"
    using rec w by (auto simp: is_i64_def MaxInt64_def MinInt64_def)
  then have nl: "\<not> ts < i64 (i64 (max (StreamTime pc s) ts - (a + b)) - g)"
    using acc by (simp add: i64_id)
  have scan: "map snd (entries_between lower upper (rview s)) = partners (rview s) kb ts b a g"
    using scan_partners [OF rec(1,2) w(4-6) _ _ key(2) rv(1) lu] w by simp
  have fin: "finite (dom (rview s))" using rv(1) by (simp add: join_keys_def)
  have visit: "ssjoin_visit m1 m2 rightSerde emit (entries_between lower upper (rview s)) None s1
      = (None, fold emit (map (decoded rightSerde) (partners (rview s) kb ts b a g)) s1)" for m1 m2 emit
    unfolding visit_entries [OF rv(2) fin] scan ..
  have "JoinLeft_fn kt vt xt keySerde leftSerde rightSerde jw lname rname joiner (typed_record kt vt (k, v, ts)) pc s
      = (None, fold (\<lambda>w. Forward pc \<lparr>r_Key = box kt k, r_Value = box xt (joiner v w), r_Timestamp = ts\<rparr>)
          (map (decoded rightSerde) (partners (rview s) kb ts b a g)) s1)"
    using nl put s1(1) lu w(1-3) key r.range_composite_law [OF r1(1), of lower upper] r1(2) visit
      go_type.assert_box [OF assms(1)] go_type.assert_box [OF assms(2)]
    by (simp add: JoinLeft_fn_def typed_record_def Let_def act_simps max adv(5))
  then show ?thesis using s1(3) r1(2) put by auto
qed

lemma join_right:
  assumes "go_type kt" "go_type vt" "total_serde keySerde" "total_serde rightSerde"
    and st: "lok s" "rok s" and rv: "join_keys (lview s)" "all_decode leftSerde (lview s)"
    and w: "b = Milliseconds (jw_Before jw)" "a = Milliseconds (jw_After jw)" "g = Milliseconds (jw_Grace jw)"
      "0 \<le> b" "0 \<le> a" "0 \<le> g" "a + b + g \<le> MaxInt64"
    and rec: "0 \<le> ts" "ts \<le> MaxInt64" "0 \<le> StreamTime pc s" "StreamTime pc s \<le> MaxInt64"
    and key: "Serialize keySerde k = Inr kb" "key_fits kb" "Serialize rightSerde v = Inr vb"
    and acc: "max (StreamTime pc s) ts - (a + b + g) \<le> ts"
  shows "\<exists>s1. JoinRight_fn kt vt xt keySerde leftSerde rightSerde jw lname rname joiner (typed_record kt vt (k, v, ts)) pc s
      = (None, fold (\<lambda>w. Forward pc \<lparr>r_Key = box kt k, r_Value = box xt (joiner w v), r_Timestamp = ts\<rparr>)
          (map (decoded leftSerde) (partners (lview s) kb ts b a g)) s1)
    \<and> s1 = snd (WindowPut rst kb ts vb (AdvanceStreamTime pc ts s))
    \<and> rview s1 = (rview s)(CompositeKey kb ts \<mapsto> vb) \<and> lview s1 = lview s"
proof -
  let ?s = "AdvanceStreamTime pc ts s"
  have adv: "lok ?s" "rok ?s" "lview ?s = lview s" "rview ?s = rview s" "StreamTime pc ?s = max (StreamTime pc s) ts"
    using advance [OF st] by simp_all
  obtain e s1 where put: "WindowPut rst kb ts vb ?s = (e, s1)" by fastforce
  have s1: "e = None" "rok s1" "rview s1 = (rview s)(CompositeKey kb ts \<mapsto> vb)"
    using r.window_put_law [OF adv(2) put] adv(4) by auto
  have r1: "lok s1" "lview s1 = lview s" using r_put_l [OF adv(1,2) put] adv(3) by auto
  obtain lower upper where lu: "ssJoinScanBounds kb ts b a g = (lower, upper)" by fastforce
  have max: "MaxSizeMs (newJoinWindowDef jw) = a + b"
    using w by (simp add: newJoinWindowDef_def i64_id is_i64_def MinInt64_def algebra_simps)
  have "is_i64 (max (StreamTime pc s) ts - (a + b))" "is_i64 (max (StreamTime pc s) ts - (a + b) - g)"
    using rec w by (auto simp: is_i64_def MaxInt64_def MinInt64_def)
  then have nl: "\<not> ts < i64 (i64 (max (StreamTime pc s) ts - (a + b)) - g)"
    using acc by (simp add: i64_id)
  have scan: "map snd (entries_between lower upper (lview s)) = partners (lview s) kb ts b a g"
    using scan_partners [OF rec(1,2) w(4-6) _ _ key(2) rv(1) lu] w by simp
  have fin: "finite (dom (lview s))" using rv(1) by (simp add: join_keys_def)
  have visit: "ssjoin_visit m1 m2 leftSerde emit (entries_between lower upper (lview s)) None s1
      = (None, fold emit (map (decoded leftSerde) (partners (lview s) kb ts b a g)) s1)" for m1 m2 emit
    unfolding visit_entries [OF rv(2) fin] scan ..
  have "JoinRight_fn kt vt xt keySerde leftSerde rightSerde jw lname rname joiner (typed_record kt vt (k, v, ts)) pc s
      = (None, fold (\<lambda>w. Forward pc \<lparr>r_Key = box kt k, r_Value = box xt (joiner w v), r_Timestamp = ts\<rparr>)
          (map (decoded leftSerde) (partners (lview s) kb ts b a g)) s1)"
    using nl put s1(1) lu w(1-3) key l.range_composite_law [OF r1(1), of lower upper] r1(2) visit
      go_type.assert_box [OF assms(1)] go_type.assert_box [OF assms(2)]
    by (simp add: JoinRight_fn_def typed_record_def Let_def act_simps max adv(5))
  then show ?thesis using s1(3) r1(2) put by auto
qed

end

section \<open>The join over in-memory stores\<close>

lemma lifted_put_other:
  assumes "store_name_ok n" "store_name_ok n'" "n \<noteq> n'"
    and "mem_ctx_ok n s" "mem_ctx_ok n' s" "WindowPut (lift_store (mem_store n)) k t v s = (e, s')"
  shows "mem_ctx_ok n' s' \<and> mem_ctx_view n' s' = mem_ctx_view n' s"
proof -
  have d: "es_data s' = snd (WindowPut (mem_store n) k t v (es_data s))" "es_streamTime s' = es_streamTime s"
    using assms(6) by (auto simp: lift_store_def lift_update_def split: prod.splits)
  have "mem_ok n' (snd (WindowPut (mem_store n) k t v (es_data s)))
      \<and> mem_view n' (snd (WindowPut (mem_store n) k t v (es_data s))) = mem_view n' (es_data s)"
    using assms(4,5)
    by (simp add: mem_store_def keeps_simps update_keeps_other_store [OF assms(1-3)] mem_ctx_ok_def)
  then show ?thesis
    using assms(5) d by (simp add: mem_ctx_ok_def mem_ctx_view_def)
qed

lemma mem_join_ctx:
  assumes "store_name_ok ln" "store_name_ok rn" "ln \<noteq> rn"
  shows "join_ctx (lift_store (mem_store ln)) (lift_store (mem_store rn)) (mem_ctx_view ln) (mem_ctx_view rn)
    (mem_ctx_ok ln) (mem_ctx_ok rn) (sink_ctx sinks [ln, rn]) ln rn"
proof (intro join_ctx.intro join_ctx_axioms.intro)
  show "byte_store (lift_store (mem_store ln)) (mem_ctx_view ln) (mem_ctx_ok ln)"
    and "byte_store (lift_store (mem_store rn)) (mem_ctx_view rn) (mem_ctx_ok rn)"
    by (rule mem_task.byte_store_axioms)+
  show "mem_ctx_ok rn s' \<and> mem_ctx_view rn s' = mem_ctx_view rn s"
    if "mem_ctx_ok ln s" "mem_ctx_ok rn s" "WindowPut (lift_store (mem_store ln)) k t v s = (e, s')" for s k t v e s'
    by (rule lifted_put_other [OF assms that])
  show "mem_ctx_ok ln s' \<and> mem_ctx_view ln s' = mem_ctx_view ln s"
    if "mem_ctx_ok ln s" "mem_ctx_ok rn s" "WindowPut (lift_store (mem_store rn)) k t v s = (e, s')" for s k t v e s'
    by (rule lifted_put_other [OF assms(2,1) _ that(2,1,3)]) (use assms(3) in simp)
qed (use assms in \<open>auto simp: sink_ctx_def processorCtxImpl_def mem_stores_def
      mem_ctx_ok_def mem_ctx_view_def ctx_StreamTime_def ctx_AdvanceStreamTime_def\<close>)

text \<open>Before it forwards, a join has changed the task's data and its stream-time, nothing else.\<close>

lemma lifted_put_state:
  assumes "es_streamTime s = Some T"
    and "s1 = snd (WindowPut (lift_store (mem_store n)) k t v (AdvanceStreamTime (sink_ctx sinks names) ts s))"
  shows "s1 = s\<lparr>es_data := es_data s1, es_streamTime := Some (max T ts)\<rparr>"
  using assms
  by (simp add: lift_store_def lift_update_def sink_ctx_def processorCtxImpl_def ctx_AdvanceStreamTime_def
      split_beta max_def)

lemma lifted_put_result:
  assumes "\<exists>s1. res = (None, fwd s1)
      \<and> s1 = snd (WindowPut (lift_store (mem_store n)) k t v (AdvanceStreamTime (sink_ctx sinks names) ts s))
      \<and> mem_ctx_view n s1 = own \<and> mem_ctx_view n' s1 = other"
    and "es_streamTime s = Some T"
  shows "\<exists>d. res = (None, fwd (s\<lparr>es_data := d, es_streamTime := Some (max T ts)\<rparr>))
      \<and> mem_view n d = own \<and> mem_view n' d = other"
proof -
  obtain s1 where s1: "res = (None, fwd s1)" "mem_ctx_view n s1 = own" "mem_ctx_view n' s1 = other"
    "s1 = snd (WindowPut (lift_store (mem_store n)) k t v (AdvanceStreamTime (sink_ctx sinks names) ts s))"
    using assms(1) by blast
  have "fwd s1 = fwd (s\<lparr>es_data := es_data s1, es_streamTime := Some (max T ts)\<rparr>)"
    by (rule arg_cong [OF lifted_put_state [OF assms(2) s1(4)]])
  then show ?thesis
    using s1(1-3) by (intro exI [of _ "es_data s1"]) (simp add: mem_ctx_view_def)
qed

text \<open>The stores a first join in a topology gets.\<close>

interpretation mem_join: join_ctx "lift_store (mem_store ''ssjoin-left-store-0'')" "lift_store (mem_store ''ssjoin-right-store-1'')"
    "mem_ctx_view ''ssjoin-left-store-0''" "mem_ctx_view ''ssjoin-right-store-1''"
    "mem_ctx_ok ''ssjoin-left-store-0''" "mem_ctx_ok ''ssjoin-right-store-1''"
    "sink_ctx sinks [''ssjoin-left-store-0'', ''ssjoin-right-store-1'']" "''ssjoin-left-store-0''" "''ssjoin-right-store-1''" for sinks
  by (rule mem_join_ctx) (simp_all add: store_name_ok_def bytes_of_def)

section \<open>Properties\<close>

text \<open>
  C33: The byte range a join scans is exact: among the buffered records of all keys with
  non-negative timestamps, it holds those of the same key with a timestamp between
  \<open>max(0, ts - before - grace)\<close> and \<open>ts + after\<close>, also where \<open>ts + after + 1\<close> leaves the
  \<open>int64\<close> range and wraps to its least value.
\<close>

theorem join_scan_bounds_exact:
  assumes "0 \<le> ts" "ts \<le> MaxInt64" "0 \<le> beforeMs" "0 \<le> afterMs" "0 \<le> graceMs"
    and "beforeMs + graceMs \<le> MaxInt64" "afterMs \<le> MaxInt64"
    and "0 \<le> t" "t \<le> MaxInt64" "key_fits k" "key_fits k'"
    and "ssJoinScanBounds k ts beforeMs afterMs graceMs = (lower, upper)"
  shows "lower \<le> CompositeKey k' t \<and> CompositeKey k' t < upper
    \<longleftrightarrow> k' = k \<and> max 0 (ts - beforeMs - graceMs) \<le> t \<and> t \<le> ts + afterMs"
proof (cases "k' = k")
  case True
  then show ?thesis
    using scan_bounds [OF assms(1-9,12)] by (simp add: join_range_def)
next
  case False
  have "is_i64 t" using assms(8,9) by (simp add: is_i64_def MinInt64_def)
  then show ?thesis
    using False scan_bounds_i64 [OF assms(12)] CompositeKey_less_other [OF assms(10,11)] by blast
qed

theorem join_scan_bounds_exact_witness:
  "fst (ssJoinScanBounds [1] MaxInt64 10 5 0) \<le> CompositeKey [1] MaxInt64
    \<and> CompositeKey [1] MaxInt64 < snd (ssJoinScanBounds [1] MaxInt64 10 5 0)"
  using join_scan_bounds_exact [of MaxInt64 10 5 0 MaxInt64 "[1]" "[1]"
      "fst (ssJoinScanBounds [1] MaxInt64 10 5 0)" "snd (ssJoinScanBounds [1] MaxInt64 10 5 0)"]
  by (simp add: MaxInt64_def key_fits_def)

text \<open>
  C21: The stream-stream join. A left record that is not late is buffered in the left store, and one
  joined record is forwarded for every buffered right record of its key in the window, in
  timestamp order, with the left value as first argument; the right store stays as it is. A
  right record does the same with the roles exchanged, and the left value is still the first
  argument of the joiner. The state in which the forwarding starts differs from the state before
  the record only in the data of the stores and in the stream-time, so the sink buffers get the
  joined records and no others.
\<close>

theorem stream_join_emits_partners:
  assumes ty: "go_type kt" "go_type vt" "go_type wt"
    and sd: "total_serde keySerde" "total_serde leftSerde" "total_serde rightSerde"
    and names: "store_name_ok ln" "store_name_ok rn" "ln \<noteq> rn"
    and st: "mem_ctx_ok ln s" "mem_ctx_ok rn s" "es_streamTime s = Some T" "0 \<le> T" "T \<le> MaxInt64"
    and lv: "join_keys (mem_ctx_view ln s)" "all_decode leftSerde (mem_ctx_view ln s)"
    and rv: "join_keys (mem_ctx_view rn s)" "all_decode rightSerde (mem_ctx_view rn s)"
    and w: "b = Milliseconds (jw_Before jw)" "a = Milliseconds (jw_After jw)" "g = Milliseconds (jw_Grace jw)"
      "0 \<le> b" "0 \<le> a" "0 \<le> g" "a + b + g \<le> MaxInt64"
    and rec: "0 \<le> ts" "ts \<le> MaxInt64" "max T ts - (a + b + g) \<le> ts"
    and key: "Serialize keySerde k = Inr kb" "key_fits kb" "Serialize leftSerde v = Inr vb" "Serialize rightSerde x = Inr xb"
  shows "(\<exists>d. JoinLeft_fn kt vt ot keySerde leftSerde rightSerde jw ln rn joiner (typed_record kt vt (k, v, ts))
          (sink_ctx sinks [ln, rn]) s
        = (None, fold (\<lambda>y. Forward (sink_ctx sinks [ln, rn]) \<lparr>r_Key = box kt k, r_Value = box ot (joiner v y), r_Timestamp = ts\<rparr>)
            (map (decoded rightSerde) (partners (mem_ctx_view rn s) kb ts b a g))
            (s\<lparr>es_data := d, es_streamTime := Some (max T ts)\<rparr>))
      \<and> mem_view ln d = (mem_view ln (es_data s))(CompositeKey kb ts \<mapsto> vb) \<and> mem_view rn d = mem_view rn (es_data s))
    \<and> (\<exists>d. JoinRight_fn kt wt ot keySerde leftSerde rightSerde jw ln rn joiner (typed_record kt wt (k, x, ts))
          (sink_ctx sinks [ln, rn]) s
        = (None, fold (\<lambda>y. Forward (sink_ctx sinks [ln, rn]) \<lparr>r_Key = box kt k, r_Value = box ot (joiner y x), r_Timestamp = ts\<rparr>)
            (map (decoded leftSerde) (partners (mem_ctx_view ln s) kb ts b a g))
            (s\<lparr>es_data := d, es_streamTime := Some (max T ts)\<rparr>))
      \<and> mem_view rn d = (mem_view rn (es_data s))(CompositeKey kb ts \<mapsto> xb) \<and> mem_view ln d = mem_view ln (es_data s))"
proof -
  let ?pc = "sink_ctx sinks [ln, rn] :: ((MemBackend, 'a) estate, 'a) ProcessorContext"
  have ctx: "join_ctx (lift_store (mem_store ln)) (lift_store (mem_store rn)) (mem_ctx_view ln) (mem_ctx_view rn)
      (mem_ctx_ok ln) (mem_ctx_ok rn) ?pc ln rn"
    by (rule mem_join_ctx [OF names])
  have T: "StreamTime ?pc s = T"
    using st(3) by (simp add: sink_ctx_def processorCtxImpl_def ctx_StreamTime_def)
  have tr: "0 \<le> StreamTime ?pc s" "StreamTime ?pc s \<le> MaxInt64" "max (StreamTime ?pc s) ts - (a + b + g) \<le> ts"
    using st(4,5) rec(3) T by simp_all
  show ?thesis
    using conjI [OF lifted_put_result [OF join_ctx.join_left
          [OF ctx ty(1,2) sd(1,2) st(1,2) rv w rec(1,2) tr(1,2) key(1,2,3) tr(3)] st(3)]
      lifted_put_result [OF join_ctx.join_right
          [OF ctx ty(1,3) sd(1,3) st(1,2) lv w rec(1,2) tr(1,2) key(1,2,4) tr(3)] st(3)]]
    unfolding mem_ctx_view_def .
qed

section \<open>Witnesses\<close>

definition join_stores :: "(MemBackend, goval) estate" where
  "join_stores = \<lparr>es_data = two_stores, es_streamTime = Some 0, es_buffers = [], es_late = [], es_firstErr = None\<rparr>"

lemma join_stores_ok: "mem_ctx_ok ''a'' join_stores" "mem_ctx_ok ''b'' join_stores" "es_streamTime join_stores = Some 0"
  by (simp_all add: join_stores_def mem_ctx_ok_def two_stores_ok)

lemma join_stores_empty: "mem_ctx_view n join_stores = Map.empty"
  by (rule ext) (simp add: join_stores_def mem_ctx_view_def mem_view_def two_stores_def mb_open_def OpenStore_def OpenMemDB_def)

lemma empty_view: "join_keys Map.empty" "all_decode serde Map.empty"
  by (simp_all add: join_keys_def all_decode_def)

theorem stream_join_emits_partners_witness:
  "\<exists>d. JoinLeft_fn bytes_type bytes_type bytes_type bytesserde bytesserde bytesserde
        \<lparr>jw_Before = 5000000, jw_After = 5000000, jw_Grace = 0\<rparr> ''a'' ''b'' (@) (typed_record bytes_type bytes_type ([1], [2], 7))
        (sink_ctx [''out''] [''a'', ''b'']) join_stores
      = (None, join_stores\<lparr>es_data := d, es_streamTime := Some 7\<rparr>)
    \<and> mem_view ''a'' d = [CompositeKey [1] 7 \<mapsto> [2]]"
proof -
  let ?jw = "\<lparr>jw_Before = 5000000, jw_After = 5000000, jw_Grace = 0\<rparr>"
  have ms: "5 = Milliseconds (jw_Before ?jw)" "5 = Milliseconds (jw_After ?jw)" "0 = Milliseconds (jw_Grace ?jw)"
    by (simp_all add: Milliseconds_def signed_divide_int_def sgn_if)
  have side: "store_name_ok ''a''" "store_name_ok ''b''" "''a'' \<noteq> ''b''" "0 \<le> (0 :: int)" "0 \<le> MaxInt64" "0 \<le> (5 :: int)"
    "5 + 5 + 0 \<le> MaxInt64" "0 \<le> (7 :: int)" "7 \<le> MaxInt64" "max 0 7 - (5 + 5 + 0) \<le> (7 :: int)"
    "Serialize bytesserde [1] = Inr [1]" "key_fits [1]" "Serialize bytesserde [2] = Inr [2]" "Serialize bytesserde [3] = Inr [3]"
    by (simp_all add: store_name_ok_def bytes_of_def MaxInt64_def bytesserde_def key_fits_def)
  have none: "partners Map.empty kb ts b a g = []" for kb ts b a g
    by (simp add: partners_def)
  have empty: "mem_view n (es_data join_stores) = Map.empty" for n
    using join_stores_empty [of n] by (simp add: mem_ctx_view_def)
  show ?thesis
    using stream_join_emits_partners [OF bytes_ty.go_type_axioms bytes_ty.go_type_axioms bytes_ty.go_type_axioms
        bytes_sd.total_serde_axioms bytes_sd.total_serde_axioms bytes_sd.total_serde_axioms side(1-3) join_stores_ok side(4,5)
        _ _ _ _ ms side(6,6,4,7-14), of bytes_type "(@)" "[''out'']"]
    by (simp add: join_stores_empty empty empty_view none) blast
qed

end
