(* ===== verification/StreamDsl.thy ===== *)
theory StreamDsl
  imports Session SSJoin
begin

text \<open>
  The typed layer that assembles a topology: \<open>stream.go\<close>, \<open>operators.go\<close>, \<open>repartition.go\<close>,
  \<open>ktable.go\<close>, \<open>global_ktable.go\<close> and the building halves of \<open>grouped.go\<close>, \<open>windowed.go\<close>,
  \<open>session.go\<close>, \<open>join.go\<close> and \<open>ssjoin.go\<close>. A method is an action on the builder; a panic is its
  error. The functions installed in the graph are those of the operator theories.
\<close>

section \<open>Bindings\<close>

record 'a SourceBinding =
  so_Topic :: string
  so_DecodeKey :: "bytes \<Rightarrow> error + 'a"
  so_DecodeVal :: "bytes \<Rightarrow> error + 'a"

record 'a SinkBinding =
  si_Topic :: string
  si_EncodeKey :: "'a \<Rightarrow> error + bytes"
  si_EncodeVal :: "'a \<Rightarrow> error + bytes"

record 'a StoreBinding =
  sb_StoreName :: string
  sb_ChangelogTopic :: string
  sb_EncodeKey :: "'a \<Rightarrow> error + bytes"
  sb_DecodeKey :: "bytes \<Rightarrow> error + 'a"
  sb_EncodeVal :: "'a \<Rightarrow> error + bytes"
  sb_DecodeVal :: "bytes \<Rightarrow> error + 'a"

record 'a WindowStoreBinding =
  wb_StoreBinding :: "'a StoreBinding"
  wb_WindowDef :: WindowDefinition
  wb_GraceMs :: int

record 'a SessionStoreBinding =
  xb_StoreBinding :: "'a StoreBinding"
  xb_GapMs :: int
  xb_GraceMs :: int

record 'a GlobalTableBinding =
  gb_StoreName :: string
  gb_Topic :: string
  gb_EncodeKey :: "'a \<Rightarrow> error + bytes"
  gb_DecodeKey :: "bytes \<Rightarrow> error + 'a"
  gb_EncodeVal :: "'a \<Rightarrow> error + bytes"
  gb_DecodeVal :: "bytes \<Rightarrow> error + 'a"

record 'a RepartitionBinding =
  rb_Name :: string
  rb_SinkName :: string
  rb_SourceName :: string
  rb_Partitions :: int
  rb_EncodeKey :: "'a \<Rightarrow> error + bytes"
  rb_EncodeVal :: "'a \<Rightarrow> error + bytes"
  rb_DecodeKey :: "bytes \<Rightarrow> error + 'a"
  rb_DecodeVal :: "bytes \<Rightarrow> error + 'a"

text \<open>The encode closures assert the type and serialize; the decode closures deserialize and box.\<close>

definition encode_as :: "string \<Rightarrow> ('a, 't) gotype \<Rightarrow> 't Serde \<Rightarrow> 'a \<Rightarrow> error + bytes" where
  "encode_as msg ty serde x = (case type_assert ty x of None \<Rightarrow> Inl (Err msg) | Some v \<Rightarrow> Serialize serde v)"

definition decode_as :: "('a, 't) gotype \<Rightarrow> 't Serde \<Rightarrow> bytes \<Rightarrow> error + 'a" where
  "decode_as ty serde raw = map_sum id (box ty) (Deserialize serde raw)"

section \<open>The stream builder\<close>

record ('d, 'a) StreamBuilder =
  sb_internal :: "(('d, 'a) estate, 'a) Builder"
  sb_counter :: nat
  sb_sources :: "(string, 'a SourceBinding) gomap"
  sb_sinks :: "(string, 'a SinkBinding) gomap"
  sb_repartitionBindings :: "(string, 'a RepartitionBinding) gomap"
  sb_stores :: "(string, 'a StoreBinding) gomap"
  sb_windowStores :: "(string, 'a WindowStoreBinding) gomap"
  sb_sessionStores :: "(string, 'a SessionStoreBinding) gomap"
  sb_globalTables :: "(string, 'a GlobalTableBinding) gomap"

definition NewStreamBuilder :: "('d, 'a) StreamBuilder" where
  "NewStreamBuilder =
     \<lparr>sb_internal = NewBuilder, sb_counter = 0, sb_sources = [], sb_sinks = [], sb_repartitionBindings = [],
      sb_stores = [], sb_windowStores = [], sb_sessionStores = [], sb_globalTables = []\<rparr>"

text \<open>\<open>fmt.Sprintf("%s-%d", prefix, b.counter)\<close>.\<close>

definition digit :: "nat \<Rightarrow> char" where
  "digit n = char_of (48 + n)"

fun decimal :: "nat \<Rightarrow> string" where
  "decimal n = (if n < 10 then [digit n] else decimal (n div 10) @ [digit (n mod 10)])"

declare decimal.simps [simp del]

definition numbered :: "string \<Rightarrow> nat \<Rightarrow> string" where
  "numbered pre n = pre @ ''-'' @ decimal n"

definition nextName :: "string \<Rightarrow> (('d, 'a) StreamBuilder, string) act" where
  "nextName pre b = (Inr (numbered pre (sb_counter b)), b\<lparr>sb_counter := sb_counter b + 1\<rparr>)"

text \<open>A call of a method of the inner builder.\<close>

definition internalE :: "((('d, 'a) estate, 'a) Builder \<Rightarrow> error + (('d, 'a) estate, 'a) Builder)
    \<Rightarrow> (('d, 'a) StreamBuilder, unit) act" where
  "internalE f b = (case f (sb_internal b) of Inl e \<Rightarrow> (Inl e, b) | Inr i \<Rightarrow> (Inr (), b\<lparr>sb_internal := i\<rparr>))"

record KStream =
  ks_nodeName :: string
  ks_repartitionRequired :: bool

record ('k, 'v) KGroupedStream =
  kg_nodeName :: string
  kg_keySerde :: "'k Serde"
  kg_valSerde :: "'v Serde"

record ('k, 'v) KTable =
  tb_nodeName :: string
  tb_storeName :: string
  tb_sinkName :: string
  tb_keySerde :: "'k Serde option"
  tb_valSerde :: "'v Serde option"

record ('k, 'v) GlobalKTable =
  gt_nodeName :: string
  gt_storeName :: string
  gt_keySerde :: "'k Serde"
  gt_valSerde :: "'v Serde"

definition Stream :: "('a, 'k) gotype \<Rightarrow> ('a, 'v) gotype \<Rightarrow> string \<Rightarrow> string \<Rightarrow> 'k Serde \<Rightarrow> 'v Serde
    \<Rightarrow> (('d, 'a) StreamBuilder, KStream) act" where
  "Stream kt vt topic sourceName keySerde valSerde =
     bindE (internalE (AddSource sourceName)) (\<lambda>_.
     bindE (modifyE (\<lambda>b. b\<lparr>sb_sources := go_set sourceName
              \<lparr>so_Topic = topic, so_DecodeKey = decode_as kt keySerde, so_DecodeVal = decode_as vt valSerde\<rparr> (sb_sources b)\<rparr>)) (\<lambda>_.
     retE \<lparr>ks_nodeName = sourceName, ks_repartitionRequired = False\<rparr>))"

definition KStream_To :: "('a, 'k) gotype \<Rightarrow> ('a, 'v) gotype \<Rightarrow> string \<Rightarrow> string \<Rightarrow> 'k Serde \<Rightarrow> 'v Serde \<Rightarrow> KStream
    \<Rightarrow> (('d, 'a) StreamBuilder, unit) act" where
  "KStream_To kt vt topic sinkName keySerde valSerde s =
     bindE (internalE (AddSink sinkName [ks_nodeName s])) (\<lambda>_.
     modifyE (\<lambda>b. b\<lparr>sb_sinks := go_set sinkName
       \<lparr>si_Topic = topic, si_EncodeKey = encode_as ''gstream: sink EncodeKey'' kt keySerde,
        si_EncodeVal = encode_as ''gstream: sink EncodeVal'' vt valSerde\<rparr> (sb_sinks b)\<rparr>))"

record ('d, 'a) BuiltTopology =
  bt_Topology :: "(('d, 'a) estate, 'a) Topology"
  bt_Sources :: "(string, 'a SourceBinding) gomap"
  bt_Sinks :: "(string, 'a SinkBinding) gomap"
  bt_RepartitionBindings :: "(string, 'a RepartitionBinding) gomap"
  bt_StoreBindings :: "(string, 'a StoreBinding) gomap"
  bt_WindowStoreBindings :: "(string, 'a WindowStoreBinding) gomap"
  bt_SessionStoreBindings :: "(string, 'a SessionStoreBinding) gomap"
  bt_GlobalTableBindings :: "(string, 'a GlobalTableBinding) gomap"

definition StreamBuilder_Build :: "('d, 'a) StreamBuilder \<Rightarrow> error + ('d, 'a) BuiltTopology" where
  "StreamBuilder_Build b =
     (case Build (sb_internal b) of
        Inl e \<Rightarrow> Inl e
      | Inr t \<Rightarrow> Inr \<lparr>bt_Topology = t, bt_Sources = sb_sources b, bt_Sinks = sb_sinks b,
          bt_RepartitionBindings = sb_repartitionBindings b, bt_StoreBindings = sb_stores b,
          bt_WindowStoreBindings = sb_windowStores b, bt_SessionStoreBindings = sb_sessionStores b,
          bt_GlobalTableBindings = sb_globalTables b\<rparr>)"

section \<open>Stateless operators\<close>

definition Filter_op :: "('a, 'k) gotype \<Rightarrow> ('a, 'v) gotype \<Rightarrow> ('k \<Rightarrow> 'v \<Rightarrow> bool) \<Rightarrow> KStream
    \<Rightarrow> (('d, 'a) StreamBuilder, KStream) act" where
  "Filter_op kt vt fn s =
     bindE (nextName ''filter'') (\<lambda>name.
     bindE (internalE (AddProcessor name (Filter_fn kt vt fn) [ks_nodeName s])) (\<lambda>_.
     retE \<lparr>ks_nodeName = name, ks_repartitionRequired = ks_repartitionRequired s\<rparr>))"

definition MapValues_op :: "('a, 'k) gotype \<Rightarrow> ('a, 'v) gotype \<Rightarrow> ('a, 'w) gotype \<Rightarrow> ('k \<Rightarrow> 'v \<Rightarrow> 'w) \<Rightarrow> KStream
    \<Rightarrow> (('d, 'a) StreamBuilder, KStream) act" where
  "MapValues_op kt vt wt fn s =
     bindE (nextName ''mapvalues'') (\<lambda>name.
     bindE (internalE (AddProcessor name (MapValues_fn kt vt wt fn) [ks_nodeName s])) (\<lambda>_.
     retE \<lparr>ks_nodeName = name, ks_repartitionRequired = ks_repartitionRequired s\<rparr>))"

definition Map_op :: "('a, 'k) gotype \<Rightarrow> ('a, 'v) gotype \<Rightarrow> ('a, 'j) gotype \<Rightarrow> ('a, 'w) gotype \<Rightarrow> ('k \<Rightarrow> 'v \<Rightarrow> 'j \<times> 'w)
    \<Rightarrow> KStream \<Rightarrow> (('d, 'a) StreamBuilder, KStream) act" where
  "Map_op kt vt jt wt fn s =
     bindE (nextName ''map'') (\<lambda>name.
     bindE (internalE (AddProcessor name (Map_fn kt vt jt wt fn) [ks_nodeName s])) (\<lambda>_.
     retE \<lparr>ks_nodeName = name, ks_repartitionRequired = True\<rparr>))"

definition SelectKey_op :: "('a, 'k) gotype \<Rightarrow> ('a, 'v) gotype \<Rightarrow> ('a, 'j) gotype \<Rightarrow> ('k \<Rightarrow> 'v \<Rightarrow> 'j) \<Rightarrow> KStream
    \<Rightarrow> (('d, 'a) StreamBuilder, KStream) act" where
  "SelectKey_op kt vt jt fn s =
     bindE (nextName ''selectkey'') (\<lambda>name.
     bindE (internalE (AddProcessor name (SelectKey_fn kt vt jt fn) [ks_nodeName s])) (\<lambda>_.
     retE \<lparr>ks_nodeName = name, ks_repartitionRequired = True\<rparr>))"

section \<open>Repartitioning\<close>

definition repartition :: "('a, 'k) gotype \<Rightarrow> ('a, 'v) gotype \<Rightarrow> string \<Rightarrow> int \<Rightarrow> 'k Serde \<Rightarrow> 'v Serde \<Rightarrow> KStream
    \<Rightarrow> (('d, 'a) StreamBuilder, KStream) act" where
  "repartition kt vt name partitions keySerde valSerde s =
     bindE (nextName ''repartition-sink'') (\<lambda>sinkName.
     bindE (nextName ''repartition-source'') (\<lambda>sourceName.
     bindE (internalE (AddSink sinkName [ks_nodeName s])) (\<lambda>_.
     bindE (internalE (AddSource sourceName)) (\<lambda>_.
     bindE (modifyE (\<lambda>b. b\<lparr>sb_repartitionBindings := go_set name
              \<lparr>rb_Name = name, rb_SinkName = sinkName, rb_SourceName = sourceName, rb_Partitions = partitions,
               rb_EncodeKey = encode_as ''gstream: repartition EncodeKey'' kt keySerde,
               rb_EncodeVal = encode_as ''gstream: repartition EncodeVal'' vt valSerde,
               rb_DecodeKey = decode_as kt keySerde, rb_DecodeVal = decode_as vt valSerde\<rparr>
              (sb_repartitionBindings b)\<rparr>)) (\<lambda>_.
     retE \<lparr>ks_nodeName = sourceName, ks_repartitionRequired = False\<rparr>)))))"

definition Repartition :: "('a, 'k) gotype \<Rightarrow> ('a, 'v) gotype \<Rightarrow> string \<Rightarrow> int \<Rightarrow> 'k Serde \<Rightarrow> 'v Serde \<Rightarrow> KStream
    \<Rightarrow> (('d, 'a) StreamBuilder, KStream) act" where
  "Repartition kt vt name partitions keySerde valSerde s = repartition kt vt name partitions keySerde valSerde s"

definition ensureRepartition :: "('a, 'k) gotype \<Rightarrow> ('a, 'v) gotype \<Rightarrow> 'k Serde \<Rightarrow> 'v Serde \<Rightarrow> KStream
    \<Rightarrow> (('d, 'a) StreamBuilder, KStream) act" where
  "ensureRepartition kt vt keySerde valSerde s =
     (if \<not> ks_repartitionRequired s then retE s
      else bindE (nextName ''auto'') (\<lambda>name. repartition kt vt name 0 keySerde valSerde s))"

section \<open>Grouping, tables and joins with a table\<close>

definition GroupByKey :: "('a, 'k) gotype \<Rightarrow> ('a, 'v) gotype \<Rightarrow> 'k Serde \<Rightarrow> 'v Serde \<Rightarrow> KStream
    \<Rightarrow> (('d, 'a) StreamBuilder, ('k, 'v) KGroupedStream) act" where
  "GroupByKey kt vt keySerde valSerde s =
     bindE (ensureRepartition kt vt keySerde valSerde s) (\<lambda>s'.
     retE \<lparr>kg_nodeName = ks_nodeName s', kg_keySerde = keySerde, kg_valSerde = valSerde\<rparr>)"

definition Aggregate_op :: "('a, 'k) gotype \<Rightarrow> ('a, 'v) gotype \<Rightarrow> ('a, 'c) gotype \<Rightarrow> string \<Rightarrow> (unit \<Rightarrow> 'c)
    \<Rightarrow> ('k \<Rightarrow> 'v \<Rightarrow> 'c \<Rightarrow> 'c) \<Rightarrow> 'c Serde \<Rightarrow> ('k, 'v) KGroupedStream \<Rightarrow> (('d, 'a) StreamBuilder, ('k, 'c) KTable) act" where
  "Aggregate_op kt vt ct storeName initFn aggFn accSerde g =
     bindE (nextName ''aggregate'') (\<lambda>name.
     bindE (internalE (AddStatefulProcessor name
              (Aggregate_fn kt vt ct (kg_keySerde g) storeName initFn aggFn accSerde) [storeName] [kg_nodeName g])) (\<lambda>_.
     bindE (nextName ''ktable-out'') (\<lambda>sinkName.
     bindE (internalE (AddSink sinkName [name])) (\<lambda>_.
     bindE (modifyE (\<lambda>b. b\<lparr>sb_stores := go_set storeName
              \<lparr>sb_StoreName = storeName, sb_ChangelogTopic = storeName,
               sb_EncodeKey = encode_as ''StoreBinding EncodeKey'' kt (kg_keySerde g),
               sb_DecodeKey = decode_as kt (kg_keySerde g),
               sb_EncodeVal = encode_as ''StoreBinding EncodeVal'' ct accSerde,
               sb_DecodeVal = decode_as ct accSerde\<rparr> (sb_stores b)\<rparr>)) (\<lambda>_.
     retE \<lparr>tb_nodeName = name, tb_storeName = storeName, tb_sinkName = sinkName,
       tb_keySerde = Some (kg_keySerde g), tb_valSerde = Some accSerde\<rparr>)))))"

definition Count_op :: "('a, 'k) gotype \<Rightarrow> ('a, 'v) gotype \<Rightarrow> ('a, int) gotype \<Rightarrow> string \<Rightarrow> int Serde
    \<Rightarrow> ('k, 'v) KGroupedStream \<Rightarrow> (('d, 'a) StreamBuilder, ('k, int) KTable) act" where
  "Count_op kt vt ct storeName countSerde g = Aggregate_op kt vt ct storeName count_init count_agg countSerde g"

definition KTable_To :: "('a, 'k) gotype \<Rightarrow> ('a, 'v) gotype \<Rightarrow> string \<Rightarrow> 'k Serde \<Rightarrow> 'v Serde \<Rightarrow> ('k, 'v) KTable
    \<Rightarrow> (('d, 'a) StreamBuilder, unit) act" where
  "KTable_To kt vt topic keySerde valSerde t =
     modifyE (\<lambda>b. b\<lparr>sb_sinks := go_set (tb_sinkName t)
       \<lparr>si_Topic = topic, si_EncodeKey = encode_as ''gstream: ktable sink EncodeKey'' kt keySerde,
        si_EncodeVal = encode_as ''gstream: ktable sink EncodeVal'' vt valSerde\<rparr> (sb_sinks b)\<rparr>)"

definition GlobalTable :: "('a, 'k) gotype \<Rightarrow> ('a, 'v) gotype \<Rightarrow> string \<Rightarrow> string \<Rightarrow> 'k Serde \<Rightarrow> 'v Serde
    \<Rightarrow> (('d, 'a) StreamBuilder, ('k, 'v) GlobalKTable) act" where
  "GlobalTable kt vt topic nodeName keySerde valSerde =
     bindE (nextName ''global-store'') (\<lambda>storeName.
     bindE (modifyE (\<lambda>b. b\<lparr>sb_globalTables := go_set storeName
              \<lparr>gb_StoreName = storeName, gb_Topic = topic,
               gb_EncodeKey = encode_as ''gstream: GlobalTable EncodeKey'' kt keySerde,
               gb_DecodeKey = decode_as kt keySerde,
               gb_EncodeVal = encode_as ''gstream: GlobalTable EncodeVal'' vt valSerde,
               gb_DecodeVal = decode_as vt valSerde\<rparr> (sb_globalTables b)\<rparr>)) (\<lambda>_.
     retE \<lparr>gt_nodeName = nodeName, gt_storeName = storeName, gt_keySerde = keySerde, gt_valSerde = valSerde\<rparr>))"

text \<open>A nil \<open>keyMapper\<close> panics before anything is registered.\<close>

definition JoinGlobal_op :: "('a, 'k) gotype \<Rightarrow> ('a, 'v) gotype \<Rightarrow> ('a, 'w) gotype \<Rightarrow> ('gk, 'gv) GlobalKTable
    \<Rightarrow> ('k \<Rightarrow> 'v \<Rightarrow> 'gk) option \<Rightarrow> ('v \<Rightarrow> 'gv \<Rightarrow> 'w) \<Rightarrow> KStream \<Rightarrow> (('d, 'a) StreamBuilder, KStream) act" where
  "JoinGlobal_op kt vt wt gkt keyMapper joiner s =
     (case keyMapper of
        None \<Rightarrow> failE (Err ''gstream: JoinGlobal keyMapper must not be nil'')
      | Some mapper \<Rightarrow>
          bindE (nextName ''join-global'') (\<lambda>name.
          bindE (internalE (AddStatefulProcessor name
                   (JoinGlobal_fn kt vt wt (gt_keySerde gkt) (gt_valSerde gkt) (gt_storeName gkt) mapper joiner)
                   [gt_storeName gkt] [ks_nodeName s])) (\<lambda>_.
          retE \<lparr>ks_nodeName = name, ks_repartitionRequired = ks_repartitionRequired s\<rparr>)))"

text \<open>
  The serdes of a windowed or session table are nil interfaces; a call through one panics,
  which is an error here.
\<close>

definition nil_or :: "'t Serde option \<Rightarrow> 't Serde" where
  "nil_or serde = (case serde of
     Some s \<Rightarrow> s
   | None \<Rightarrow> \<lparr>Serialize = (\<lambda>_. Inl (Err ''nil pointer dereference'')),
              Deserialize = (\<lambda>_. Inl (Err ''nil pointer dereference''))\<rparr>)"

definition JoinTable_op :: "('a, 'k) gotype \<Rightarrow> ('a, 'v) gotype \<Rightarrow> ('a, 'w) gotype \<Rightarrow> ('k, 't) KTable
    \<Rightarrow> ('v \<Rightarrow> 't \<Rightarrow> 'w) \<Rightarrow> 'v Serde \<Rightarrow> KStream \<Rightarrow> (('d, 'a) StreamBuilder, KStream) act" where
  "JoinTable_op kt vt wt tbl joiner streamValSerde s =
     bindE (ensureRepartition kt vt (nil_or (tb_keySerde tbl)) streamValSerde s) (\<lambda>s'.
     bindE (nextName ''join-table'') (\<lambda>name.
     bindE (internalE (AddStatefulProcessor name
              (JoinTable_fn kt vt wt (nil_or (tb_keySerde tbl)) (nil_or (tb_valSerde tbl)) (tb_storeName tbl) joiner)
              [tb_storeName tbl] [ks_nodeName s'])) (\<lambda>_.
     retE \<lparr>ks_nodeName = name, ks_repartitionRequired = False\<rparr>)))"

section \<open>Windows and sessions\<close>

text \<open>
  \<open>lateCount\<close> is a pointer that \<open>WindowedBy\<close> allocates; its address is an argument here and
  names a counter of the execution state.
\<close>

record ('k, 'v, 'a) TimeWindowedStream =
  tw_nodeName :: string
  tw_keySerde :: "'k Serde"
  tw_valSerde :: "'v Serde"
  tw_windows :: WindowDefinition
  tw_graceMs :: int
  tw_extractorFn :: "('a Record \<Rightarrow> int) option"
  tw_lateCount :: string

definition WindowedBy :: "string \<Rightarrow> WindowDefinition \<Rightarrow> ('k, 'v) KGroupedStream \<Rightarrow> ('k, 'v, 'a) TimeWindowedStream" where
  "WindowedBy addr w g =
     \<lparr>tw_nodeName = kg_nodeName g, tw_keySerde = kg_keySerde g, tw_valSerde = kg_valSerde g, tw_windows = w,
      tw_graceMs = 0, tw_extractorFn = None, tw_lateCount = addr\<rparr>"

definition WithGrace :: "int \<Rightarrow> ('k, 'v, 'a) TimeWindowedStream \<Rightarrow> ('k, 'v, 'a) TimeWindowedStream" where
  "WithGrace d s = s\<lparr>tw_graceMs := Milliseconds d\<rparr>"

definition WithTimestampExtractor :: "('a Record \<Rightarrow> int) option \<Rightarrow> ('k, 'v, 'a) TimeWindowedStream
    \<Rightarrow> ('k, 'v, 'a) TimeWindowedStream" where
  "WithTimestampExtractor fn s = s\<lparr>tw_extractorFn := fn\<rparr>"

definition WindowedAggregate_op :: "('a, 'k) gotype \<Rightarrow> ('a, 'v) gotype \<Rightarrow> ('a, 'c) gotype \<Rightarrow> string \<Rightarrow> (unit \<Rightarrow> 'c)
    \<Rightarrow> ('k \<Rightarrow> 'v \<Rightarrow> 'c \<Rightarrow> 'c) \<Rightarrow> 'c Serde \<Rightarrow> ('k, 'v, 'a) TimeWindowedStream
    \<Rightarrow> (('d, 'a) StreamBuilder, ('k Windowed, 'c) KTable) act" where
  "WindowedAggregate_op kt vt ct storeName initFn aggFn accSerde s =
     bindE (nextName ''windowed-aggregate'') (\<lambda>name.
     bindE (internalE (AddStatefulProcessor name
              (WindowedAggregate_fn kt vt (tw_keySerde s) (tw_windows s) (tw_graceMs s) (tw_extractorFn s)
                 (add_late (tw_lateCount s)) storeName initFn aggFn accSerde) [storeName] [tw_nodeName s])) (\<lambda>_.
     bindE (nextName ''windowed-ktable-out'') (\<lambda>sinkName.
     bindE (internalE (AddSink sinkName [name])) (\<lambda>_.
     bindE (modifyE (\<lambda>b. b\<lparr>sb_windowStores := go_set storeName
              \<lparr>wb_StoreBinding =
                 \<lparr>sb_StoreName = storeName, sb_ChangelogTopic = storeName,
                  sb_EncodeKey = (\<lambda>_. Inl (Err ''WindowStoreBinding EncodeKey: use windowStore interface'')),
                  sb_DecodeKey = (\<lambda>_. Inl (Err ''WindowStoreBinding DecodeKey: use windowStore interface'')),
                  sb_EncodeVal = encode_as ''WindowStoreBinding EncodeVal'' ct accSerde,
                  sb_DecodeVal = decode_as ct accSerde\<rparr>,
               wb_WindowDef = tw_windows s, wb_GraceMs = tw_graceMs s\<rparr> (sb_windowStores b)\<rparr>)) (\<lambda>_.
     retE \<lparr>tb_nodeName = name, tb_storeName = storeName, tb_sinkName = [], tb_keySerde = None, tb_valSerde = None\<rparr>)))))"

definition WindowedCount_op :: "('a, 'k) gotype \<Rightarrow> ('a, 'v) gotype \<Rightarrow> ('a, int) gotype \<Rightarrow> string \<Rightarrow> int Serde
    \<Rightarrow> ('k, 'v, 'a) TimeWindowedStream \<Rightarrow> (('d, 'a) StreamBuilder, ('k Windowed, int) KTable) act" where
  "WindowedCount_op kt vt ct storeName countSerde s =
     WindowedAggregate_op kt vt ct storeName count_init count_agg countSerde s"

record ('k, 'v, 'a) SessionWindowedStream =
  sw_nodeName :: string
  sw_keySerde :: "'k Serde"
  sw_valSerde :: "'v Serde"
  sw_gapMs :: int
  sw_graceMs :: int
  sw_extractorFn :: "('a Record \<Rightarrow> int) option"
  sw_lateCount :: string

definition SessionWindowedBy :: "string \<Rightarrow> int \<Rightarrow> ('k, 'v) KGroupedStream \<Rightarrow> ('k, 'v, 'a) SessionWindowedStream" where
  "SessionWindowedBy addr gapMs g =
     \<lparr>sw_nodeName = kg_nodeName g, sw_keySerde = kg_keySerde g, sw_valSerde = kg_valSerde g, sw_gapMs = gapMs,
      sw_graceMs = 0, sw_extractorFn = None, sw_lateCount = addr\<rparr>"

definition Session_WithGrace :: "int \<Rightarrow> ('k, 'v, 'a) SessionWindowedStream \<Rightarrow> ('k, 'v, 'a) SessionWindowedStream" where
  "Session_WithGrace d s = s\<lparr>sw_graceMs := Milliseconds d\<rparr>"

definition Session_WithTimestampExtractor :: "('a Record \<Rightarrow> int) option \<Rightarrow> ('k, 'v, 'a) SessionWindowedStream
    \<Rightarrow> ('k, 'v, 'a) SessionWindowedStream" where
  "Session_WithTimestampExtractor fn s = s\<lparr>sw_extractorFn := fn\<rparr>"

definition SessionAggregate_op :: "('a, 'k) gotype \<Rightarrow> ('a, 'v) gotype \<Rightarrow> ('a, 'c) gotype \<Rightarrow> string \<Rightarrow> (unit \<Rightarrow> 'c)
    \<Rightarrow> ('k \<Rightarrow> 'v \<Rightarrow> 'c \<Rightarrow> 'c) \<Rightarrow> ('k \<Rightarrow> 'c \<Rightarrow> 'c \<Rightarrow> 'c) \<Rightarrow> 'c Serde \<Rightarrow> ('k, 'v, 'a) SessionWindowedStream
    \<Rightarrow> (('d, 'a) StreamBuilder, ('k Windowed, 'c) KTable) act" where
  "SessionAggregate_op kt vt ct storeName initFn aggFn mergeFn accSerde s =
     bindE (nextName ''session-aggregate'') (\<lambda>name.
     bindE (internalE (AddStatefulProcessor name
              (SessionAggregate_fn kt vt (sw_keySerde s) (sw_gapMs s) (sw_graceMs s) (sw_extractorFn s)
                 (add_late (sw_lateCount s)) storeName initFn aggFn mergeFn accSerde) [storeName] [sw_nodeName s])) (\<lambda>_.
     bindE (nextName ''session-ktable-out'') (\<lambda>sinkName.
     bindE (internalE (AddSink sinkName [name])) (\<lambda>_.
     bindE (modifyE (\<lambda>b. b\<lparr>sb_sessionStores := go_set storeName
              \<lparr>xb_StoreBinding =
                 \<lparr>sb_StoreName = storeName, sb_ChangelogTopic = storeName,
                  sb_EncodeKey = (\<lambda>_. Inl (Err ''SessionStoreBinding EncodeKey: use sessionStore interface'')),
                  sb_DecodeKey = (\<lambda>_. Inl (Err ''SessionStoreBinding DecodeKey: use sessionStore interface'')),
                  sb_EncodeVal = encode_as ''SessionStoreBinding EncodeVal'' ct accSerde,
                  sb_DecodeVal = decode_as ct accSerde\<rparr>,
               xb_GapMs = sw_gapMs s, xb_GraceMs = sw_graceMs s\<rparr> (sb_sessionStores b)\<rparr>)) (\<lambda>_.
     retE \<lparr>tb_nodeName = name, tb_storeName = storeName, tb_sinkName = [], tb_keySerde = None, tb_valSerde = None\<rparr>)))))"

definition SessionCount_op :: "('a, 'k) gotype \<Rightarrow> ('a, 'v) gotype \<Rightarrow> ('a, int) gotype \<Rightarrow> string \<Rightarrow> int Serde
    \<Rightarrow> ('k, 'v, 'a) SessionWindowedStream \<Rightarrow> (('d, 'a) StreamBuilder, ('k Windowed, int) KTable) act" where
  "SessionCount_op kt vt ct storeName countSerde s =
     SessionAggregate_op kt vt ct storeName count_init count_agg count_merge countSerde s"

section \<open>Joins of two streams\<close>

definition join_store_binding :: "('a, bytes) gotype \<Rightarrow> string \<Rightarrow> WindowDefinition \<Rightarrow> int \<Rightarrow> 'a WindowStoreBinding" where
  "join_store_binding bt storeName winDef graceMs =
     \<lparr>wb_StoreBinding =
        \<lparr>sb_StoreName = storeName, sb_ChangelogTopic = storeName,
         sb_EncodeKey = (\<lambda>_. Inl (Err ''WindowStoreBinding EncodeKey: use ssJoinStore.WindowPut interface'')),
         sb_DecodeKey = (\<lambda>_. Inl (Err ''WindowStoreBinding DecodeKey: use ssJoinStore.WindowPut interface'')),
         sb_EncodeVal = (\<lambda>x. case type_assert bt x of None \<Rightarrow> Inl (Err ''WindowStoreBinding EncodeVal'') | Some raw \<Rightarrow> Inr raw),
         sb_DecodeVal = (\<lambda>raw. Inr (box bt raw))\<rparr>,
      wb_WindowDef = winDef, wb_GraceMs = graceMs\<rparr>"

definition merge_fn :: "('s, 'a) ProcessFunc" where
  "merge_fn r fwd s = (None, fwd r s)"

definition Join_op :: "('a, bytes) gotype \<Rightarrow> ('a, 'k) gotype \<Rightarrow> ('a, 'v) gotype \<Rightarrow> ('a, 'w) gotype \<Rightarrow> ('a, 'x) gotype
    \<Rightarrow> KStream \<Rightarrow> ('v \<Rightarrow> 'w \<Rightarrow> 'x) \<Rightarrow> JoinWindows \<Rightarrow> 'k Serde \<Rightarrow> 'v Serde \<Rightarrow> 'w Serde \<Rightarrow> KStream
    \<Rightarrow> (('d, 'a) StreamBuilder, KStream) act" where
  "Join_op bt kt vt wt xt other joiner windows keySerde leftSerde rightSerde s =
     bindE (ensureRepartition kt vt keySerde leftSerde s) (\<lambda>s'.
     bindE (ensureRepartition kt wt keySerde rightSerde other) (\<lambda>other'.
     bindE (nextName ''ssjoin-left-store'') (\<lambda>leftStoreName.
     bindE (nextName ''ssjoin-right-store'') (\<lambda>rightStoreName.
     let winDef = newJoinWindowDef windows;
         graceMs = Milliseconds (jw_Grace windows) in
     bindE (forE [leftStoreName, rightStoreName] (\<lambda>storeName. modifyE (\<lambda>b. b\<lparr>sb_windowStores :=
              go_set storeName (join_store_binding bt storeName winDef graceMs) (sb_windowStores b)\<rparr>))) (\<lambda>_.
     bindE (nextName ''ssjoin-left'') (\<lambda>leftNode.
     bindE (internalE (AddStatefulProcessor leftNode
              (JoinLeft_fn kt vt xt keySerde leftSerde rightSerde windows leftStoreName rightStoreName joiner)
              [leftStoreName, rightStoreName] [ks_nodeName s'])) (\<lambda>_.
     bindE (nextName ''ssjoin-right'') (\<lambda>rightNode.
     bindE (internalE (AddStatefulProcessor rightNode
              (JoinRight_fn kt wt xt keySerde leftSerde rightSerde windows leftStoreName rightStoreName joiner)
              [leftStoreName, rightStoreName] [ks_nodeName other'])) (\<lambda>_.
     bindE (nextName ''ssjoin-merge'') (\<lambda>mergeNode.
     bindE (internalE (AddProcessor mergeNode merge_fn [leftNode, rightNode])) (\<lambda>_.
     retE \<lparr>ks_nodeName = mergeNode, ks_repartitionRequired = False\<rparr>)))))))))))"

section \<open>Generated names\<close>

lemma digit_not_dash: "n < 10 \<Longrightarrow> digit n \<noteq> CHR ''-''"
proof
  assume n: "n < 10" "digit n = CHR ''-''"
  have "of_char (digit n) = (48 + n :: nat)"
    unfolding digit_def of_char_of using n(1) by (simp add: take_bit_nat_eq_self)
  then show False by (simp add: n(2))
qed

lemma digit_inject: "m < 10 \<Longrightarrow> n < 10 \<Longrightarrow> digit m = digit n \<longleftrightarrow> m = n"
proof -
  assume "m < 10" "n < 10"
  moreover have "of_char (digit k) = (48 + k :: nat)" if "k < 10" for k
    unfolding digit_def of_char_of using that by (simp add: take_bit_nat_eq_self)
  ultimately show ?thesis by (metis add_left_cancel)
qed

lemma decimal_no_dash: "CHR ''-'' \<notin> set (decimal n)"
proof (induction n rule: decimal.induct)
  case (1 n)
  have "digit (n mod 10) \<noteq> CHR ''-''" by (rule digit_not_dash) simp
  then show ?case
    using 1 by (subst decimal.simps) (auto dest: digit_not_dash)
qed

lemma decimal_inject: "decimal m = decimal n \<Longrightarrow> m = n"
proof (induction m arbitrary: n rule: decimal.induct)
  case (1 m)
  have len: "decimal k \<noteq> []" "[] \<noteq> decimal k" for k by (subst decimal.simps, simp)+
  show ?case
  proof (cases "m < 10"; cases "n < 10")
    assume "m < 10" "n < 10"
    then show ?thesis using 1(2) by (simp add: decimal.simps [of m] decimal.simps [of n] digit_inject)
  next
    assume mn: "\<not> m < 10" "\<not> n < 10"
    then have "decimal (m div 10) = decimal (n div 10)" "digit (m mod 10) = digit (n mod 10)"
      using 1(2) by (simp_all add: decimal.simps [of m] decimal.simps [of n])
    then have "m div 10 = n div 10" "m mod 10 = n mod 10"
      using 1(1) mn by (simp_all add: digit_inject)
    then show ?thesis by (metis div_mod_decomp)
  qed (use 1(2) len in \<open>auto simp: decimal.simps [of m] decimal.simps [of n]\<close>)
qed

text \<open>The number in a generated name can be read back, whatever the prefix.\<close>

lemma numbered_inject:
  assumes "numbered p m = numbered q n"
  shows "m = n"
proof -
  have "takeWhile (\<lambda>c. c \<noteq> CHR ''-'') (rev (numbered r k)) = rev (decimal k)" for r k
    using decimal_no_dash [of k] by (auto simp: numbered_def intro: takeWhile_append2 [THEN trans])
  then have "decimal m = decimal n" using assms by (metis rev_rev_ident)
  then show ?thesis by (rule decimal_inject)
qed

primrec nextNames :: "string list \<Rightarrow> (('d, 'a) StreamBuilder, string list) act" where
  "nextNames [] = retE []"
| "nextNames (p # ps) = bindE (nextName p) (\<lambda>n. bindE (nextNames ps) (\<lambda>ns. retE (n # ns)))"

lemma nextNames_eq:
  "nextNames ps b = (Inr (map (\<lambda>(p, i). numbered p i) (zip ps [sb_counter b ..< sb_counter b + length ps])),
     b\<lparr>sb_counter := sb_counter b + length ps\<rparr>)"
  by (induction ps arbitrary: b) (simp_all add: act_simps nextName_def upt_conv_Cons del: upt_Suc)

section \<open>Wiring\<close>

text \<open>
  A builder is wired when its graph was made by the inner builder's own calls, every source and
  sink binding belongs to a source or sink of the graph, both ends of every repartition topic are
  registered, and every store that a node asks for has a binding, so that the runtime opens it.
  \<open>wired_but X\<close> is wiring in the middle of a call that has yet to bind the stores \<open>X\<close>.
\<close>

definition regs :: "('d, 'a) StreamBuilder \<Rightarrow> string set" where
  "regs b = dom (go_get (b_nodes (sb_internal b)))"

definition bound_stores :: "('d, 'a) StreamBuilder \<Rightarrow> string set" where
  "bound_stores b = dom (go_get (sb_stores b)) \<union> dom (go_get (sb_windowStores b))
     \<union> dom (go_get (sb_sessionStores b)) \<union> dom (go_get (sb_globalTables b))"

definition wired_but :: "string set \<Rightarrow> ('d, 'a) StreamBuilder \<Rightarrow> bool" where
  "wired_but X b \<longleftrightarrow> built (sb_internal b)
     \<and> dom (go_get (sb_sources b)) \<subseteq> set (b_sources (sb_internal b))
     \<and> dom (go_get (sb_sinks b)) \<subseteq> set (b_sinks (sb_internal b))
     \<and> (\<forall>rb \<in> ran (go_get (sb_repartitionBindings b)).
          rb_SinkName rb \<in> set (b_sinks (sb_internal b)) \<and> rb_SourceName rb \<in> set (b_sources (sb_internal b)))
     \<and> (\<forall>n \<in> ran (go_get (b_nodes (sb_internal b))). set (n_storeNames n) \<subseteq> bound_stores b \<union> X)"

definition wired :: "('d, 'a) StreamBuilder \<Rightarrow> bool" where
  "wired b = wired_but {} b"

text \<open>Nothing a caller holds on to goes away.\<close>

definition grows :: "('d, 'a) StreamBuilder \<Rightarrow> ('d, 'a) StreamBuilder \<Rightarrow> bool" where
  "grows b b' \<longleftrightarrow> regs b \<subseteq> regs b' \<and> bound_stores b \<subseteq> bound_stores b'
     \<and> set (b_sinks (sb_internal b)) \<subseteq> set (b_sinks (sb_internal b'))"

text \<open>
  Partial correctness of building steps: \<open>makes P m Q\<close> when every normal return of \<open>m\<close> from a
  builder with \<open>P\<close> satisfies \<open>Q\<close>.
\<close>

definition makes :: "('s \<Rightarrow> bool) \<Rightarrow> ('s, 'r) act \<Rightarrow> ('r \<Rightarrow> 's \<Rightarrow> bool) \<Rightarrow> bool" where
  "makes P m Q \<longleftrightarrow> (\<forall>s r s'. P s \<longrightarrow> m s = (Inr r, s') \<longrightarrow> Q r s')"

lemma makes_ret: "(\<And>s. P s \<Longrightarrow> Q x s) \<Longrightarrow> makes P (retE x) Q"
  by (simp add: makes_def retE_def)

lemma makes_fail: "makes P (failE e) Q"
  by (simp add: makes_def failE_def)

lemma makes_modify: "(\<And>s. P s \<Longrightarrow> Q () (f s)) \<Longrightarrow> makes P (modifyE f) Q"
  by (simp add: makes_def modifyE_def)

lemma bindE_InrE:
  assumes "bindE m f s = (Inr r, s')"
  obtains x s1 where "m s = (Inr x, s1)" "f x s1 = (Inr r, s')"
  using assms by (auto simp: bindE_def split: prod.splits sum.splits)

lemma makes_bind: "makes P m R \<Longrightarrow> (\<And>x. makes (R x) (f x) Q) \<Longrightarrow> makes P (bindE m f) Q"
  unfolding makes_def bindE_def by (fastforce split: prod.splits sum.splits)

lemma makes_pre: "makes P m Q \<Longrightarrow> (\<And>s. P' s \<Longrightarrow> P s) \<Longrightarrow> makes P' m Q"
  unfolding makes_def by blast

lemma makes_post: "makes P m Q \<Longrightarrow> (\<And>r s. Q r s \<Longrightarrow> Q' r s) \<Longrightarrow> makes P m Q'"
  by (simp add: makes_def)

text \<open>
  The state of a call in progress: \<open>init\<close> is the builder at its start, \<open>X\<close> the stores still to be
  bound, and \<open>N\<close>, \<open>K\<close>, \<open>S\<close> nodes, sinks and sources known to be registered.
\<close>

definition building :: "('d, 'a) StreamBuilder \<Rightarrow> string set \<Rightarrow> string set \<Rightarrow> string set \<Rightarrow> string set
    \<Rightarrow> ('d, 'a) StreamBuilder \<Rightarrow> bool" where
  "building init X N K S b \<longleftrightarrow> wired_but X b \<and> grows init b \<and> N \<subseteq> regs b
     \<and> K \<subseteq> set (b_sinks (sb_internal b)) \<and> S \<subseteq> set (b_sources (sb_internal b))"

lemma makes_nextName: "makes (building init X N K S) (nextName p) (\<lambda>_. building init X N K S)"
  by (simp add: makes_def nextName_def building_def wired_but_def grows_def regs_def bound_stores_def)

text \<open>What a call of the inner builder adds to the graph.\<close>

definition adds :: "string \<Rightarrow> string list \<Rightarrow> string list \<Rightarrow> string list \<Rightarrow> ('s, 'a) Builder \<Rightarrow> ('s, 'a) Builder \<Rightarrow> bool" where
  "adds name stores srcs snks i i' \<longleftrightarrow> built i'
     \<and> dom (go_get (b_nodes i')) = insert name (dom (go_get (b_nodes i)))
     \<and> b_sources i' = b_sources i @ srcs \<and> b_sinks i' = b_sinks i @ snks
     \<and> (\<forall>n \<in> ran (go_get (b_nodes i')). set (n_storeNames n) \<subseteq> set stores
          \<or> (\<exists>n' \<in> ran (go_get (b_nodes i)). n_storeNames n = n_storeNames n'))"

lemma wire_parents_stores:
  "wire_parents name parents nodes = Inr nodes' \<Longrightarrow> dom (go_get nodes') = dom (go_get nodes)
    \<and> (\<forall>m. map_option n_storeNames (go_get nodes' m) = map_option n_storeNames (go_get nodes m))"
proof (induction name parents nodes rule: wire_parents.induct)
  case (2 name p rest nodes)
  then show ?case by (auto split: option.splits if_splits)
qed simp

lemma wire_new_stores:
  assumes "wire_parents name parents (go_set name n nodes) = Inr nodes'"
  shows "dom (go_get nodes') = insert name (dom (go_get nodes))
    \<and> (\<forall>k \<in> ran (go_get nodes'). set (n_storeNames k) \<subseteq> set (n_storeNames n)
          \<or> (\<exists>k' \<in> ran (go_get nodes). n_storeNames k = n_storeNames k'))"
proof (intro conjI ballI)
  show "dom (go_get nodes') = insert name (dom (go_get nodes))"
    using wire_parents_stores [OF assms] by (auto split: if_splits)
  fix k assume "k \<in> ran (go_get nodes')"
  then obtain m where "go_get nodes' m = Some k" by (auto simp: ran_def)
  then show "set (n_storeNames k) \<subseteq> set (n_storeNames n)
      \<or> (\<exists>k' \<in> ran (go_get nodes). n_storeNames k = n_storeNames k')"
    using wire_parents_stores [OF assms, THEN conjunct2, THEN spec [of _ m]]
    by (cases "go_get nodes m") (auto split: if_splits intro: ranI)
qed

lemma adds_Source:
  assumes "built i" "AddSource name i = Inr i'"
  shows "adds name [] [name] [] i i'"
proof -
  have "k \<in> ran (go_get (go_set name n nodes)) \<Longrightarrow> k = n \<or> k \<in> ran (go_get nodes)" for k and n :: "('s, 'a) node" and nodes
    by (auto simp: ran_def split: if_splits)
  then show ?thesis
    using built_Source [OF assms] assms(2)
    by (fastforce simp: adds_def AddSource_def split: if_splits)
qed

lemma fresh_not_parent:
  assumes "go_get nodes name = None" "set parents \<subseteq> dom (go_get nodes)"
  shows "name \<notin> set parents"
  using assms by auto

lemma adds_wired:
  assumes "wire_parents name parents (go_set name n (b_nodes i)) = Inr nodes'"
    and "built (i\<lparr>b_nodes := nodes', b_sinks := b_sinks i @ snks\<rparr>)"
  shows "adds name (n_storeNames n) [] snks i (i\<lparr>b_nodes := nodes', b_sinks := b_sinks i @ snks\<rparr>)"
  unfolding adds_def using wire_new_stores [OF assms(1)] assms(2) by simp

lemma adds_Processor:
  assumes "built i" "set parents \<subseteq> dom (go_get (b_nodes i))" "AddProcessor name fn parents i = Inr i'"
  shows "adds name [] [] [] i i'"
proof -
  have new: "go_get (b_nodes i) name = None"
    using assms(3) by (auto simp: AddProcessor_def split: if_splits)
  have "built i'" by (rule built_Processor [OF assms(1) fresh_not_parent [OF new assms(2)] assms(3)])
  moreover obtain n nodes' where "wire_parents name parents (go_set name n (b_nodes i)) = Inr nodes'"
    "n_storeNames n = []" "i' = i\<lparr>b_nodes := nodes', b_sinks := b_sinks i @ []\<rparr>"
    using assms(3) by (auto simp: AddProcessor_def elim!: map_sum_InrE split: if_splits)
  ultimately show ?thesis using adds_wired [of name parents n i nodes' "[]"] by simp
qed

lemma adds_Stateful:
  assumes "built i" "set parents \<subseteq> dom (go_get (b_nodes i))" "AddStatefulProcessor name fn stores parents i = Inr i'"
  shows "adds name stores [] [] i i'"
proof -
  have new: "go_get (b_nodes i) name = None"
    using assms(3) by (auto simp: AddStatefulProcessor_def split: if_splits)
  have "built i'" by (rule built_Stateful [OF assms(1) fresh_not_parent [OF new assms(2)] assms(3)])
  moreover obtain n nodes' where "wire_parents name parents (go_set name n (b_nodes i)) = Inr nodes'"
    "n_storeNames n = stores" "i' = i\<lparr>b_nodes := nodes', b_sinks := b_sinks i @ []\<rparr>"
    using assms(3) by (auto simp: AddStatefulProcessor_def elim!: map_sum_InrE split: if_splits)
  ultimately show ?thesis using adds_wired [of name parents n i nodes' "[]"] by simp
qed

lemma adds_Sink:
  assumes "built i" "set parents \<subseteq> dom (go_get (b_nodes i))" "AddSink name parents i = Inr i'"
  shows "adds name [] [] [name] i i'"
proof -
  have new: "go_get (b_nodes i) name = None"
    using assms(3) by (auto simp: AddSink_def split: if_splits)
  have "built i'" by (rule built_Sink [OF assms(1) fresh_not_parent [OF new assms(2)] assms(3)])
  moreover obtain n nodes' where "wire_parents name parents (go_set name n (b_nodes i)) = Inr nodes'"
    "n_storeNames n = []" "i' = i\<lparr>b_nodes := nodes', b_sinks := b_sinks i @ [name]\<rparr>"
    using assms(3) by (auto simp: AddSink_def elim!: map_sum_InrE split: if_splits)
  ultimately show ?thesis using adds_wired [of name parents n i nodes' "[name]"] by simp
qed

lemma building_adds:
  assumes "building init X N K S b" "adds name stores srcs snks (sb_internal b) i"
  shows "building init (X \<union> set stores) (insert name N) (K \<union> set snks) (S \<union> set srcs) (b\<lparr>sb_internal := i\<rparr>)"
proof -
  have "set (n_storeNames n) \<subseteq> bound_stores b \<union> (X \<union> set stores)" if "n \<in> ran (go_get (b_nodes i))" for n
    using assms that by (fastforce simp: building_def wired_but_def adds_def)
  then show ?thesis
    using assms by (auto simp: building_def wired_but_def adds_def grows_def regs_def bound_stores_def)
qed

lemma makes_internal:
  assumes "\<And>i i'. built i \<Longrightarrow> N \<subseteq> dom (go_get (b_nodes i)) \<Longrightarrow> f i = Inr i' \<Longrightarrow> adds name stores srcs snks i i'"
  shows "makes (building init X N K S) (internalE f)
    (\<lambda>_. building init (X \<union> set stores) (insert name N) (K \<union> set snks) (S \<union> set srcs))"
  unfolding makes_def
proof (intro allI impI)
  fix b r b' assume b: "building init X N K S b" "internalE f b = (Inr r, b')"
  then obtain i where i: "f (sb_internal b) = Inr i" "b' = b\<lparr>sb_internal := i\<rparr>"
    by (auto simp: internalE_def split: sum.splits)
  have "adds name stores srcs snks (sb_internal b) i"
    using b(1) i(1) by (intro assms) (simp_all add: building_def wired_but_def regs_def)
  then show "building init (X \<union> set stores) (insert name N) (K \<union> set snks) (S \<union> set srcs) b'"
    unfolding i(2) by (rule building_adds [OF b(1)])
qed

lemma makes_Source: "makes (building init X N K S) (internalE (AddSource name))
    (\<lambda>_. building init X (insert name N) K (insert name S))"
  using makes_internal [OF adds_Source, where init = init and X = X and K = K and S = S] by simp

lemma makes_Processor: "set parents \<subseteq> N \<Longrightarrow> makes (building init X N K S) (internalE (AddProcessor name fn parents))
    (\<lambda>_. building init X (insert name N) K S)"
  using makes_internal [OF adds_Processor [OF _ subset_trans], where init = init and X = X and K = K and S = S] by simp

lemma makes_Stateful: "set parents \<subseteq> N \<Longrightarrow> makes (building init X N K S) (internalE (AddStatefulProcessor name fn stores parents))
    (\<lambda>_. building init (X \<union> set stores) (insert name N) K S)"
  using makes_internal [OF adds_Stateful [OF _ subset_trans], where init = init and X = X and K = K and S = S] by simp

lemma makes_Sink: "set parents \<subseteq> N \<Longrightarrow> makes (building init X N K S) (internalE (AddSink name parents))
    (\<lambda>_. building init X (insert name N) (insert name K) S)"
  using makes_internal [OF adds_Sink [OF _ subset_trans], where init = init and X = X and K = K and S = S] by simp

lemmas makes_steps = makes_nextName makes_Source makes_Processor makes_Stateful makes_Sink

text \<open>Changes to the bindings alone.\<close>

lemma building_bindings:
  assumes b: "building init X N K S b" and int: "sb_internal b' = sb_internal b"
    and src: "dom (go_get (sb_sources b')) \<subseteq> dom (go_get (sb_sources b)) \<union> S"
    and snk: "dom (go_get (sb_sinks b')) \<subseteq> dom (go_get (sb_sinks b)) \<union> K"
    and rep: "\<And>rb. rb \<in> ran (go_get (sb_repartitionBindings b')) \<Longrightarrow>
      rb \<in> ran (go_get (sb_repartitionBindings b)) \<or> rb_SinkName rb \<in> K \<and> rb_SourceName rb \<in> S"
    and bound: "bound_stores b \<subseteq> bound_stores b'" and X: "X \<subseteq> X' \<union> bound_stores b'"
  shows "building init X' N K S b'"
proof -
  have "set (n_storeNames n) \<subseteq> bound_stores b' \<union> X'" if "n \<in> ran (go_get (b_nodes (sb_internal b)))" for n
    using b that bound X unfolding building_def wired_but_def by blast
  moreover have "rb_SinkName rb \<in> set (b_sinks (sb_internal b)) \<and> rb_SourceName rb \<in> set (b_sources (sb_internal b))"
    if "rb \<in> ran (go_get (sb_repartitionBindings b'))" for rb
    using rep [OF that] b unfolding building_def wired_but_def by blast
  moreover have "grows init b'"
    using b bound int unfolding building_def grows_def regs_def by auto
  moreover have "dom (go_get (sb_sources b')) \<subseteq> set (b_sources (sb_internal b))"
    by (rule subset_trans [OF src]) (use b in \<open>simp add: building_def wired_but_def\<close>)
  moreover have "dom (go_get (sb_sinks b')) \<subseteq> set (b_sinks (sb_internal b))"
    by (rule subset_trans [OF snk]) (use b in \<open>simp add: building_def wired_but_def\<close>)
  ultimately show ?thesis
    using b int unfolding building_def wired_but_def regs_def by auto
qed

lemma building_bound:
  "building init X N K S b \<Longrightarrow> X \<subseteq> bound_stores b \<Longrightarrow> building init {} N K S b"
  by (erule building_bindings) auto

lemma wired_but_bound: "wired_but X b \<Longrightarrow> X \<subseteq> bound_stores b \<Longrightarrow> wired_but {} b"
  unfolding wired_but_def by blast

lemma dom_set_gomap: "dom (go_get (go_set k v m)) = insert k (dom (go_get m))"
  by (auto split: if_splits)

lemma building_bind:
  assumes "building init X N K S b" "X \<subseteq> insert name (bound_stores b)"
  shows "building init {} N K S (b\<lparr>sb_stores := go_set name sb (sb_stores b)\<rparr>)"
    and "building init {} N K S (b\<lparr>sb_windowStores := go_set name wb (sb_windowStores b)\<rparr>)"
    and "building init {} N K S (b\<lparr>sb_sessionStores := go_set name xb (sb_sessionStores b)\<rparr>)"
    and "building init {} N K S (b\<lparr>sb_globalTables := go_set name gb (sb_globalTables b)\<rparr>)"
  using assms(2)
  by (intro building_bindings [OF assms(1)]; auto simp: bound_stores_def dom_set_gomap simp del: go_get_set)+

lemma building_sink:
  assumes "building init X N K S b" "name \<in> K"
  shows "building init X N K S (b\<lparr>sb_sinks := go_set name k (sb_sinks b)\<rparr>)"
  by (rule building_bindings [OF assms(1)])
    (use assms(2) in \<open>auto simp: bound_stores_def dom_set_gomap simp del: go_get_set\<close>)

lemma building_source:
  assumes "building init X N K S b" "name \<in> S"
  shows "building init X N K S (b\<lparr>sb_sources := go_set name k (sb_sources b)\<rparr>)"
  by (rule building_bindings [OF assms(1)])
    (use assms(2) in \<open>auto simp: bound_stores_def dom_set_gomap simp del: go_get_set\<close>)

lemma building_repartition:
  assumes "building init X N K S b" "rb_SinkName rb \<in> K" "rb_SourceName rb \<in> S"
  shows "building init X N K S (b\<lparr>sb_repartitionBindings := go_set name rb (sb_repartitionBindings b)\<rparr>)"
  by (rule building_bindings [OF assms(1)])
    (use assms(2,3) in \<open>auto simp: bound_stores_def ran_def split: if_splits\<close>)

lemma makes_repartition:
  assumes "ks_nodeName s \<in> N"
  shows "makes (building init X N K S) (repartition kt vt name partitions keySerde valSerde s)
    (\<lambda>r. building init X (insert (ks_nodeName r) N) K S)"
  unfolding repartition_def
  by (rule makes_bind, rule makes_nextName, rule makes_bind, rule makes_nextName,
      rule makes_bind, rule makes_Sink, use assms in simp, rule makes_bind, rule makes_Source,
      rule makes_bind, rule makes_modify, erule building_repartition, simp, simp,
      rule makes_ret) (auto simp: building_def)

lemma makes_ensureRepartition:
  assumes "ks_nodeName s \<in> N"
  shows "makes (building init X N K S) (ensureRepartition kt vt keySerde valSerde s)
    (\<lambda>r. building init X (insert (ks_nodeName r) N) K S)"
  unfolding ensureRepartition_def
  using assms by (auto intro!: makes_bind makes_nextName makes_repartition makes_ret simp: insert_absorb)

section \<open>Every call keeps the wiring\<close>

text \<open>A handle the caller holds refers to something registered.\<close>

definition has_stream :: "KStream \<Rightarrow> ('d, 'a) StreamBuilder \<Rightarrow> bool" where
  "has_stream s b \<longleftrightarrow> ks_nodeName s \<in> regs b"

definition has_grouped :: "('k, 'v) KGroupedStream \<Rightarrow> ('d, 'a) StreamBuilder \<Rightarrow> bool" where
  "has_grouped g b \<longleftrightarrow> kg_nodeName g \<in> regs b"

definition has_table :: "('k, 'v) KTable \<Rightarrow> ('d, 'a) StreamBuilder \<Rightarrow> bool" where
  "has_table t b \<longleftrightarrow> tb_nodeName t \<in> regs b \<and> tb_storeName t \<in> bound_stores b"

definition has_sink :: "('k, 'v) KTable \<Rightarrow> ('d, 'a) StreamBuilder \<Rightarrow> bool" where
  "has_sink t b \<longleftrightarrow> tb_sinkName t \<in> set (b_sinks (sb_internal b))"

text \<open>
  \<open>call_ok P m Q\<close>: on a wired builder with \<open>P\<close>, a call that does not panic leaves a wired builder
  with \<open>Q\<close> in which everything that was registered still is.
\<close>

definition call_ok :: "(('d, 'a) StreamBuilder \<Rightarrow> bool) \<Rightarrow> (('d, 'a) StreamBuilder, 'r) act
    \<Rightarrow> ('r \<Rightarrow> ('d, 'a) StreamBuilder \<Rightarrow> bool) \<Rightarrow> bool" where
  "call_ok P m Q \<longleftrightarrow> (\<forall>b r b'. wired b \<longrightarrow> P b \<longrightarrow> m b = (Inr r, b') \<longrightarrow> wired b' \<and> grows b b' \<and> Q r b')"

lemma call_okI:
  assumes "\<And>init. P init \<Longrightarrow> makes (building init {} N K {}) m (\<lambda>r b. building init {} {} {} {} b \<and> Q r b)"
    and "\<And>b. P b \<Longrightarrow> N \<subseteq> regs b \<and> K \<subseteq> set (b_sinks (sb_internal b))"
  shows "call_ok P m Q"
  unfolding call_ok_def
proof (intro allI impI)
  fix b r b' assume b: "wired b" "P b" "m b = (Inr r, b')"
  have "building b {} N K {} b"
    using b(1) assms(2) [OF b(2)] by (simp add: building_def wired_def grows_def)
  then show "wired b' \<and> grows b b' \<and> Q r b'"
    using assms(1) [OF b(2)] b(3) unfolding makes_def building_def wired_def by blast
qed

lemma call_Stream: "call_ok (\<lambda>_. True) (Stream kt vt topic sourceName keySerde valSerde) has_stream"
  unfolding Stream_def
  by (rule call_okI [where N = "{}" and K = "{}"], rule makes_bind, rule makes_Source, rule makes_bind,
      rule makes_modify, erule building_source, simp, rule makes_ret)
    (auto simp: building_def has_stream_def)

lemma call_To: "call_ok (has_stream s) (KStream_To kt vt topic sinkName keySerde valSerde s) (\<lambda>_ _. True)"
  unfolding KStream_To_def
  by (rule call_okI [where N = "{ks_nodeName s}" and K = "{}"], rule makes_bind, rule makes_Sink, simp,
      rule makes_modify, drule building_sink [where name = sinkName], simp)
    (auto simp: building_def has_stream_def)

lemma call_stateless:
  "call_ok (has_stream s)
     (bindE (nextName p) (\<lambda>name. bindE (internalE (AddProcessor name fn [ks_nodeName s])) (\<lambda>_.
        retE \<lparr>ks_nodeName = name, ks_repartitionRequired = q\<rparr>))) has_stream"
  by (rule call_okI [where N = "{ks_nodeName s}" and K = "{}"], rule makes_bind, rule makes_nextName,
      rule makes_bind, rule makes_Processor, simp, rule makes_ret)
    (auto simp: building_def has_stream_def)

lemma call_repartition: "call_ok (has_stream s) (repartition kt vt name partitions keySerde valSerde s) has_stream"
  by (rule call_okI [where N = "{ks_nodeName s}" and K = "{}"], rule makes_post, rule makes_repartition)
    (auto simp: building_def has_stream_def)

lemma call_GroupByKey: "call_ok (has_stream s) (GroupByKey kt vt keySerde valSerde s) has_grouped"
  unfolding GroupByKey_def
  by (rule call_okI [where N = "{ks_nodeName s}" and K = "{}"], rule makes_bind, rule makes_ensureRepartition, simp,
      rule makes_ret) (auto simp: building_def has_stream_def has_grouped_def)

lemma bound_bind:
  "name \<in> bound_stores (b\<lparr>sb_stores := go_set name sb (sb_stores b)\<rparr>)"
  "name \<in> bound_stores (b\<lparr>sb_windowStores := go_set name wb (sb_windowStores b)\<rparr>)"
  "name \<in> bound_stores (b\<lparr>sb_sessionStores := go_set name xb (sb_sessionStores b)\<rparr>)"
  "name \<in> bound_stores (b\<lparr>sb_globalTables := go_set name gb (sb_globalTables b)\<rparr>)"
  by (auto simp: bound_stores_def dom_set_gomap simp del: go_get_set)

text \<open>The three aggregations: a stateful node, its internal sink, the binding of the store.\<close>

lemma makes_aggregation:
  assumes "node \<in> N"
    and bind: "\<And>X N K S b. building init X N K S b \<Longrightarrow> X \<subseteq> insert store (bound_stores b) \<Longrightarrow>
      building init {} N K S (f b) \<and> store \<in> bound_stores (f b)"
    and ret: "\<And>name sink b. name \<in> regs b \<Longrightarrow> sink \<in> set (b_sinks (sb_internal b)) \<Longrightarrow> store \<in> bound_stores b \<Longrightarrow>
      Q (ret name sink) b"
  shows "makes (building init {} N K {})
    (bindE (nextName p) (\<lambda>name. bindE (internalE (AddStatefulProcessor name fn [store] [node])) (\<lambda>_.
     bindE (nextName q) (\<lambda>sink. bindE (internalE (AddSink sink [name])) (\<lambda>_.
     bindE (modifyE f) (\<lambda>_. retE (ret name sink)))))))
    (\<lambda>r b. building init {} {} {} {} b \<and> Q r b)"
  apply (rule makes_bind, rule makes_nextName, rule makes_bind, rule makes_Stateful)
   apply (use assms(1) in simp)
  apply (rule makes_bind, rule makes_nextName, rule makes_bind, rule makes_Sink)
   apply simp
  apply (rule makes_bind, rule makes_modify, erule bind)
   apply simp
  apply (rule makes_ret)
  apply (rule conjI)
   apply (simp add: building_def)
  apply (rule ret)
    apply (simp_all add: building_def)
  done

lemma call_Aggregate:
  "call_ok (has_grouped g) (Aggregate_op kt vt ct store initFn aggFn accSerde g) (\<lambda>t b. has_table t b \<and> has_sink t b)"
  unfolding Aggregate_op_def
  by (rule call_okI [where N = "{kg_nodeName g}" and K = "{}"], rule makes_aggregation)
    (auto intro: building_bind bound_bind simp: has_grouped_def has_table_def has_sink_def)

lemma call_WindowedAggregate:
  "call_ok (\<lambda>b. tw_nodeName s \<in> regs b) (WindowedAggregate_op kt vt ct store initFn aggFn accSerde s)
    (\<lambda>t b. has_table t b \<and> tb_sinkName t = [])"
  unfolding WindowedAggregate_op_def
  by (rule call_okI [where N = "{tw_nodeName s}" and K = "{}"], rule makes_aggregation)
    (auto intro: building_bind bound_bind simp: has_table_def)

lemma call_SessionAggregate:
  "call_ok (\<lambda>b. sw_nodeName s \<in> regs b) (SessionAggregate_op kt vt ct store initFn aggFn mergeFn accSerde s)
    (\<lambda>t b. has_table t b \<and> tb_sinkName t = [])"
  unfolding SessionAggregate_op_def
  by (rule call_okI [where N = "{sw_nodeName s}" and K = "{}"], rule makes_aggregation)
    (auto intro: building_bind bound_bind simp: has_table_def)

lemma call_KTable_To: "call_ok (has_sink t) (KTable_To kt vt topic keySerde valSerde t) (\<lambda>_ _. True)"
  unfolding KTable_To_def
  by (rule call_okI [where N = "{}" and K = "{tb_sinkName t}"], rule makes_modify, drule building_sink [where name = "tb_sinkName t"], simp)
    (auto simp: building_def has_sink_def)

text \<open>Without a sink the binding that \<open>To\<close> makes names no sink node.\<close>

lemma KTable_To_unbound: "\<not> has_sink t b \<Longrightarrow> \<not> wired (snd (KTable_To kt vt topic keySerde valSerde t b))"
  by (auto simp: KTable_To_def modifyE_def wired_def wired_but_def has_sink_def)

lemma call_GlobalTable:
  "call_ok (\<lambda>_. True) (GlobalTable kt vt topic node keySerde valSerde) (\<lambda>g b. gt_storeName g \<in> bound_stores b)"
proof -
  have "makes (building init {} {} {} {}) (GlobalTable kt vt topic node keySerde valSerde)
      (\<lambda>g b. building init {} {} {} {} b \<and> gt_storeName g \<in> bound_stores b)" for init
    unfolding GlobalTable_def
    by (rule makes_bind, rule makes_nextName, rule makes_bind,
        rule makes_modify [where Q = "\<lambda>_ b. building init {} {} {} {} b \<and> store \<in> bound_stores b" for store])
      (auto intro: building_bind bound_bind makes_ret)
  then show ?thesis by (rule call_okI) simp
qed

lemma call_JoinGlobal:
  "call_ok (\<lambda>b. has_stream s b \<and> gt_storeName g \<in> bound_stores b) (JoinGlobal_op kt vt wt g keyMapper joiner s) has_stream"
proof (cases keyMapper)
  case None
  then show ?thesis by (simp add: call_ok_def JoinGlobal_op_def failE_def)
next
  case (Some mapper)
  show ?thesis
    unfolding JoinGlobal_op_def Some option.case
    by (rule call_okI [where N = "{ks_nodeName s}" and K = "{}"], rule makes_bind, rule makes_nextName,
        rule makes_bind, rule makes_Stateful, simp, rule makes_ret)
      (auto elim: wired_but_bound simp: building_def has_stream_def grows_def)
qed

lemma call_JoinTable:
  "call_ok (\<lambda>b. has_stream s b \<and> has_table t b) (JoinTable_op kt vt wt t joiner valSerde s) has_stream"
  unfolding JoinTable_op_def
  by (rule call_okI [where N = "{ks_nodeName s}" and K = "{}"], rule makes_bind, rule makes_ensureRepartition, simp,
        rule makes_bind, rule makes_nextName, rule makes_bind, rule makes_Stateful, simp, rule makes_ret)
      (auto elim: wired_but_bound simp: building_def has_stream_def has_table_def grows_def)

text \<open>Calls in sequence, with the nodes and the stores known to be there so far.\<close>

definition knows :: "string set \<Rightarrow> string set \<Rightarrow> ('d, 'a) StreamBuilder \<Rightarrow> bool" where
  "knows N B b \<longleftrightarrow> N \<subseteq> regs b \<and> B \<subseteq> bound_stores b"

lemma grows_trans: "grows a b \<Longrightarrow> grows b c \<Longrightarrow> grows a c"
  unfolding grows_def by blast

lemma call_bind:
  assumes "call_ok P m R" "\<And>x. call_ok (R x) (f x) Q"
  shows "call_ok P (bindE m f) Q"
  unfolding call_ok_def
proof (intro allI impI)
  fix b r b' assume b: "wired b" "P b" "bindE m f b = (Inr r, b')"
  then obtain x b1 where x: "m b = (Inr x, b1)" "f x b1 = (Inr r, b')"
    by (elim bindE_InrE)
  have 1: "wired b1 \<and> grows b b1 \<and> R x b1"
    using assms(1) b(1,2) x(1) unfolding call_ok_def by blast
  have 2: "wired b' \<and> grows b1 b' \<and> Q r b'"
    using assms(2) [of x] 1 x(2) unfolding call_ok_def by blast
  show "wired b' \<and> grows b b' \<and> Q r b'"
    using 1 2 grows_trans by blast
qed

lemma call_knows:
  fixes m :: "(('d, 'a) StreamBuilder, 'r) act"
  assumes "\<And>init. knows N B init \<Longrightarrow> makes (building init {} N {} {}) m (\<lambda>r. building init {} (N' r) {} {})"
  shows "call_ok (knows N B) m (\<lambda>r. knows (N' r) B)"
proof (rule call_okI [where N = N and K = "{}"])
  fix init :: "('d, 'a) StreamBuilder" assume "knows N B init"
  then show "makes (building init {} N {} {}) m (\<lambda>r b. building init {} {} {} {} b \<and> knows (N' r) B b)"
    by (intro makes_post [OF assms]) (auto simp: building_def knows_def grows_def)
qed (simp add: knows_def)

lemma knows_nextName: "call_ok (knows N B) (nextName p) (\<lambda>_. knows N B)"
  by (intro call_knows makes_nextName)

lemma knows_ensureRepartition: "ks_nodeName s \<in> N \<Longrightarrow>
    call_ok (knows N B) (ensureRepartition kt vt keySerde valSerde s) (\<lambda>r. knows (insert (ks_nodeName r) N) B)"
  by (intro call_knows makes_ensureRepartition)

lemma knows_Processor: "set parents \<subseteq> N \<Longrightarrow>
    call_ok (knows N B) (internalE (AddProcessor name fn parents)) (\<lambda>_. knows (insert name N) B)"
  by (intro call_knows makes_Processor)

lemma knows_Stateful:
  fixes fn :: "(('d, 'a) estate, 'a) StatefulProcessFunc"
  assumes "set parents \<subseteq> N" "set stores \<subseteq> B"
  shows "call_ok (knows N B) (internalE (AddStatefulProcessor name fn stores parents)) (\<lambda>_. knows (insert name N) B)"
proof (rule call_knows, rule makes_post [OF makes_Stateful [OF assms(1)]])
  fix init s :: "('d, 'a) StreamBuilder"
  assume init: "knows N B init" and b: "building init ({} \<union> set stores) (insert name N) {} {} s"
  have "set stores \<subseteq> bound_stores s"
    using init b assms(2) unfolding knows_def building_def grows_def by blast
  then show "building init {} (insert name N) {} {} s"
    using b by (intro building_bound) simp_all
qed

lemma knows_bind_window:
  fixes wb :: "'a WindowStoreBinding"
  shows "call_ok (knows N B) (modifyE (\<lambda>b :: ('d, 'a) StreamBuilder. b\<lparr>sb_windowStores := go_set name wb (sb_windowStores b)\<rparr>))
    (\<lambda>_. knows N (insert name B))"
proof (rule call_okI [where N = N and K = "{}"], rule makes_modify, rule conjI)
  fix init s :: "('d, 'a) StreamBuilder" assume init: "knows N B init" and b: "building init {} N {} {} s"
  let ?b = "s\<lparr>sb_windowStores := go_set name wb (sb_windowStores s)\<rparr>"
  have "building init {} N {} {} ?b" by (rule building_bind(2) [OF b]) simp
  then show "building init {} {} {} {} ?b" "knows N (insert name B) ?b"
    using init bound_bind(2) [where name = name and b = s and wb = wb] by (auto simp: building_def knows_def grows_def)
qed (simp add: knows_def)

lemma knows_ret: "(\<And>b. knows N B b \<Longrightarrow> Q x b) \<Longrightarrow> call_ok (knows N B) (retE x) Q"
  by (simp add: call_ok_def retE_def grows_def)

lemma call_Join:
  "call_ok (\<lambda>b. has_stream s b \<and> has_stream other b)
     (Join_op bt kt vt wt xt other joiner windows keySerde leftSerde rightSerde s) has_stream"
proof -
  have "call_ok (knows {ks_nodeName s, ks_nodeName other} {})
     (Join_op bt kt vt wt xt other joiner windows keySerde leftSerde rightSerde s) has_stream"
    unfolding Join_op_def Let_def forE.simps
    apply (rule call_bind, rule knows_ensureRepartition, simp)
    apply (rule call_bind, rule knows_ensureRepartition, simp)
    apply (rule call_bind, rule knows_nextName)
    apply (rule call_bind, rule knows_nextName)
    apply (rule call_bind, rule call_bind, rule knows_bind_window, rule call_bind, rule knows_bind_window,
        rule knows_ret, assumption)
    apply (rule call_bind, rule knows_nextName, rule call_bind, rule knows_Stateful, simp, simp)
    apply (rule call_bind, rule knows_nextName, rule call_bind, rule knows_Stateful, simp, simp)
    apply (rule call_bind, rule knows_nextName, rule call_bind, rule knows_Processor, simp)
    apply (rule knows_ret, simp add: knows_def has_stream_def)
    done
  then show ?thesis by (simp add: call_ok_def knows_def has_stream_def)
qed

section \<open>Properties\<close>

text \<open>
  Unique names. The names that a builder generates are pairwise different, whatever their
  prefixes: a generated name can only clash with one that the user chose.
\<close>

theorem generated_names_distinct:
  "\<exists>names b'. nextNames ps b = (Inr names, b') \<and> length names = length ps \<and> distinct names"
proof -
  let ?ns = "zip ps [sb_counter b ..< sb_counter b + length ps]"
  have "inj_on (\<lambda>(p, i). numbered p i) (set ?ns)"
    by (rule inj_onI) (auto simp: set_zip dest!: numbered_inject)
  moreover have "distinct ?ns" by (simp add: distinct_zipI2)
  ultimately show ?thesis
    by (auto simp: nextNames_eq distinct_map)
qed

text \<open>
  C19: Building keeps the wiring. Starting from a new builder, and with handles that earlier calls
  returned, every call of the typed layer but \<open>KTable.To\<close>, when it does not panic, leaves a graph
  made by the inner builder without a self-loop, in which every source, sink and repartition
  binding names a registered node and every store a node asks for has a binding; it returns a
  handle to something registered and invalidates no other handle. \<open>KTable.To\<close> does so exactly for
  the tables that have a sink node: those of \<open>Aggregate\<close> (and \<open>Count\<close>) do, those of
  \<open>WindowedAggregate\<close> and \<open>SessionAggregate\<close> come with an empty sink name, and \<open>To\<close> on a table
  whose sink name is no sink of the graph leaves a binding that names no node.
\<close>

theorem dsl_calls_keep_wiring:
  "wired NewStreamBuilder
   \<and> call_ok (\<lambda>_. True) (Stream kt vt topic name keySerde valSerde) has_stream
   \<and> call_ok (has_stream s) (KStream_To kt vt topic name keySerde valSerde s) (\<lambda>_ _. True)
   \<and> call_ok (has_stream s) (Filter_op kt vt pred s) has_stream
   \<and> call_ok (has_stream s) (MapValues_op kt vt wt mapv s) has_stream
   \<and> call_ok (has_stream s) (Map_op kt vt jt wt mapkv s) has_stream
   \<and> call_ok (has_stream s) (SelectKey_op kt vt jt sel s) has_stream
   \<and> call_ok (has_stream s) (Repartition kt vt name partitions keySerde valSerde s) has_stream
   \<and> call_ok (has_stream s) (GroupByKey kt vt keySerde valSerde s) has_grouped
   \<and> call_ok (has_grouped g) (Aggregate_op kt vt ct name initFn aggFn accSerde g) (\<lambda>t b. has_table t b \<and> has_sink t b)
   \<and> call_ok (has_sink t) (KTable_To kt vt topic keySerde valSerde t) (\<lambda>_ _. True)
   \<and> (\<forall>b. \<not> has_sink t b \<longrightarrow> \<not> wired (snd (KTable_To kt vt topic keySerde valSerde t b)))
   \<and> call_ok (\<lambda>_. True) (GlobalTable kt vt topic name keySerde valSerde) (\<lambda>gt b. gt_storeName gt \<in> bound_stores b)
   \<and> call_ok (\<lambda>b. has_stream s b \<and> gt_storeName gt \<in> bound_stores b) (JoinGlobal_op kt vt wt gt keyMapper joinG s) has_stream
   \<and> call_ok (\<lambda>b. has_stream s b \<and> has_table u b) (JoinTable_op kt vt wt u joinT valSerde s) has_stream
   \<and> call_ok (has_grouped g) (WindowedAggregate_op kt vt ct name initFn aggFn accSerde
       (WithTimestampExtractor ext (WithGrace d (WindowedBy addr w g)))) (\<lambda>t b. has_table t b \<and> tb_sinkName t = [])
   \<and> call_ok (has_grouped g) (SessionAggregate_op kt vt ct name initFn aggFn mergeFn accSerde
       (Session_WithTimestampExtractor ext (Session_WithGrace d (SessionWindowedBy addr gapMs g))))
       (\<lambda>t b. has_table t b \<and> tb_sinkName t = [])
   \<and> call_ok (\<lambda>b. has_stream s b \<and> has_stream other b)
       (Join_op bt kt vt wt xt other joinS windows keySerde valSerde rightSerde s) has_stream"
proof -
  have "wired NewStreamBuilder"
    by (simp add: wired_def wired_but_def NewStreamBuilder_def NewBuilder_def built_New [unfolded NewBuilder_def])
  moreover have "call_ok (has_grouped g) (WindowedAggregate_op kt vt ct name initFn aggFn accSerde
       (WithTimestampExtractor ext (WithGrace d (WindowedBy addr w g)))) (\<lambda>t b. has_table t b \<and> tb_sinkName t = [])"
    using call_WindowedAggregate [of "WithTimestampExtractor ext (WithGrace d (WindowedBy addr w g))"]
    by (simp add: call_ok_def has_grouped_def WithTimestampExtractor_def WithGrace_def WindowedBy_def)
  moreover have "call_ok (has_grouped g) (SessionAggregate_op kt vt ct name initFn aggFn mergeFn accSerde
       (Session_WithTimestampExtractor ext (Session_WithGrace d (SessionWindowedBy addr gapMs g))))
       (\<lambda>t b. has_table t b \<and> tb_sinkName t = [])"
    using call_SessionAggregate [of "Session_WithTimestampExtractor ext (Session_WithGrace d (SessionWindowedBy addr gapMs g))"]
    by (simp add: call_ok_def has_grouped_def Session_WithTimestampExtractor_def Session_WithGrace_def SessionWindowedBy_def)
  ultimately show ?thesis
    unfolding Filter_op_def MapValues_op_def Map_op_def SelectKey_op_def Repartition_def
    by (intro conjI allI impI KTable_To_unbound call_Stream call_To call_stateless call_repartition call_GroupByKey call_Aggregate
        call_KTable_To call_GlobalTable call_JoinGlobal call_JoinTable call_Join)
qed

text \<open>
  Repartition topics are transparent. What the sink end of a repartition topic encodes, its
  source end decodes to the same key and value, when the serdes round-trip.
\<close>

theorem repartition_roundtrip:
  assumes "go_type kt" "go_type vt" "total_serde keySerde" "total_serde valSerde"
    and "repartition kt vt name partitions keySerde valSerde s b = (Inr r, b')"
  shows "\<exists>rb k v. go_get (sb_repartitionBindings b') name = Some rb \<and> rb_SourceName rb = ks_nodeName r
    \<and> rb_EncodeKey rb (box kt key) = Inr k \<and> rb_DecodeKey rb k = Inr (box kt key)
    \<and> rb_EncodeVal rb (box vt val) = Inr v \<and> rb_DecodeVal rb v = Inr (box vt val)"
proof -
  have rt: "\<exists>e. encode_as msg ty serde (box ty x) = Inr e \<and> decode_as ty serde e = Inr (box ty x)"
    if "go_type ty" "total_serde serde" for msg and ty :: "('a, 't) gotype" and serde and x
    using that total_serde.serialize_enc [OF that(2), of x] total_serde.deserialize_enc [OF that(2), of x]
    by (auto simp: encode_as_def decode_as_def go_type_def)
  obtain rb where rb: "go_get (sb_repartitionBindings b') name = Some rb" "rb_SourceName rb = ks_nodeName r"
    "rb_EncodeKey rb = encode_as ''gstream: repartition EncodeKey'' kt keySerde" "rb_DecodeKey rb = decode_as kt keySerde"
    "rb_EncodeVal rb = encode_as ''gstream: repartition EncodeVal'' vt valSerde" "rb_DecodeVal rb = decode_as vt valSerde"
    using assms(5) unfolding repartition_def
    by (elim bindE_InrE) (auto simp: nextName_def modifyE_def retE_def)
  then show ?thesis
    using rt [OF assms(1,3)] rt [OF assms(2,4)] by metis
qed

section \<open>Witness\<close>

definition demo_repartition :: "(unit, goval) StreamBuilder" where
  "demo_repartition = snd (Stream bytes_type bytes_type ''in'' ''src'' bytesserde bytesserde NewStreamBuilder)"

text \<open>A stream counted per key, and its table written to a topic.\<close>

definition demo_program :: "((unit, goval) StreamBuilder, unit) act" where
  "demo_program =
     bindE (Stream bytes_type bytes_type ''in'' ''src'' bytesserde bytesserde) (\<lambda>s.
     bindE (GroupByKey bytes_type bytes_type bytesserde bytesserde s) (\<lambda>g.
     bindE (Aggregate_op bytes_type bytes_type int64_type ''counts'' (\<lambda>_. 0) (\<lambda>_ _ n. n + 1) tally_serde g) (\<lambda>t.
     KTable_To bytes_type int64_type ''out'' bytesserde tally_serde t)))"

theorem dsl_calls_keep_wiring_witness:
  "\<exists>b. demo_program NewStreamBuilder = (Inr (), b) \<and> wired b"
proof -
  have "\<exists>b. demo_program NewStreamBuilder = (Inr (), b)"
    by (simp add: demo_program_def Stream_def GroupByKey_def ensureRepartition_def Aggregate_op_def KTable_To_def act_simps nextName_def internalE_def
        NewStreamBuilder_def NewBuilder_def AddSink_def AddSource_def AddProcessor_def AddStatefulProcessor_def
        numbered_def decimal.simps digit_def)
  then obtain b where b: "demo_program NewStreamBuilder = (Inr (), b)" by blast
  note calls = dsl_calls_keep_wiring [THEN conjunct2]
  note from_group = calls [THEN conjunct2, THEN conjunct2, THEN conjunct2, THEN conjunct2, THEN conjunct2,
      THEN conjunct2, THEN conjunct2]
  note from_table = from_group [THEN conjunct2]
  have "call_ok (\<lambda>_. True) demo_program (\<lambda>_ _. True)"
    unfolding demo_program_def
  proof (rule call_bind, rule calls [THEN conjunct1], rule call_bind, rule from_group [THEN conjunct1],
      rule call_bind, rule from_table [THEN conjunct1])
    fix t :: "(bytes, int) KTable"
    have "call_ok (has_sink t) (KTable_To bytes_type int64_type ''out'' bytesserde tally_serde t :: ((unit, goval) StreamBuilder, unit) act)
        (\<lambda>_ _. True)"
      by (rule from_table [THEN conjunct2, THEN conjunct1])
    then show "call_ok (\<lambda>b. has_table t b \<and> has_sink t b)
        (KTable_To bytes_type int64_type ''out'' bytesserde tally_serde t :: ((unit, goval) StreamBuilder, unit) act) (\<lambda>_ _. True)"
      by (simp add: call_ok_def)
  qed
  moreover have "wired (NewStreamBuilder :: (unit, goval) StreamBuilder)"
    by (rule dsl_calls_keep_wiring [THEN conjunct1])
  ultimately show ?thesis
    using b unfolding call_ok_def by blast
qed

theorem repartition_roundtrip_witness:
  "\<exists>rb k. go_get (sb_repartitionBindings (snd (repartition bytes_type int64_type ''by-user'' 4 bytesserde tally_serde
       \<lparr>ks_nodeName = ''src'', ks_repartitionRequired = True\<rparr> demo_repartition))) ''by-user'' = Some rb
    \<and> rb_EncodeKey rb (box bytes_type [1, 2]) = Inr k \<and> rb_DecodeKey rb k = Inr (box bytes_type [1, 2])"
proof -
  let ?r = "repartition bytes_type int64_type ''by-user'' 4 bytesserde tally_serde
       \<lparr>ks_nodeName = ''src'', ks_repartitionRequired = True\<rparr> demo_repartition"
  have "\<exists>r b'. ?r = (Inr r, b')"
    by (simp add: repartition_def demo_repartition_def Stream_def act_simps nextName_def internalE_def
        NewStreamBuilder_def NewBuilder_def AddSink_def AddSource_def numbered_def decimal.simps digit_def)
  then obtain r b' where "?r = (Inr r, b')" by blast
  then show ?thesis
    using repartition_roundtrip [OF bytes_ty.go_type_axioms int64_ty.go_type_axioms bytes_sd.total_serde_axioms
        tally.total_serde_axioms, of "''by-user''" 4 "\<lparr>ks_nodeName = ''src'', ks_repartitionRequired = True\<rparr>"
        demo_repartition r b' "[1, 2]" 0] by auto
qed

end
