(* ===== verification/Pipeline.thy ===== *)
theory Pipeline
  imports StreamDsl
begin

text \<open>
  A pipeline built with the typed layer and run by the executor: a source, a grouping, a keyed
  aggregation and its output. It joins the builder, the traversal of the graph, the operator, the
  in-memory store and the sink buffers in one statement.
\<close>

section \<open>The pipeline\<close>

definition aggregation_pipeline :: "('a, 'k) gotype \<Rightarrow> ('a, 'v) gotype \<Rightarrow> ('a, 'c) gotype \<Rightarrow> string \<Rightarrow> string \<Rightarrow> string
    \<Rightarrow> 'k Serde \<Rightarrow> 'v Serde \<Rightarrow> 'c Serde \<Rightarrow> (unit \<Rightarrow> 'c) \<Rightarrow> ('k \<Rightarrow> 'v \<Rightarrow> 'c \<Rightarrow> 'c)
    \<Rightarrow> (('d, 'a) StreamBuilder, ('k, 'c) KTable) act" where
  "aggregation_pipeline kt vt ct source store topic keySerde valSerde accSerde initFn aggFn =
     bindE (Stream kt vt topic source keySerde valSerde) (\<lambda>s.
     bindE (GroupByKey kt vt keySerde valSerde s) (\<lambda>g.
     Aggregate_op kt vt ct store initFn aggFn accSerde g))"

text \<open>Processing a sequence of records, until one fails.\<close>

fun process_all :: "string \<Rightarrow> 'a Record list \<Rightarrow> ('d, 'a) Executor \<Rightarrow> error option \<times> ('d, 'a) Executor" where
  "process_all source [] e = (None, e)"
| "process_all source (r # rs) e =
     (case Process source r e of (Some err, e') \<Rightarrow> (Some err, e') | (None, e') \<Rightarrow> process_all source rs e')"

text \<open>The updates that the records make to the table, in order.\<close>

fun updates :: "(unit \<Rightarrow> 'c) \<Rightarrow> ('k \<Rightarrow> 'v \<Rightarrow> 'c \<Rightarrow> 'c) \<Rightarrow> ('k \<times> 'v \<times> int) list \<Rightarrow> ('k \<rightharpoonup> 'c) \<Rightarrow> ('k \<times> 'c \<times> int) list" where
  "updates initFn aggFn [] m = []"
| "updates initFn aggFn ((k, v, ts) # rs) m =
     (let a = aggFn k v (case m k of None \<Rightarrow> initFn () | Some a \<Rightarrow> a)
      in (k, a, ts) # updates initFn aggFn rs (m(k \<mapsto> a)))"

section \<open>The graph it builds\<close>

definition agg_node :: string where "agg_node = ''aggregate-0''"
definition out_node :: string where "out_node = ''ktable-out-1''"

lemma generated: "numbered ''aggregate'' 0 = agg_node" "numbered ''ktable-out'' (Suc 0) = out_node" "agg_node \<noteq> out_node"
  by code_simp+

definition chain :: "string \<Rightarrow> ('s, 'a) StatefulProcessFunc \<Rightarrow> string list \<Rightarrow> (string, ('s, 'a) node) gomap" where
  "chain source fn stores =
     [(source, \<lparr>n_name = source, n_processFn = Some source_fn, n_statefulFn = None, n_storeNames = [],
         n_downstreams = [agg_node], n_isSink = False\<rparr>),
      (agg_node, \<lparr>n_name = agg_node, n_processFn = None, n_statefulFn = Some fn, n_storeNames = stores,
         n_downstreams = [out_node], n_isSink = False\<rparr>),
      (out_node, \<lparr>n_name = out_node, n_processFn = Some sinkPlaceholderFn, n_statefulFn = None, n_storeNames = [],
         n_downstreams = [], n_isSink = True\<rparr>)]"

lemma pipeline_builds:
  assumes "source \<noteq> agg_node" "source \<noteq> out_node"
  shows "\<exists>t b bt. aggregation_pipeline kt vt ct source store topic keySerde valSerde accSerde initFn aggFn NewStreamBuilder = (Inr t, b)
    \<and> tb_sinkName t = out_node \<and> StreamBuilder_Build b = Inr bt
    \<and> bt_Topology bt = \<lparr>t_sources = [source], t_sinks = [out_node],
        t_nodes = chain source (Aggregate_fn kt vt ct keySerde store initFn aggFn accSerde) [store]\<rparr>"
  using assms
  by (simp add: generated(3) [symmetric] aggregation_pipeline_def Stream_def GroupByKey_def ensureRepartition_def Aggregate_op_def act_simps
      internalE_def nextName_def NewStreamBuilder_def NewBuilder_def AddSource_def AddStatefulProcessor_def AddSink_def
      generated StreamBuilder_Build_def Build_def chain_def)

section \<open>One record\<close>

lemma chain_ok:
  assumes "source \<noteq> agg_node" "source \<noteq> out_node"
  shows "nodes_ok (chain source fn stores)"
  using assms generated(3) by (auto simp: nodes_ok_def chain_def go_map_ok_def)

lemma chain_get:
  assumes "source \<noteq> agg_node" "source \<noteq> out_node"
  shows "source \<in> dom (go_get (chain source fn stores))" "agg_node \<in> dom (go_get (chain source fn stores))"
    "out_node \<in> dom (go_get (chain source fn stores))"
  using assms by (auto simp: chain_def)

text \<open>A record that enters at the source runs the stateful function, whose output reaches the buffer.\<close>

lemma chain_process:
  fixes s :: "(MemBackend, 'a) estate"
  assumes "source \<noteq> agg_node" "source \<noteq> out_node"
    and "fn r (sink_ctx [out_node] names) (s\<lparr>es_firstErr := None\<rparr>) = (None, s')" "es_firstErr s' = None" "es_firstErr s = None"
  shows "processWithCtxAndHook (chain source fn stores) (mem_stores names) append_buffer source r s = (None, s')"
proof -
  let ?P = "processWithCtxAndHook (chain source fn stores) (mem_stores names) append_buffer"
  note ok = chain_ok [OF assms(1,2), where fn = fn and stores = stores]
  note get = chain_get [OF assms(1,2), where fn = fn and stores = stores]
  have out: "?P out_node = (\<lambda>r s. (None, append_buffer out_node r s))"
    using assms(2) generated(3)
    by (intro ext) (subst hook_unfold [OF ok get(3)], auto simp: processWithCtxAndHook_body_def chain_def)
  have fwd: "forward ?P [out_node] = forward (\<lambda>sink r s. (None, append_buffer sink r s)) [out_node]"
    by (rule forward_cong) (simp add: out)
  have agg: "?P agg_node r s = (None, s')"
    using assms(1,3,4,5) generated(3) fwd
    by (subst hook_unfold [OF ok get(2)])
      (simp add: processWithCtxAndHook_body_def chain_def process_node_def sink_ctx_def)
  have same: "u\<lparr>es_firstErr := None\<rparr> = u" if "es_firstErr u = None" for u :: "(MemBackend, 'a) estate"
    using that by (cases u) simp
  show ?thesis
    unfolding fun_cong [OF fun_cong [OF hook_unfold [OF ok get(1)]]]
    using agg assms(4,5)
    by (simp add: processWithCtxAndHook_body_def chain_def [of source] process_node_def source_fn_def forward_def same)
qed

section \<open>Any sequence of records\<close>

definition running :: "string \<Rightarrow> 'k Serde \<Rightarrow> 'c Serde \<Rightarrow> (MemBackend, 'a) estate \<Rightarrow> 'a Record list \<Rightarrow> bool" where
  "running store keySerde accSerde s buf \<longleftrightarrow> mem_data_ok store s \<and> decodable keySerde accSerde (mem_ctx_view store s)
     \<and> es_firstErr s = None \<and> go_get (es_buffers s) out_node = Some buf"

lemma running_step:
  assumes "go_type kt" "go_type vt" "total_serde keySerde" "total_serde accSerde"
    and run: "running store keySerde accSerde s buf" and src: "source \<noteq> agg_node" "source \<noteq> out_node"
    and a: "a = aggFn k v (case table keySerde accSerde (mem_ctx_view store s) k of None \<Rightarrow> initFn () | Some a \<Rightarrow> a)"
  shows "\<exists>s'. processWithCtxAndHook (chain source (Aggregate_fn kt vt ct keySerde store initFn aggFn accSerde) stores)
        (mem_stores [store]) append_buffer source (typed_record kt vt (k, v, ts)) s = (None, s')
    \<and> running store keySerde accSerde s' (buf @ [typed_record kt ct (k, a, ts)])
    \<and> table keySerde accSerde (mem_ctx_view store s') = (table keySerde accSerde (mem_ctx_view store s))(k \<mapsto> a)
    \<and> es_data s' = snd (Put (mem_store store) (total_serde.enc keySerde k) (total_serde.enc accSerde a) (es_data s))"
proof -
  let ?fn = "Aggregate_fn kt vt ct keySerde store initFn aggFn accSerde"
  let ?pc = "sink_ctx [out_node] [store]"
  note op = mem_table_op [OF assms(1-4), where name = store and sinks = "[out_node]"]
  have s: "mem_data_ok store s" "decodable keySerde accSerde (mem_ctx_view store s)"
    and same: "s\<lparr>es_firstErr := None\<rparr> = s"
    using run by (cases s, auto simp: running_def)
  obtain s' where s': "?fn (typed_record kt vt (k, v, ts)) ?pc s = (None, s')" "mem_data_ok store s'"
    "decodable keySerde accSerde (mem_ctx_view store s')"
    "table keySerde accSerde (mem_ctx_view store s') = agg_step initFn aggFn (k, v, ts) (table keySerde accSerde (mem_ctx_view store s))"
    using table_op.aggregate_step [OF op s, of ct initFn aggFn k v ts] by blast
  have "s' = append_buffer out_node (typed_record kt ct (k, a, ts))
      (snd (Put (lift_store (mem_store store)) (total_serde.enc keySerde k) (total_serde.enc accSerde a) s))"
    using table_op.aggregate_run [OF op s, of _ initFn k ct aggFn v ts] s'(1) run
    by (simp add: a sink_ctx_def processorCtxImpl_def forward_def typed_record_def running_def lift_store_def lift_update_def
        split: prod.splits)
  then have "es_firstErr s' = None \<and> go_get (es_buffers s') out_node = Some (buf @ [typed_record kt ct (k, a, ts)])
      \<and> es_data s' = snd (Put (mem_store store) (total_serde.enc keySerde k) (total_serde.enc accSerde a) (es_data s))"
    using run by (simp add: running_def append_buffer_def lift_store_def lift_update_def split: prod.splits)
  then show ?thesis
    using chain_process [OF src, of ?fn "typed_record kt vt (k, v, ts)" "[store]" s s' stores] s' same run
    by (auto simp: running_def agg_step_def a)
qed

lemma running_all:
  assumes "go_type kt" "go_type vt" "total_serde keySerde" "total_serde accSerde"
    and src: "source \<noteq> agg_node" "source \<noteq> out_node"
    and e: "x_topo e = \<lparr>t_sources = [source], t_sinks = [out_node],
        t_nodes = chain source (Aggregate_fn kt vt ct keySerde store initFn aggFn accSerde) [store]\<rparr>"
      "x_stores e = mem_stores [store]"
    and run: "running store keySerde accSerde (x_state e) buf"
  shows "\<exists>e'. process_all source (map (typed_record kt vt) kvs) e = (None, e')
    \<and> running store keySerde accSerde (x_state e')
        (buf @ map (typed_record kt ct) (updates initFn aggFn kvs (table keySerde accSerde (mem_ctx_view store (x_state e)))))
    \<and> table keySerde accSerde (mem_ctx_view store (x_state e'))
        = fold (agg_step initFn aggFn) kvs (table keySerde accSerde (mem_ctx_view store (x_state e)))"
  using e run
proof (induction kvs arbitrary: e buf)
  case Nil
  then show ?case by simp
next
  case (Cons kv kvs)
  obtain k v ts where kv: "kv = (k, v, ts)" by (cases kv)
  let ?m = "table keySerde accSerde (mem_ctx_view store (x_state e))"
  define a where "a = aggFn k v (case ?m k of None \<Rightarrow> initFn () | Some a \<Rightarrow> a)"
  obtain s' where s': "processWithCtxAndHook (t_nodes (x_topo e)) (mem_stores [store]) append_buffer source
        (typed_record kt vt (k, v, ts)) (x_state e) = (None, s')"
    "running store keySerde accSerde s' (buf @ [typed_record kt ct (k, a, ts)])"
    "table keySerde accSerde (mem_ctx_view store s') = ?m(k \<mapsto> a)"
    using running_step [OF assms(1-4) Cons.prems(3) src, where a = a and aggFn = aggFn and initFn = initFn and k = k and v = v
        and ct = ct and stores = "[store]" and ts = ts] Cons.prems(1) a_def by auto
  have "Process source (typed_record kt vt kv) e = (None, e\<lparr>x_state := s'\<rparr>)"
    using Cons.prems s'(1) by (simp add: Process_def kv)
  moreover have "table keySerde accSerde (mem_ctx_view store s') = agg_step initFn aggFn kv ?m"
    using s'(3) by (simp add: kv agg_step_def a_def)
  moreover have "updates initFn aggFn (kv # kvs) ?m = (k, a, ts) # updates initFn aggFn kvs (agg_step initFn aggFn kv ?m)"
    by (simp add: kv agg_step_def a_def Let_def)
  ultimately show ?case
    using Cons.IH [of "e\<lparr>x_state := s'\<rparr>" "buf @ [typed_record kt ct (k, a, ts)]"] Cons.prems s'(2) by simp
qed

section \<open>Property\<close>

text \<open>
  C2: The pipeline end to end. A source grouped by key and aggregated, built with the typed layer
  and run by the executor over an empty in-memory store, processes any sequence of well-typed
  records without error; afterwards the store holds for every key the fold of its values in
  arrival order, and draining the table's sink yields exactly the successive updates, in order.
\<close>

theorem pipeline_end_to_end:
  fixes kt :: "('a, 'k) gotype"
  assumes "go_type kt" "go_type vt" "total_serde keySerde" "total_serde accSerde"
    and "source \<noteq> agg_node" "source \<noteq> out_node" "mem_ok store d" "mem_view store d = Map.empty"
  shows "\<exists>t b bt e'. aggregation_pipeline kt vt ct source store topic keySerde valSerde accSerde initFn aggFn NewStreamBuilder = (Inr t, b)
    \<and> StreamBuilder_Build b = Inr bt
    \<and> process_all source (map (typed_record kt vt) kvs)
        (NewExecutorWithStreamTime (bt_Topology bt) (mem_stores [store]) d streamTime) = (None, e')
    \<and> (\<forall>k. table keySerde accSerde (mem_view store (es_data (x_state e'))) k
        = (case map (fst \<circ> snd) (filter (\<lambda>kv. fst kv = k) kvs) of
             [] \<Rightarrow> None | vs \<Rightarrow> Some (fold (aggFn k) vs (initFn ()))))
    \<and> fst (DrainSink (tb_sinkName t) e') = Inr (map (typed_record kt ct) (updates initFn aggFn kvs Map.empty))"
proof -
  obtain t and b :: "(MemBackend, 'a) StreamBuilder" and bt where t: "aggregation_pipeline kt vt ct source store topic keySerde valSerde accSerde initFn aggFn NewStreamBuilder = (Inr t, b)"
    "tb_sinkName t = out_node" "StreamBuilder_Build b = Inr bt"
    and topo: "bt_Topology bt = \<lparr>t_sources = [source], t_sinks = [out_node],
        t_nodes = chain source (Aggregate_fn kt vt ct keySerde store initFn aggFn accSerde) [store]\<rparr>"
    using pipeline_builds [OF assms(5,6)] by blast
  let ?e = "NewExecutorWithStreamTime (bt_Topology bt) (mem_stores [store]) d streamTime"
  have tbl: "table keySerde accSerde (mem_ctx_view store (x_state ?e)) = Map.empty"
    by (rule ext) (simp add: table_def NewExecutorWithStreamTime_def mem_ctx_view_def assms(8) split: sum.split)
  have "running store keySerde accSerde (x_state ?e) []"
    using assms(7,8) by (simp add: running_def NewExecutorWithStreamTime_def mem_data_ok_def mem_ctx_view_def decodable_def topo)
  from running_all [OF assms(1-6) _ _ this, where ct = ct and initFn = initFn and aggFn = aggFn and kvs = kvs]
  obtain e' where e': "process_all source (map (typed_record kt vt) kvs) ?e = (None, e')"
    "running store keySerde accSerde (x_state e') (map (typed_record kt ct) (updates initFn aggFn kvs Map.empty))"
    "table keySerde accSerde (mem_ctx_view store (x_state e')) = fold (agg_step initFn aggFn) kvs Map.empty"
    using topo tbl by (auto simp: NewExecutorWithStreamTime_def)
  have "fst (DrainSink (tb_sinkName t) e') = Inr (map (typed_record kt ct) (updates initFn aggFn kvs Map.empty))"
    using e'(2) t(2) by (simp add: running_def DrainSink_def drain_buffer_def)
  moreover have "table keySerde accSerde (mem_view store (es_data (x_state e'))) k
      = (case map (fst \<circ> snd) (filter (\<lambda>kv. fst kv = k) kvs) of
             [] \<Rightarrow> None | vs \<Rightarrow> Some (fold (aggFn k) vs (initFn ())))" for k
    using e'(3) by (simp add: mem_ctx_view_def agg_step_fold split: list.split)
  ultimately show ?thesis using t e'(1) by blast
qed

theorem pipeline_end_to_end_witness:
  "\<exists>t b bt e'. aggregation_pipeline bytes_type bytes_type int64_type ''src'' ''c'' ''in'' bytesserde bytesserde tally_serde
        count_init count_agg NewStreamBuilder = (Inr t, b)
    \<and> StreamBuilder_Build b = Inr bt
    \<and> process_all ''src'' (map (typed_record bytes_type bytes_type) [([1], [], 10), ([2], [], 11), ([1], [], 12)])
        (NewExecutorWithStreamTime (bt_Topology bt) (mem_stores [''c'']) (es_data (one_store ''c'')) None) = (None, e')
    \<and> fst (DrainSink (tb_sinkName t) e')
      = Inr (map (typed_record bytes_type int64_type) [([1], 1, 10), ([2], 1, 11), ([1], 2, 12)])"
  using pipeline_end_to_end [OF bytes_ty.go_type_axioms bytes_ty.go_type_axioms bytes_sd.total_serde_axioms
      tally.total_serde_axioms, of "''src''" "''c''" "es_data (one_store ''c'')" int64_type "''in''" bytesserde
      count_init count_agg "[([1], [], 10), ([2], [], 11), ([1], [], 12)]" None]
    one_store_data_ok [of "''c''"] one_store_empty [of "''c''" "''c''"]
  by (auto simp: agg_node_def out_node_def mem_data_ok_def mem_ctx_view_def count_init_def count_agg_def i64_def)

end
