(* ===== verification/PebbleStore.thy ===== *)
theory PebbleStore
  imports MemoryStore
begin

text \<open>
  \<open>stores/pebble\<close>: named key-value stores, checkpoints and stream-time on one Pebble database.
  The database itself is third-party code: its operations are a record of functions that every
  definition takes as its first argument, and what the store relies on of them is the locale
  \<open>pebble_db\<close>. A named store over a database with those laws meets the contract \<open>byte_store\<close>.
\<close>

section \<open>The database as a parameter\<close>

text \<open>
  \<open>*pebble.DB\<close> over a state \<open>'p\<close>: \<open>Get\<close> (with \<open>ErrNotFound\<close> as \<open>None\<close>), \<open>Set\<close> and \<open>Delete\<close> with
  \<open>pebble.Sync\<close>, \<open>NewIter\<close> with its bounds (the entries the iterator offers and its final error),
  adding to and committing a batch, closing a value returned by \<open>Get\<close>.
\<close>

datatype BatchOp = BatchSet bytes bytes | BatchDelete bytes

record 'p PebbleDB =
  pd_Get :: "bytes \<Rightarrow> 'p \<Rightarrow> error + bytes option"
  pd_Set :: "bytes \<Rightarrow> bytes \<Rightarrow> 'p \<Rightarrow> error option \<times> 'p"
  pd_Delete :: "bytes \<Rightarrow> 'p \<Rightarrow> error option \<times> 'p"
  pd_NewIter :: "bytes \<Rightarrow> bytes option \<Rightarrow> 'p \<Rightarrow> error + (bytes \<times> bytes) list \<times> error option"
  pd_BatchAdd :: "BatchOp \<Rightarrow> BatchOp list \<Rightarrow> error + BatchOp list"
  pd_Commit :: "BatchOp list \<Rightarrow> 'p \<Rightarrow> error option \<times> 'p"
  pd_closerClose :: "'p \<Rightarrow> error option"

section \<open>Mutations\<close>

datatype Mutation = MPut bytes bytes | MDelete bytes

type_synonym MutationCollector = "Mutation list"

definition Collector_Append :: "Mutation \<Rightarrow> MutationCollector \<Rightarrow> MutationCollector" where
  "Collector_Append m c = c @ [m]"

definition Collector_Drain :: "MutationCollector \<Rightarrow> Mutation list \<times> MutationCollector" where
  "Collector_Drain c = (c, [])"

section \<open>The key-value store\<close>

record ('k, 'v) PStore =
  ps_prefix :: bytes
  ps_kSerde :: "'k Serde"
  ps_vSerde :: "'v Serde"
  ps_collector :: "MutationCollector option"
  ps_closed :: bool

definition separator :: byte where
  "separator = 0"

definition NewKeyValueStoreWithChangelog :: "string \<Rightarrow> 'k Serde \<Rightarrow> 'v Serde \<Rightarrow> MutationCollector option \<Rightarrow> ('k, 'v) PStore" where
  "NewKeyValueStoreWithChangelog name kS vS collector =
     \<lparr>ps_prefix = bytes_of name @ [separator], ps_kSerde = kS, ps_vSerde = vS, ps_collector = collector, ps_closed = False\<rparr>"

definition peb_NewKeyValueStore :: "string \<Rightarrow> 'k Serde \<Rightarrow> 'v Serde \<Rightarrow> ('k, 'v) PStore" where
  "peb_NewKeyValueStore name kS vS = NewKeyValueStoreWithChangelog name kS vS None"

type_synonym ('k, 'v, 'p) pstate = "('k, 'v) PStore \<times> 'p"

definition pkv_Close :: "('k, 'v, 'p) pstate \<Rightarrow> error option \<times> ('k, 'v, 'p) pstate" where
  "pkv_Close = (\<lambda>(s, p). (None, (s\<lparr>ps_closed := True\<rparr>, p)))"

fun to_StoreMutation :: "Mutation \<Rightarrow> StoreMutation" where
  "to_StoreMutation (MPut k v) = \<lparr>m_Key = k, m_Value = Some v\<rparr>"
| "to_StoreMutation (MDelete k) = \<lparr>m_Key = k, m_Value = None\<rparr>"

definition pkv_DrainMutations :: "('k, 'v, 'p) pstate \<Rightarrow> StoreMutation list \<times> ('k, 'v, 'p) pstate" where
  "pkv_DrainMutations = (\<lambda>(s, p).
     case ps_collector s of
       None \<Rightarrow> ([], (s, p))
     | Some c \<Rightarrow> (case Collector_Drain c of
         (muts, c') \<Rightarrow> (map to_StoreMutation muts, (s\<lparr>ps_collector := Some c'\<rparr>, p))))"

definition pcheckOpen :: "('k, 'v) PStore \<Rightarrow> error option" where
  "pcheckOpen s = (if ps_closed s then Some (Err ''state: store is closed'') else None)"

definition pencodeKey :: "'k \<Rightarrow> ('k, 'v) PStore \<Rightarrow> error + bytes" where
  "pencodeKey k s = map_sum id (\<lambda>kb. ps_prefix s @ kb) (Serialize (ps_kSerde s) k)"

definition collect :: "Mutation \<Rightarrow> ('k, 'v) PStore \<Rightarrow> ('k, 'v) PStore" where
  "collect m s = (case ps_collector s of None \<Rightarrow> s | Some c \<Rightarrow> s\<lparr>ps_collector := Some (Collector_Append m c)\<rparr>)"

definition pkv_Get :: "'p PebbleDB \<Rightarrow> 'k \<Rightarrow> ('k, 'v, 'p) pstate \<Rightarrow> error + 'v option" where
  "pkv_Get D k = (\<lambda>(s, p).
     case pcheckOpen s of
       Some e \<Rightarrow> Inl e
     | None \<Rightarrow> (case pencodeKey k s of
         Inl e \<Rightarrow> Inl (Wrap ''state: Get encode key'' [e])
       | Inr pk \<Rightarrow> (case pd_Get D pk p of
           Inl e \<Rightarrow> Inl (Wrap ''state: Get pebble'' [e])
         | Inr None \<Rightarrow> Inr None
         | Inr (Some valBytes) \<Rightarrow> (case Deserialize (ps_vSerde s) valBytes of
             Inl e \<Rightarrow> Inl (Wrap ''state: Get deserialize value'' [e])
           | Inr v \<Rightarrow> Inr (Some v)))))"

definition pkv_Put :: "'p PebbleDB \<Rightarrow> 'k \<Rightarrow> 'v \<Rightarrow> ('k, 'v, 'p) pstate \<Rightarrow> error option \<times> ('k, 'v, 'p) pstate" where
  "pkv_Put D k v = (\<lambda>(s, p).
     case pcheckOpen s of
       Some e \<Rightarrow> (Some e, (s, p))
     | None \<Rightarrow> (case pencodeKey k s of
         Inl e \<Rightarrow> (Some (Wrap ''state: Put encode key'' [e]), (s, p))
       | Inr pk \<Rightarrow> (case Serialize (ps_vSerde s) v of
           Inl e \<Rightarrow> (Some (Wrap ''state: Put serialize value'' [e]), (s, p))
         | Inr pv \<Rightarrow> (case pd_Set D pk pv p of
             (Some e, p') \<Rightarrow> (Some (ErrStoreWrite ''Put'' e), (s, p'))
           | (None, p') \<Rightarrow> (None, (collect (MPut pk pv) s, p'))))))"

definition pkv_Delete :: "'p PebbleDB \<Rightarrow> 'k \<Rightarrow> ('k, 'v, 'p) pstate \<Rightarrow> error option \<times> ('k, 'v, 'p) pstate" where
  "pkv_Delete D k = (\<lambda>(s, p).
     case pcheckOpen s of
       Some e \<Rightarrow> (Some e, (s, p))
     | None \<Rightarrow> (case pencodeKey k s of
         Inl e \<Rightarrow> (Some (Wrap ''state: Delete encode key'' [e]), (s, p))
       | Inr pk \<Rightarrow> (case pd_Delete D pk p of
           (Some e, p') \<Rightarrow> (Some (ErrStoreWrite ''Delete'' e), (s, p'))
         | (None, p') \<Rightarrow> (None, (collect (MDelete pk) s, p')))))"

text \<open>
  The loop of \<open>Range\<close> over the iterator: an entry without the prefix ends it, one that does not
  decode is an error, and the iterator's own error is reported when it is exhausted.
\<close>

fun range_loop :: "('k, 'v) PStore \<Rightarrow> (bytes \<times> bytes) list \<Rightarrow> error option \<Rightarrow> ('k \<times> 'v) list \<times> error option" where
  "range_loop s [] iterErr = ([], map_option (\<lambda>e. Wrap ''state: Range iter error'' [e]) iterErr)"
| "range_loop s ((rawKey, rawVal) # rest) iterErr =
     (if take (length (ps_prefix s)) rawKey \<noteq> ps_prefix s then ([], None)
      else case Deserialize (ps_kSerde s) (drop (length (ps_prefix s)) rawKey) of
        Inl e \<Rightarrow> ([], Some (Wrap ''state: Range deserialize key'' [e]))
      | Inr k \<Rightarrow> (case Deserialize (ps_vSerde s) rawVal of
          Inl e \<Rightarrow> ([], Some (Wrap ''state: Range deserialize value'' [e]))
        | Inr v \<Rightarrow> (case range_loop s rest iterErr of (es, err) \<Rightarrow> ((k, v) # es, err))))"

definition pkv_Range :: "'p PebbleDB \<Rightarrow> ('k, 'v, 'p) pstate \<Rightarrow> ('k \<times> 'v) list \<times> error option" where
  "pkv_Range D = (\<lambda>(s, p).
     case pcheckOpen s of
       Some e \<Rightarrow> ([], Some e)
     | None \<Rightarrow> (case pd_NewIter D (ps_prefix s) (pebble_prefixUpperBound (ps_prefix s)) p of
         Inl e \<Rightarrow> ([], Some (Wrap ''state: Range new iter'' [e]))
       | Inr (entries, iterErr) \<Rightarrow> range_loop s entries iterErr))"

definition pkv_RangeBytes :: "'p PebbleDB \<Rightarrow> bytes \<Rightarrow> bytes \<Rightarrow> ('k, 'v, 'p) pstate \<Rightarrow> (bytes \<times> bytes) list \<times> error option" where
  "pkv_RangeBytes D lower upper = (\<lambda>(s, p).
     case pcheckOpen s of
       Some e \<Rightarrow> ([], Some e)
     | None \<Rightarrow> (case pd_NewIter D (ps_prefix s @ lower) (Some (ps_prefix s @ upper)) p of
         Inl e \<Rightarrow> ([], Some (Wrap ''state: RangeBytes new iter'' [e]))
       | Inr (entries, iterErr) \<Rightarrow>
           (entries, map_option (\<lambda>e. Wrap ''state: RangeBytes iter error'' [e]) iterErr)))"

text \<open>\<open>DeleteRangeBytes\<close> collects the keys first and deletes them one by one, with a tombstone each.\<close>

fun delete_keys :: "'p PebbleDB \<Rightarrow> bytes list \<Rightarrow> ('k, 'v, 'p) pstate \<Rightarrow> error option \<times> ('k, 'v, 'p) pstate" where
  "delete_keys D [] st = (None, st)"
| "delete_keys D (fullKey # keys) (s, p) =
     (case pd_Delete D fullKey p of
        (Some e, p') \<Rightarrow> (Some (ErrStoreWrite ''DeleteRangeBytes'' e), (s, p'))
      | (None, p') \<Rightarrow> delete_keys D keys (collect (MDelete fullKey) s, p'))"

definition pkv_DeleteRangeBytes :: "'p PebbleDB \<Rightarrow> bytes \<Rightarrow> bytes \<Rightarrow> ('k, 'v, 'p) pstate \<Rightarrow> error option \<times> ('k, 'v, 'p) pstate" where
  "pkv_DeleteRangeBytes D lower upper st =
     (case pcheckOpen (fst st) of
        Some e \<Rightarrow> (Some e, st)
      | None \<Rightarrow> (case pkv_RangeBytes D lower upper st of
          (entries, Some e) \<Rightarrow> (Some (Wrap ''state: DeleteRangeBytes scan'' [e]), st)
        | (entries, None) \<Rightarrow> delete_keys D (map fst entries) st))"

definition pkv_WindowGet :: "'p PebbleDB \<Rightarrow> bytes \<Rightarrow> int \<Rightarrow> ('k, 'v, 'p) pstate \<Rightarrow> error + bytes option" where
  "pkv_WindowGet D kBytes windowStart = (\<lambda>(s, p).
     case pcheckOpen s of
       Some e \<Rightarrow> Inl e
     | None \<Rightarrow> (case pd_Get D (ps_prefix s @ WindowCompositeKey kBytes windowStart) p of
         Inl e \<Rightarrow> Inl (Wrap ''state: WindowGet pebble'' [e])
       | Inr r \<Rightarrow> Inr r))"

definition pkv_WindowPut :: "'p PebbleDB \<Rightarrow> bytes \<Rightarrow> int \<Rightarrow> bytes \<Rightarrow> ('k, 'v, 'p) pstate \<Rightarrow> error option \<times> ('k, 'v, 'p) pstate" where
  "pkv_WindowPut D kBytes windowStart val = (\<lambda>(s, p).
     case pcheckOpen s of
       Some e \<Rightarrow> (Some e, (s, p))
     | None \<Rightarrow>
         let pk = ps_prefix s @ WindowCompositeKey kBytes windowStart in
         (case pd_Set D pk val p of
            (Some e, p') \<Rightarrow> (Some (ErrStoreWrite ''WindowPut'' e), (s, p'))
          | (None, p') \<Rightarrow> (None, (collect (MPut pk val) s, p'))))"

definition pkv_WindowDelete :: "'p PebbleDB \<Rightarrow> bytes \<Rightarrow> int \<Rightarrow> ('k, 'v, 'p) pstate \<Rightarrow> error option \<times> ('k, 'v, 'p) pstate" where
  "pkv_WindowDelete D kBytes windowStart = (\<lambda>(s, p).
     case pcheckOpen s of
       Some e \<Rightarrow> (Some e, (s, p))
     | None \<Rightarrow>
         let pk = ps_prefix s @ WindowCompositeKey kBytes windowStart in
         (case pd_Delete D pk p of
            (Some e, p') \<Rightarrow> (Some (ErrStoreWrite ''WindowDelete'' e), (s, p'))
          | (None, p') \<Rightarrow> (None, (collect (MDelete pk) s, p'))))"

definition pkv_RangeCompositeBytes :: "'p PebbleDB \<Rightarrow> bytes \<Rightarrow> bytes \<Rightarrow> ('k, 'v, 'p) pstate
    \<Rightarrow> (bytes \<times> bytes) list \<times> error option" where
  "pkv_RangeCompositeBytes D lower upper = (\<lambda>(s, p).
     case pcheckOpen s of
       Some e \<Rightarrow> ([], Some e)
     | None \<Rightarrow> (case pd_NewIter D (ps_prefix s @ lower) (Some (ps_prefix s @ upper)) p of
         Inl e \<Rightarrow> ([], Some (Wrap ''state: RangeCompositeBytes new iter'' [e]))
       | Inr (entries, iterErr) \<Rightarrow>
           (map (\<lambda>(rawKey, rawVal). (drop (length (ps_prefix s)) rawKey, rawVal)) entries,
            map_option (\<lambda>e. Wrap ''state: RangeCompositeBytes iter error'' [e]) iterErr)))"

text \<open>
  \<open>RangeForKey\<close>: a key that does not decode stops the enumeration with its error; the error of
  the range itself is reported only when every key decoded.
\<close>

fun decode_sessions :: "(bytes \<times> bytes) list \<Rightarrow> error option \<Rightarrow> (int \<times> bytes) list \<times> error option" where
  "decode_sessions [] err = ([], err)"
| "decode_sessions ((compositeKey, val) # rest) err =
     (case DecodeWindowCompositeKey compositeKey of
        Inl dErr \<Rightarrow> ([], Some dErr)
      | Inr (_, sessionStart) \<Rightarrow>
          (case decode_sessions rest err of (es, e) \<Rightarrow> ((sessionStart, val) # es, e)))"

definition pkv_RangeForKey :: "'p PebbleDB \<Rightarrow> bytes \<Rightarrow> ('k, 'v, 'p) pstate \<Rightarrow> (int \<times> bytes) list \<times> error option" where
  "pkv_RangeForKey D kBytes st =
     (case pcheckOpen (fst st) of
        Some e \<Rightarrow> ([], Some e)
      | None \<Rightarrow>
          let upper = (case WindowKeyUpperBound kBytes of None \<Rightarrow> [] | Some u \<Rightarrow> u) in
          (case pkv_RangeCompositeBytes D (WindowKeyLowerBound kBytes) upper st of
             (entries, err) \<Rightarrow> decode_sessions entries err))"

section \<open>Checkpoints and stream-time\<close>

definition checkpointPrefix :: bytes where
  "checkpointPrefix = 0 # bytes_of ''__gstream_ckpt__'' @ [0]"

definition checkpointKey :: "string \<Rightarrow> bytes" where
  "checkpointKey storeName = checkpointPrefix @ bytes_of storeName"

definition WriteCheckpoint :: "'p PebbleDB \<Rightarrow> string \<Rightarrow> int \<Rightarrow> BatchOp list \<Rightarrow> error + BatchOp list" where
  "WriteCheckpoint D storeName offset b =
     (case pd_BatchAdd D (BatchSet (checkpointKey storeName) (be_bytes 8 offset)) b of
        Inl e \<Rightarrow> Inl (Wrap ''state: WriteCheckpoint'' [e])
      | Inr b' \<Rightarrow> Inr b')"

text \<open>The common shape of \<open>ReadCheckpoint\<close> and \<open>ReadStreamTime\<close>: read, close, decode 8 bytes.\<close>

definition read_int64 :: "'p PebbleDB \<Rightarrow> string \<Rightarrow> bytes \<Rightarrow> 'p \<Rightarrow> error + int option" where
  "read_int64 D msg key p =
     (case pd_Get D key p of
        Inl e \<Rightarrow> Inl (Wrap msg [e])
      | Inr None \<Rightarrow> Inr None
      | Inr (Some val) \<Rightarrow> (case pd_closerClose D p of
          Some e \<Rightarrow> Inl (Wrap (msg @ '' close'') [e])
        | None \<Rightarrow> if length val \<noteq> 8 then Inl (Err (msg @ '': corrupt value''))
                  else Inr (Some (int64_of_be val))))"

definition ReadCheckpoint :: "'p PebbleDB \<Rightarrow> string \<Rightarrow> 'p \<Rightarrow> error + int option" where
  "ReadCheckpoint D storeName = read_int64 D ''state: ReadCheckpoint'' (checkpointKey storeName)"

definition WriteCheckpointSync :: "'p PebbleDB \<Rightarrow> string \<Rightarrow> int \<Rightarrow> 'p \<Rightarrow> error option \<times> 'p" where
  "WriteCheckpointSync D storeName offset p =
     (case WriteCheckpoint D storeName offset [] of
        Inl e \<Rightarrow> (Some e, p)
      | Inr b \<Rightarrow> (case pd_Commit D b p of
          (Some e, p') \<Rightarrow> (Some (Wrap ''state: WriteCheckpointSync commit'' [e]), p')
        | (None, p') \<Rightarrow> (None, p')))"

definition streamTimeKey :: bytes where
  "streamTimeKey = 0 # bytes_of ''__gstream_streamtime__'' @ [0]"

definition WriteStreamTime :: "'p PebbleDB \<Rightarrow> int \<Rightarrow> 'p \<Rightarrow> error option \<times> 'p" where
  "WriteStreamTime D ts p =
     (case pd_Set D streamTimeKey (be_bytes 8 ts) p of
        (Some e, p') \<Rightarrow> (Some (Wrap ''state: WriteStreamTime'' [e]), p')
      | (None, p') \<Rightarrow> (None, p'))"

definition WriteStreamTimeBatch :: "'p PebbleDB \<Rightarrow> int \<Rightarrow> BatchOp list \<Rightarrow> error + BatchOp list" where
  "WriteStreamTimeBatch D ts b =
     (case pd_BatchAdd D (BatchSet streamTimeKey (be_bytes 8 ts)) b of
        Inl e \<Rightarrow> Inl (Wrap ''state: WriteStreamTimeBatch'' [e])
      | Inr b' \<Rightarrow> Inr b')"

definition ReadStreamTime :: "'p PebbleDB \<Rightarrow> 'p \<Rightarrow> error + int option" where
  "ReadStreamTime D = read_int64 D ''state: ReadStreamTime'' streamTimeKey"

section \<open>The backend\<close>

text \<open>One database with the raw stores opened on it, by name.\<close>

record 'p PebbleBackend =
  pb_db :: 'p
  pb_stores :: "(string, (bytes, bytes) PStore) gomap"

definition peb_OpenStore :: "string \<Rightarrow> bool \<Rightarrow> 'p PebbleBackend \<Rightarrow> error option \<times> 'p PebbleBackend" where
  "peb_OpenStore name collecting b =
     (None, b\<lparr>pb_stores := go_set name
        (NewKeyValueStoreWithChangelog name bytesserde bytesserde (if collecting then Some [] else None)) (pb_stores b)\<rparr>)"

definition batch_op :: "StoreMutation \<Rightarrow> BatchOp" where
  "batch_op mutation =
     (case m_Value mutation of None \<Rightarrow> BatchDelete (m_Key mutation) | Some v \<Rightarrow> BatchSet (m_Key mutation) v)"

fun fill_batch :: "'p PebbleDB \<Rightarrow> StoreMutation list \<Rightarrow> BatchOp list \<Rightarrow> error + BatchOp list" where
  "fill_batch D [] batch = Inr batch"
| "fill_batch D (mutation # rest) batch =
     (case pd_BatchAdd D (batch_op mutation) batch of
        Inl e \<Rightarrow> Inl (ErrStoreWrite ''Restore'' e)
      | Inr batch' \<Rightarrow> fill_batch D rest batch')"

definition peb_Restore :: "'p PebbleDB \<Rightarrow> string \<Rightarrow> StoreMutation list \<Rightarrow> int \<Rightarrow> 'p \<Rightarrow> error option \<times> 'p" where
  "peb_Restore D storeName muts checkpoint p =
     (case fill_batch D muts [] of
        Inl e \<Rightarrow> (Some e, p)
      | Inr batch \<Rightarrow>
        (case (if checkpoint \<ge> 0 then WriteCheckpoint D storeName checkpoint batch else Inr batch) of
           Inl e \<Rightarrow> (Some e, p)
         | Inr batch' \<Rightarrow> (case pd_Commit D batch' p of
             (Some e, p') \<Rightarrow> (Some (ErrStoreWrite ''Restore'' e), p')
           | (None, p') \<Rightarrow> (None, p'))))"

definition peb_read :: "string \<Rightarrow> ((bytes, bytes, 'p) pstate \<Rightarrow> 'r) \<Rightarrow> 'r \<Rightarrow> 'p PebbleBackend \<Rightarrow> 'r" where
  "peb_read name op nil b =
     (case go_get (pb_stores b) name of None \<Rightarrow> nil | Some s \<Rightarrow> op (s, pb_db b))"

definition peb_update :: "string \<Rightarrow> ((bytes, bytes, 'p) pstate \<Rightarrow> 'r \<times> (bytes, bytes, 'p) pstate) \<Rightarrow> 'r
    \<Rightarrow> 'p PebbleBackend \<Rightarrow> 'r \<times> 'p PebbleBackend" where
  "peb_update name op nil b =
     (case go_get (pb_stores b) name of
        None \<Rightarrow> (nil, b)
      | Some s \<Rightarrow> (case op (s, pb_db b) of
          (r, (s', p')) \<Rightarrow> (r, b\<lparr>pb_db := p', pb_stores := go_set name s' (pb_stores b)\<rparr>)))"

definition not_opened :: error where
  "not_opened = Err ''pebble: nil store''"

definition peb_store :: "'p PebbleDB \<Rightarrow> string \<Rightarrow> 'p PebbleBackend Store" where
  "peb_store D name =
     \<lparr>Get = (\<lambda>k. peb_read name (pkv_Get D k) (Inl not_opened)),
      Put = (\<lambda>k v. peb_update name (pkv_Put D k v) (Some not_opened)),
      Delete = (\<lambda>k. peb_update name (pkv_Delete D k) (Some not_opened)),
      Range = peb_read name (pkv_Range D) ([], Some not_opened),
      WindowGet = (\<lambda>k t. peb_read name (pkv_WindowGet D k t) (Inl not_opened)),
      WindowPut = (\<lambda>k t v. peb_update name (pkv_WindowPut D k t v) (Some not_opened)),
      WindowDelete = (\<lambda>k t. peb_update name (pkv_WindowDelete D k t) (Some not_opened)),
      RangeCompositeBytes = (\<lambda>lo hi. peb_read name (pkv_RangeCompositeBytes D lo hi) ([], Some not_opened)),
      RangeForKey = (\<lambda>k. peb_read name (pkv_RangeForKey D k) ([], Some not_opened)),
      DrainMutations = peb_update name pkv_DrainMutations [],
      Close = peb_update name pkv_Close (Some not_opened)\<rparr>"

section \<open>What is relied on of the database\<close>

fun apply_op :: "BatchOp \<Rightarrow> (bytes \<rightharpoonup> bytes) \<Rightarrow> bytes \<rightharpoonup> bytes" where
  "apply_op (BatchSet k v) m = m(k \<mapsto> v)"
| "apply_op (BatchDelete k) m = m(k := None)"

definition below :: "bytes option \<Rightarrow> bytes \<Rightarrow> bool" where
  "below hi k \<longleftrightarrow> (case hi of None \<Rightarrow> True | Some u \<Rightarrow> k < u)"

text \<open>
  A database that does not fail is a finite map in byte order; \<open>Set\<close>, \<open>Delete\<close> and \<open>Commit\<close> update
  it, a batch applies its operations in order and at once.
\<close>

locale pebble_db =
  fixes D :: "'p PebbleDB" and pview :: "'p \<Rightarrow> bytes \<rightharpoonup> bytes"
  assumes finite_pview: "finite (dom (pview p))"
    and db_get: "pd_Get D k p = Inr (pview p k)"
    and db_set: "pd_Set D k v p = (e, p') \<Longrightarrow> e = None \<and> pview p' = (pview p)(k \<mapsto> v)"
    and db_delete: "pd_Delete D k p = (e, p') \<Longrightarrow> e = None \<and> pview p' = (pview p)(k := None)"
    and db_iter: "pd_NewIter D lo hi p
      = Inr (map (\<lambda>k. (k, the (pview p k))) (sorted_list_of_set {k \<in> dom (pview p). lo \<le> k \<and> below hi k}), None)"
    and db_batch: "pd_BatchAdd D bop ops = Inr (ops @ [bop])"
    and db_commit: "pd_Commit D ops p = (e, p') \<Longrightarrow> e = None \<and> pview p' = fold apply_op ops (pview p)"
    and db_closer: "pd_closerClose D p = None"

definition pkv_ok :: "string \<Rightarrow> (bytes, bytes) PStore \<Rightarrow> bool" where
  "pkv_ok name s \<longleftrightarrow> ps_prefix s = name_prefix name \<and> ps_kSerde s = bytesserde \<and> ps_vSerde s = bytesserde \<and> \<not> ps_closed s"

definition peb_ok :: "string \<Rightarrow> 'p PebbleBackend \<Rightarrow> bool" where
  "peb_ok name b \<longleftrightarrow> (case go_get (pb_stores b) name of Some s \<Rightarrow> pkv_ok name s | None \<Rightarrow> False)"

definition peb_view :: "('p \<Rightarrow> bytes \<rightharpoonup> bytes) \<Rightarrow> string \<Rightarrow> 'p PebbleBackend \<Rightarrow> bytes \<rightharpoonup> bytes" where
  "peb_view pview name b key = pview (pb_db b) (name_prefix name @ key)"

section \<open>The contract holds\<close>

lemma finite_prefixed: "finite (dom m) \<Longrightarrow> finite {k. p @ k \<in> dom m \<and> P k}" for p :: bytes
proof -
  assume "finite (dom m)"
  then have "finite ((@) p ` {k. p @ k \<in> dom m \<and> P k})" by (rule rev_finite_subset) auto
  then show ?thesis by (rule finite_imageD) (simp add: inj_on_def)
qed

lemma strip_prefixed:
  fixes m :: "bytes \<rightharpoonup> bytes"
  assumes fin: "finite (dom m)" and sel: "\<And>k. sel k \<Longrightarrow> prefix p k"
  shows "map (\<lambda>(k, v). (drop (length p) k, v)) (map (\<lambda>k. (k, the (m k))) (sorted_list_of_set {k \<in> dom m. sel k}))
    = map (\<lambda>k. (k, the (m (p @ k)))) (sorted_list_of_set {k. p @ k \<in> dom m \<and> sel (p @ k)})"
proof -
  let ?K = "{k. p @ k \<in> dom m \<and> sel (p @ k)}"
  have fK: "finite ?K" using fin by (rule finite_prefixed)
  have img: "{k \<in> dom m. sel k} = (@) p ` ?K"
  proof (intro equalityI subsetI)
    fix k assume k: "k \<in> {k \<in> dom m. sel k}"
    with sel obtain r where "k = p @ r" by (auto simp: prefix_def)
    with k show "k \<in> (@) p ` ?K" by auto
  qed auto
  have "map (\<lambda>(k, v). (drop (length p) k, v)) (map (\<lambda>k. (k, the (m k))) (sorted_list_of_set {k \<in> dom m. sel k}))
      = map (\<lambda>k. (k, the (m (p @ k)))) (map (drop (length p)) (sorted_list_of_set ((@) p ` ?K)))"
    using fK by (auto simp: img)
  then show ?thesis by (simp only: sorted_list_of_set_strip [OF fK])
qed

lemma pkv_okD:
  assumes "pkv_ok name s"
  shows "ps_prefix s = name_prefix name" "ps_kSerde s = bytesserde" "ps_vSerde s = bytesserde" "pcheckOpen s = None"
  using assms by (auto simp: pkv_ok_def pcheckOpen_def)

lemma pkv_ok_collect [simp]: "pkv_ok name (collect m s) = pkv_ok name s"
  by (simp add: pkv_ok_def collect_def split: option.split)

lemma range_loop_ok:
  "pkv_ok name s \<Longrightarrow> (\<forall>(k, v) \<in> set es. prefix (name_prefix name) k) \<Longrightarrow>
    range_loop s es None = (map (\<lambda>(k, v). (drop (length (name_prefix name)) k, v)) es, None)"
  by (induction s es "None :: error option" rule: range_loop.induct)
    (auto simp: pkv_okD bytesserde_def prefix_def)

lemma decode_sessions_ok:
  "(\<And>c. c \<in> fst ` set es \<Longrightarrow> \<exists>t. is_i64 t \<and> c = CompositeKey k t) \<Longrightarrow> key_fits k \<Longrightarrow>
    decode_sessions es None = (map (\<lambda>(c, v). (int64_of_be (drop (4 + length k) c), v)) es, None)"
proof (induction es)
  case Nil
  then show ?case by simp
next
  case (Cons e es)
  obtain c v where e: "e = (c, v)" by fastforce
  then obtain t where t: "is_i64 t" "c = CompositeKey k t" using Cons.prems(1) by force
  have "int64_of_be (drop (4 + length k) c) = t"
    using t by (simp add: CompositeKey_def int64_of_be_be_bytes)
  moreover have "decode_sessions es None = (map (\<lambda>(c, v). (int64_of_be (drop (4 + length k) c), v)) es, None)"
    using Cons by auto
  ultimately show ?case
    using e t Cons.prems(2) decode_CompositeKey [of k t] decoders_agree(1) [of c k t] by simp
qed

lemma peb_okE:
  assumes "peb_ok name b"
  obtains s where "go_get (pb_stores b) name = Some s" "pkv_ok name s"
  using assms by (auto simp: peb_ok_def split: option.splits)

context pebble_db
begin

lemma view_upd: "pview p' = (pview (pb_db b))(name_prefix name @ k := x) \<Longrightarrow>
    peb_view pview name (b\<lparr>pb_db := p', pb_stores := ss\<rparr>) = (peb_view pview name b)(k := x)"
  by (rule ext) (simp add: peb_view_def)

lemma update_law:
  assumes "peb_ok name b" "peb_update name op nil b = (e, b')"
    and op: "\<And>s p. pkv_ok name s \<Longrightarrow> \<exists>s' p'. op (s, p) = (None, (s', p')) \<and> pkv_ok name s'
      \<and> pview p' = (pview p)(name_prefix name @ k := x)"
  shows "e = None \<and> peb_ok name b' \<and> peb_view pview name b' = (peb_view pview name b)(k := x)"
proof -
  obtain s where s: "go_get (pb_stores b) name = Some s" "pkv_ok name s" using assms(1) by (rule peb_okE)
  then obtain s' p' where "op (s, pb_db b) = (None, (s', p'))" "pkv_ok name s'"
    "pview p' = (pview (pb_db b))(name_prefix name @ k := x)"
    using op by blast
  then show ?thesis
    using assms(2) s(1) view_upd [of p' b name k x] by (auto simp: peb_update_def peb_ok_def)
qed

lemma put_ok: "pkv_ok name s \<Longrightarrow> \<exists>s' p'. pkv_Put D k v (s, p) = (None, (s', p')) \<and> pkv_ok name s'
    \<and> pview p' = (pview p)(name_prefix name @ k := Some v)"
  using db_set [of "name_prefix name @ k" v p]
  by (cases "pd_Set D (name_prefix name @ k) v p")
    (auto simp: pkv_Put_def pkv_okD pencodeKey_def bytesserde_def)

lemma delete_ok: "pkv_ok name s \<Longrightarrow> \<exists>s' p'. pkv_Delete D k (s, p) = (None, (s', p')) \<and> pkv_ok name s'
    \<and> pview p' = (pview p)(name_prefix name @ k := None)"
  using db_delete [of "name_prefix name @ k" p]
  by (cases "pd_Delete D (name_prefix name @ k) p")
    (auto simp: pkv_Delete_def pkv_okD pencodeKey_def bytesserde_def)

lemma window_put_ok: "pkv_ok name s \<Longrightarrow> \<exists>s' p'. pkv_WindowPut D k t v (s, p) = (None, (s', p')) \<and> pkv_ok name s'
    \<and> pview p' = (pview p)(name_prefix name @ CompositeKey k t := Some v)"
  using db_set [of "name_prefix name @ CompositeKey k t" v p]
  by (cases "pd_Set D (name_prefix name @ CompositeKey k t) v p")
    (auto simp: pkv_WindowPut_def pkv_okD WindowCompositeKey_def Let_def)

lemma window_delete_ok: "pkv_ok name s \<Longrightarrow> \<exists>s' p'. pkv_WindowDelete D k t (s, p) = (None, (s', p')) \<and> pkv_ok name s'
    \<and> pview p' = (pview p)(name_prefix name @ CompositeKey k t := None)"
  using db_delete [of "name_prefix name @ CompositeKey k t" p]
  by (cases "pd_Delete D (name_prefix name @ CompositeKey k t) p")
    (auto simp: pkv_WindowDelete_def pkv_okD WindowCompositeKey_def Let_def)

lemma range_composite_ok:
  assumes "pkv_ok name s"
  shows "pkv_RangeCompositeBytes D lo hi (s, p) = (entries_between lo hi (\<lambda>k. pview p (name_prefix name @ k)), None)"
proof -
  let ?p = "name_prefix name"
  have "map (\<lambda>(k, v). (drop (length ?p) k, v)) (map (\<lambda>k. (k, the (pview p k)))
        (sorted_list_of_set {k \<in> dom (pview p). ?p @ lo \<le> k \<and> k < ?p @ hi}))
      = map (\<lambda>k. (k, the (pview p (?p @ k)))) (sorted_list_of_set {k. ?p @ k \<in> dom (pview p) \<and> ?p @ lo \<le> ?p @ k \<and> ?p @ k < ?p @ hi})"
    by (rule strip_prefixed [OF finite_pview]) (elim conjE, rule between_prefixed)
  then show ?thesis
    using assms by (simp add: pkv_RangeCompositeBytes_def pkv_okD db_iter below_def entries_between_def
        append_le_append append_less_append dom_def)
qed

lemma range_ok:
  assumes "pkv_ok name s"
  shows "pkv_Range D (s, p) = (map (\<lambda>k. (k, the (pview p (name_prefix name @ k))))
    (sorted_list_of_set (dom (\<lambda>k. pview p (name_prefix name @ k)))), None)"
proof -
  let ?p = "name_prefix name"
  obtain u where u: "prefixUpperBound ?p = Some u"
    by (simp add: name_prefix_def prefixUpperBound_snoc)
  have sel: "?p \<le> k \<and> k < u \<longleftrightarrow> prefix ?p k" for k by (rule prefixUpperBound_range [OF u])
  let ?es = "map (\<lambda>k. (k, the (pview p k))) (sorted_list_of_set {k \<in> dom (pview p). prefix ?p k})"
  have "finite {k \<in> dom (pview p). prefix ?p k}" using finite_pview [of p] by simp
  then have "\<forall>(k, v) \<in> set ?es. prefix ?p k" by auto
  moreover have "pkv_Range D (s, p) = range_loop s ?es None"
    by (simp add: pkv_Range_def pkv_okD [OF assms] db_iter prefixUpperBound_eq_pebble u below_def sel)
  ultimately have "pkv_Range D (s, p) = (map (\<lambda>(k, v). (drop (length ?p) k, v)) ?es, None)"
    by (simp only: range_loop_ok [OF assms])
  also have "map (\<lambda>(k, v). (drop (length ?p) k, v)) ?es
      = map (\<lambda>k. (k, the (pview p (?p @ k)))) (sorted_list_of_set {k. ?p @ k \<in> dom (pview p) \<and> prefix ?p (?p @ k)})"
    by (rule strip_prefixed [OF finite_pview])
  finally show ?thesis by (simp add: dom_def)
qed

lemma finite_peb_view: "finite (dom (\<lambda>k. pview p (name_prefix name @ k)))"
  using finite_prefixed [OF finite_pview [of p], of "name_prefix name" "\<lambda>_. True"] by (simp add: dom_def)

lemma range_for_key_ok:
  assumes "pkv_ok name s" "key_fits k" "window_keys (\<lambda>k. pview p (name_prefix name @ k))"
  shows "pkv_RangeForKey D k (s, p) = (window_entries k (\<lambda>k. pview p (name_prefix name @ k)), None)"
proof -
  let ?m = "\<lambda>k. pview p (name_prefix name @ k)"
  obtain u where u: "prefixUpperBound (key_prefix k) = Some u"
    using key_prefix_upper_bound assms(2) by blast
  have "\<exists>t. is_i64 t \<and> c = CompositeKey k t" if "c \<in> fst ` set (entries_between (CompositeKey k 0) u ?m)" for c
    using that between_key_bounds [OF assms(3,2), of c] u
    by (auto simp: entries_between_set [OF finite_peb_view] domI)
  then show ?thesis
    using u range_composite_ok [OF assms(1)] decode_sessions_ok [OF _ assms(2)] assms(1)
    by (simp add: pkv_RangeForKey_def pkv_okD Let_def window_entries_def key_prefix_def WindowKeyLowerBound_def
        WindowKeyUpperBound_def WindowCompositeKey_def prefixUpperBound_eq_pebble)
qed

end

lemma peb_view_eta: "peb_view pview name b = (\<lambda>k. pview (pb_db b) (name_prefix name @ k))"
  by (rule ext) (simp add: peb_view_def)

sublocale pebble_db \<subseteq> peb: byte_store "peb_store D name" "peb_view pview name" "peb_ok name" for name
proof
  fix b b' :: "'p PebbleBackend" and k v t e lower upper
  assume ok: "peb_ok name b"
  then obtain s where s: "go_get (pb_stores b) name = Some s" "pkv_ok name s" by (rule peb_okE)
  show "finite (dom (peb_view pview name b))"
    using finite_peb_view by (simp add: peb_view_eta)
  show "Get (peb_store D name) k b = Inr (peb_view pview name b k)"
    using s by (simp add: peb_store_def peb_read_def pkv_Get_def pkv_okD pencodeKey_def bytesserde_def db_get peb_view_def
        split: option.split)
  show "WindowGet (peb_store D name) k t b = Inr (peb_view pview name b (CompositeKey k t))"
    using s by (simp add: peb_store_def peb_read_def pkv_WindowGet_def pkv_okD db_get peb_view_def WindowCompositeKey_def)
  show "e = None \<and> peb_ok name b' \<and> peb_view pview name b' = (peb_view pview name b)(k \<mapsto> v)"
    if "Put (peb_store D name) k v b = (e, b')"
    using that unfolding peb_store_def Store.simps by (rule update_law [OF ok _ put_ok])
  show "e = None \<and> peb_ok name b' \<and> peb_view pview name b' = (peb_view pview name b)(k := None)"
    if "Delete (peb_store D name) k b = (e, b')"
    using that unfolding peb_store_def Store.simps by (rule update_law [OF ok _ delete_ok])
  show "e = None \<and> peb_ok name b' \<and> peb_view pview name b' = (peb_view pview name b)(CompositeKey k t \<mapsto> v)"
    if "WindowPut (peb_store D name) k t v b = (e, b')"
    using that unfolding peb_store_def Store.simps by (rule update_law [OF ok _ window_put_ok])
  show "e = None \<and> peb_ok name b' \<and> peb_view pview name b' = (peb_view pview name b)(CompositeKey k t := None)"
    if "WindowDelete (peb_store D name) k t b = (e, b')"
    using that unfolding peb_store_def Store.simps by (rule update_law [OF ok _ window_delete_ok])
  show "RangeCompositeBytes (peb_store D name) lower upper b = (entries_between lower upper (peb_view pview name b), None)"
    using s by (simp add: peb_store_def peb_read_def range_composite_ok peb_view_eta)
  show "RangeForKey (peb_store D name) k b = (window_entries k (peb_view pview name b), None)"
    if "key_fits k" "window_keys (peb_view pview name b)"
    using s that by (simp add: peb_store_def peb_read_def range_for_key_ok peb_view_eta)
  show "Range (peb_store D name) b
      = (map (\<lambda>k. (k, the (peb_view pview name b k))) (sorted_list_of_set (dom (peb_view pview name b))), None)"
    using s by (simp add: peb_store_def peb_read_def range_ok peb_view_eta)
qed

section \<open>A database to evaluate on\<close>

text \<open>
  An association list with the documented behaviour, sorted on iteration: it shows that the laws
  can hold, and runs the examples.
\<close>

type_synonym alist_db = "(bytes, bytes) gomap"

definition alist_iter :: "bytes \<Rightarrow> bytes option \<Rightarrow> alist_db \<Rightarrow> (bytes \<times> bytes) list" where
  "alist_iter lo hi p =
     map (\<lambda>k. (k, the (go_get p k))) (sort (remdups (filter (\<lambda>k. lo \<le> k \<and> below hi k) (map fst p))))"

definition alist_op :: "BatchOp \<Rightarrow> alist_db \<Rightarrow> alist_db" where
  "alist_op bop p = (case bop of BatchSet k v \<Rightarrow> go_set k v p | BatchDelete k \<Rightarrow> go_delete k p)"

definition alist_pebble :: "alist_db PebbleDB" where
  "alist_pebble =
     \<lparr>pd_Get = (\<lambda>k p. Inr (go_get p k)),
      pd_Set = (\<lambda>k v p. (None, go_set k v p)),
      pd_Delete = (\<lambda>k p. (None, go_delete k p)),
      pd_NewIter = (\<lambda>lo hi p. Inr (alist_iter lo hi p, None)),
      pd_BatchAdd = (\<lambda>bop ops. Inr (ops @ [bop])),
      pd_Commit = (\<lambda>ops p. (None, fold alist_op ops p)),
      pd_closerClose = (\<lambda>p. None)\<rparr>"

lemma alist_fold: "go_get (fold alist_op ops p) = fold apply_op ops (go_get p)"
proof (induction ops arbitrary: p)
  case Nil
  then show ?case by simp
next
  case (Cons bop ops)
  have "go_get (alist_op bop p) = apply_op bop (go_get p)"
    by (cases bop) (simp_all add: alist_op_def fun_eq_iff)
  then show ?case by (simp add: Cons)
qed

interpretation alist_db: pebble_db alist_pebble map_of
proof
  fix p k v e p' lo hi bop ops
  show "finite (dom (go_get p))" for p :: alist_db by (rule finite_dom_map_of)
  have "set (filter (\<lambda>k. lo \<le> k \<and> below hi k) (map fst p)) = {k \<in> dom (go_get p). lo \<le> k \<and> below hi k}" for p :: alist_db
    by (auto simp: dom_map_of_conv_image_fst)
  then show "pd_NewIter alist_pebble lo hi p
      = Inr (map (\<lambda>k. (k, the (go_get p k))) (sorted_list_of_set {k \<in> dom (go_get p). lo \<le> k \<and> below hi k}), None)"
    by (simp add: alist_pebble_def alist_iter_def sorted_list_of_set_sort_remdups [symmetric])
qed (auto simp: alist_pebble_def alist_fold)

section \<open>Clients of the contract\<close>

text \<open>A sequence of store operations, and the results a caller sees.\<close>

datatype StoreOp =
    OpGet bytes | OpPut bytes bytes | OpDelete bytes | OpRange
  | OpWindowGet bytes int | OpWindowPut bytes int bytes | OpWindowDelete bytes int
  | OpRangeCompositeBytes bytes bytes | OpRangeForKey bytes

datatype OpResult =
    RWindows "(int \<times> bytes) list \<times> error option"
  | RGet "error + bytes option" | RWrite "error option" | REntries "(bytes \<times> bytes) list \<times> error option"

fun run_op :: "'s Store \<Rightarrow> StoreOp \<Rightarrow> 's \<Rightarrow> OpResult \<times> 's" where
  "run_op st (OpGet k) s = (RGet (Get st k s), s)"
| "run_op st (OpPut k v) s = map_prod RWrite id (Put st k v s)"
| "run_op st (OpDelete k) s = map_prod RWrite id (Delete st k s)"
| "run_op st OpRange s = (REntries (Range st s), s)"
| "run_op st (OpWindowGet k t) s = (RGet (WindowGet st k t s), s)"
| "run_op st (OpWindowPut k t v) s = map_prod RWrite id (WindowPut st k t v s)"
| "run_op st (OpWindowDelete k t) s = map_prod RWrite id (WindowDelete st k t s)"
| "run_op st (OpRangeCompositeBytes lo hi) s = (REntries (RangeCompositeBytes st lo hi s), s)"
| "run_op st (OpRangeForKey k) s = (RWindows (RangeForKey st k s), s)"

fun run_ops :: "'s Store \<Rightarrow> StoreOp list \<Rightarrow> 's \<Rightarrow> OpResult list \<times> 's" where
  "run_ops st [] s = ([], s)"
| "run_ops st (x # xs) s =
     (case run_op st x s of (r, s') \<Rightarrow> (case run_ops st xs s' of (rs, s'') \<Rightarrow> (r # rs, s'')))"

text \<open>The same on the abstract map.\<close>

fun map_op :: "StoreOp \<Rightarrow> (bytes \<rightharpoonup> bytes) \<Rightarrow> OpResult \<times> (bytes \<rightharpoonup> bytes)" where
  "map_op (OpGet k) m = (RGet (Inr (m k)), m)"
| "map_op (OpPut k v) m = (RWrite None, m(k \<mapsto> v))"
| "map_op (OpDelete k) m = (RWrite None, m(k := None))"
| "map_op OpRange m = (REntries (map (\<lambda>k. (k, the (m k))) (sorted_list_of_set (dom m)), None), m)"
| "map_op (OpWindowGet k t) m = (RGet (Inr (m (CompositeKey k t))), m)"
| "map_op (OpWindowPut k t v) m = (RWrite None, m(CompositeKey k t \<mapsto> v))"
| "map_op (OpWindowDelete k t) m = (RWrite None, m(CompositeKey k t := None))"
| "map_op (OpRangeCompositeBytes lo hi) m = (REntries (entries_between lo hi m, None), m)"
| "map_op (OpRangeForKey k) m = (RWindows (window_entries k m, None), m)"

fun map_ops :: "StoreOp list \<Rightarrow> (bytes \<rightharpoonup> bytes) \<Rightarrow> OpResult list \<times> (bytes \<rightharpoonup> bytes)" where
  "map_ops [] m = ([], m)"
| "map_ops (x # xs) m = (case map_op x m of (r, m') \<Rightarrow> (case map_ops xs m' of (rs, m'') \<Rightarrow> (r # rs, m'')))"

text \<open>
  \<open>RangeForKey\<close> decodes the keys it meets, so it is for the stores of windows and sessions: those
  in which every key is a composite key.
\<close>

fun op_ok :: "StoreOp \<Rightarrow> (bytes \<rightharpoonup> bytes) \<Rightarrow> bool" where
  "op_ok (OpRangeForKey k) m \<longleftrightarrow> key_fits k \<and> window_keys m"
| "op_ok _ m \<longleftrightarrow> True"

fun ops_ok :: "StoreOp list \<Rightarrow> (bytes \<rightharpoonup> bytes) \<Rightarrow> bool" where
  "ops_ok [] m \<longleftrightarrow> True"
| "ops_ok (x # xs) m \<longleftrightarrow> op_ok x m \<and> ops_ok xs (snd (map_op x m))"

context byte_store
begin

lemma run_op_refines:
  assumes ok: "ok s" and op: "op_ok x (view s)" and run: "run_op st x s = (r, s')"
  shows "ok s' \<and> map_op x (view s) = (r, view s')"
proof (cases x)
  case (OpPut k v)
  obtain e s1 where w: "Put st k v s = (e, s1)" by fastforce
  then show ?thesis using put_law [OF ok w] run OpPut by simp
next
  case (OpDelete k)
  obtain e s1 where w: "Delete st k s = (e, s1)" by fastforce
  then show ?thesis using delete_law [OF ok w] run OpDelete by simp
next
  case (OpWindowPut k t v)
  obtain e s1 where w: "WindowPut st k t v s = (e, s1)" by fastforce
  then show ?thesis using window_put_law [OF ok w] run OpWindowPut by simp
next
  case (OpWindowDelete k t)
  obtain e s1 where w: "WindowDelete st k t s = (e, s1)" by fastforce
  then show ?thesis using window_delete_law [OF ok w] run OpWindowDelete by simp
qed (use ok op run in \<open>auto simp: get_law window_get_law range_law range_composite_law range_for_key_law\<close>)

lemma run_op_ok: "ok s \<Longrightarrow> ok (snd (run_op st x s))"
proof (cases "op_ok x (view s)")
  case True
  then show "ok s \<Longrightarrow> ok (snd (run_op st x s))"
    using run_op_refines [of s x "fst (run_op st x s)" "snd (run_op st x s)"] by (simp add: prod_eq_iff)
next
  case False
  then show "ok s \<Longrightarrow> ok (snd (run_op st x s))" by (cases x) simp_all
qed

lemma run_ops_refines:
  "ok s \<Longrightarrow> ops_ok xs (view s) \<Longrightarrow> run_ops st xs s = (rs, s') \<Longrightarrow> ok s' \<and> map_ops xs (view s) = (rs, view s')"
proof (induction xs arbitrary: s rs s')
  case Nil
  then show ?case by simp
next
  case (Cons x xs)
  obtain r s1 where 1: "run_op st x s = (r, s1)" by fastforce
  obtain rs1 s2 where 2: "run_ops st xs s1 = (rs1, s2)" by fastforce
  have "ok s1" "map_op x (view s) = (r, view s1)"
    using run_op_refines [OF Cons.prems(1) _ 1] Cons.prems(2) by simp_all
  then show ?case using Cons.IH [OF _ _ 2] Cons.prems(2,3) 1 2 by auto
qed

end

section \<open>Keys of the metadata\<close>

lemma bytes_of_append: "bytes_of (a @ b) = bytes_of a @ bytes_of b"
  by (simp add: bytes_of_def)

text \<open>The first byte of a store's key is that of its name, never NUL; the metadata keys start with NUL.\<close>

lemma name_prefix_not_NUL: "store_name_ok n \<Longrightarrow> name_prefix n @ k \<noteq> 0 # ks"
  by (cases n) (auto simp: store_name_ok_def name_prefix_def bytes_of_def)

lemma checkpointKey_NUL: "\<exists>ks. checkpointKey n = 0 # ks"
  by (simp add: checkpointKey_def checkpointPrefix_def)

lemma streamTimeKey_NUL: "\<exists>ks. streamTimeKey = 0 # ks"
  by (simp add: streamTimeKey_def)

lemma store_key_not_metadata:
  assumes "store_name_ok n'"
  shows "name_prefix n' @ k \<noteq> checkpointKey n" "name_prefix n' @ k \<noteq> streamTimeKey"
  using name_prefix_not_NUL [OF assms] checkpointKey_NUL [of n] streamTimeKey_NUL by metis+

lemma checkpointKey_inject: "checkpointKey n = checkpointKey n' \<longleftrightarrow> n = n'"
  by (simp add: checkpointKey_def bytes_of_inject)

lemma checkpointKey_streamTimeKey: "checkpointKey n \<noteq> streamTimeKey"
  by (simp add: checkpointKey_def checkpointPrefix_def streamTimeKey_def bytes_of_def)

context pebble_db
begin

lemmas peb_run_ops = peb.run_ops_refines

lemma read_int64_ok:
  "read_int64 D msg key p = (case pview p key of
     None \<Rightarrow> Inr None
   | Some val \<Rightarrow> if length val \<noteq> 8 then Inl (Err (msg @ '': corrupt value'')) else Inr (Some (int64_of_be val)))"
  by (simp add: read_int64_def db_get db_closer split: option.split)

lemma fill_batch_ok: "fill_batch D muts batch = Inr (batch @ map batch_op muts)"
  by (induction muts arbitrary: batch) (simp_all add: db_batch)

lemma write_checkpoint_ok:
  assumes "WriteCheckpointSync D n off p = (e, p')"
  shows "e = None \<and> pview p' = (pview p)(checkpointKey n \<mapsto> be_bytes 8 off)"
proof -
  obtain e1 p1 where "pd_Commit D [BatchSet (checkpointKey n) (be_bytes 8 off)] p = (e1, p1)" by fastforce
  with db_commit [OF this] assms show ?thesis
    by (auto simp: WriteCheckpointSync_def WriteCheckpoint_def db_batch)
qed

lemma write_stream_time_ok:
  assumes "WriteStreamTime D ts p = (e, p')"
  shows "e = None \<and> pview p' = (pview p)(streamTimeKey \<mapsto> be_bytes 8 ts)"
proof -
  obtain e1 p1 where "pd_Set D streamTimeKey (be_bytes 8 ts) p = (e1, p1)" by fastforce
  with db_set [OF this] assms show ?thesis by (auto simp: WriteStreamTime_def)
qed

lemma restore_ok:
  assumes "peb_Restore D n muts cp p = (e, p')"
  shows "e = None \<and> pview p' = (let m = fold apply_op (map batch_op muts) (pview p)
    in if cp \<ge> 0 then m(checkpointKey n \<mapsto> be_bytes 8 cp) else m)"
proof -
  let ?b = "map batch_op muts @ (if cp \<ge> 0 then [BatchSet (checkpointKey n) (be_bytes 8 cp)] else [])"
  obtain e1 p1 where c: "pd_Commit D ?b p = (e1, p1)" by fastforce
  with db_commit [OF this] assms show ?thesis
    by (auto simp: peb_Restore_def fill_batch_ok WriteCheckpoint_def db_batch Let_def split: if_splits)
qed

end

section \<open>The changelog of a store\<close>

definition mutation_op :: "Mutation \<Rightarrow> BatchOp" where
  "mutation_op m = batch_op (to_StoreMutation m)"

lemma fold_apply_op_cong: "m x = m' x \<Longrightarrow> fold apply_op ops m x = fold apply_op ops m' x"
proof (induction ops arbitrary: m m')
  case Nil
  then show ?case by simp
next
  case (Cons bop ops)
  have "apply_op bop m x = apply_op bop m' x" using Cons.prems by (cases bop) simp_all
  then show ?case unfolding fold_simps by (rule Cons.IH)
qed

fun mutation_key :: "Mutation \<Rightarrow> bytes" where
  "mutation_key (MPut k v) = k"
| "mutation_key (MDelete k) = k"

text \<open>
  What the collector has gathered since the state \<open>b0\<close> turns the data of \<open>b0\<close> into the current
  data, and concerns keys of the store only.
\<close>

definition logged :: "('p \<Rightarrow> bytes \<rightharpoonup> bytes) \<Rightarrow> string \<Rightarrow> (bytes \<rightharpoonup> bytes) \<Rightarrow> 'p PebbleBackend \<Rightarrow> bool" where
  "logged pview name m b \<longleftrightarrow> (\<exists>s ms. go_get (pb_stores b) name = Some s \<and> pkv_ok name s \<and> ps_collector s = Some ms
     \<and> pview (pb_db b) = fold apply_op (map mutation_op ms) m
     \<and> (\<forall>mu \<in> set ms. prefix (name_prefix name) (mutation_key mu)))"

context pebble_db
begin

lemma logged_update:
  assumes "logged pview name m b"
    and op: "\<And>s p. pkv_ok name s \<Longrightarrow> \<exists>mu p'. op (s, p) = (None, (collect mu s, p')) \<and> pview p' = apply_op (mutation_op mu) (pview p)
      \<and> prefix (name_prefix name) (mutation_key mu)"
  shows "logged pview name m (snd (peb_update name op nil b))"
proof -
  obtain s ms where s: "go_get (pb_stores b) name = Some s" "pkv_ok name s" "ps_collector s = Some ms"
    "pview (pb_db b) = fold apply_op (map mutation_op ms) m" "\<forall>mu \<in> set ms. prefix (name_prefix name) (mutation_key mu)"
    using assms(1) unfolding logged_def by blast
  obtain mu p' where o: "op (s, pb_db b) = (None, (collect mu s, p'))" "pview p' = apply_op (mutation_op mu) (pview (pb_db b))"
      "prefix (name_prefix name) (mutation_key mu)"
    using op [OF s(2), of "pb_db b"] by (elim exE conjE)
  have "ps_collector (collect mu s) = Some (ms @ [mu])"
    using s(3) by (simp add: collect_def Collector_Append_def)
  moreover have "pview p' = fold apply_op (map mutation_op (ms @ [mu])) m"
    using o(2) s(4) by simp
  ultimately have "logged pview name m (b\<lparr>pb_db := p', pb_stores := go_set name (collect mu s) (pb_stores b)\<rparr>)"
    using s(2,5) o(3) unfolding logged_def by (intro exI [of _ "collect mu s"] exI [of _ "ms @ [mu]"]) simp
  then show ?thesis using s(1) o(1) by (simp add: peb_update_def)
qed

lemma mutation_op_simps [simp]: "mutation_op (MPut k v) = BatchSet k v" "mutation_op (MDelete k) = BatchDelete k"
  by (simp_all add: mutation_op_def batch_op_def)

lemma put_logs: "pkv_ok name s \<Longrightarrow> \<exists>mu p'. pkv_Put D k v (s, p) = (None, (collect mu s, p'))
    \<and> pview p' = apply_op (mutation_op mu) (pview p) \<and> prefix (name_prefix name) (mutation_key mu)"
  using db_set [of "name_prefix name @ k" v p]
  by (cases "pd_Set D (name_prefix name @ k) v p", intro exI [of _ "MPut (name_prefix name @ k) v"])
    (simp add: pkv_Put_def pkv_okD pencodeKey_def bytesserde_def)

lemma delete_logs: "pkv_ok name s \<Longrightarrow> \<exists>mu p'. pkv_Delete D k (s, p) = (None, (collect mu s, p'))
    \<and> pview p' = apply_op (mutation_op mu) (pview p) \<and> prefix (name_prefix name) (mutation_key mu)"
  using db_delete [of "name_prefix name @ k" p]
  by (cases "pd_Delete D (name_prefix name @ k) p", intro exI [of _ "MDelete (name_prefix name @ k)"])
    (simp add: pkv_Delete_def pkv_okD pencodeKey_def bytesserde_def)

lemma window_put_logs: "pkv_ok name s \<Longrightarrow> \<exists>mu p'. pkv_WindowPut D k t v (s, p) = (None, (collect mu s, p'))
    \<and> pview p' = apply_op (mutation_op mu) (pview p) \<and> prefix (name_prefix name) (mutation_key mu)"
  using db_set [of "name_prefix name @ CompositeKey k t" v p]
  by (cases "pd_Set D (name_prefix name @ CompositeKey k t) v p", intro exI [of _ "MPut (name_prefix name @ CompositeKey k t) v"])
    (simp add: pkv_WindowPut_def pkv_okD WindowCompositeKey_def)

lemma window_delete_logs: "pkv_ok name s \<Longrightarrow> \<exists>mu p'. pkv_WindowDelete D k t (s, p) = (None, (collect mu s, p'))
    \<and> pview p' = apply_op (mutation_op mu) (pview p) \<and> prefix (name_prefix name) (mutation_key mu)"
  using db_delete [of "name_prefix name @ CompositeKey k t" p]
  by (cases "pd_Delete D (name_prefix name @ CompositeKey k t) p", intro exI [of _ "MDelete (name_prefix name @ CompositeKey k t)"])
    (simp add: pkv_WindowDelete_def pkv_okD WindowCompositeKey_def)

lemma snd_map_prod: "snd (map_prod f id x) = snd x"
  by (cases x) simp

lemma logged_op: "logged pview name m b \<Longrightarrow> logged pview name m (snd (run_op (peb_store D name) x b))"
  by (cases x) (simp_all add: peb_store_def snd_map_prod logged_update put_logs delete_logs window_put_logs window_delete_logs)

lemma logged_ops: "logged pview name m b \<Longrightarrow> logged pview name m (snd (run_ops (peb_store D name) xs b))"
proof (induction xs arbitrary: b)
  case (Cons x xs)
  have "logged pview name m (snd (run_op (peb_store D name) x b))" using Cons.prems by (rule logged_op)
  then show ?case using Cons.IH by (simp add: case_prod_beta)
qed simp

text \<open>The operations of a store write keys of the store only.\<close>

lemma update_foreign:
  assumes "peb_ok name b" "\<not> prefix (name_prefix name) x"
    and op: "\<And>s p. pkv_ok name s \<Longrightarrow> \<exists>mu p'. op (s, p) = (None, (collect mu s, p')) \<and> pview p' = apply_op (mutation_op mu) (pview p)
      \<and> prefix (name_prefix name) (mutation_key mu)"
  shows "pview (pb_db (snd (peb_update name op nil b))) x = pview (pb_db b) x"
proof -
  obtain s where s: "go_get (pb_stores b) name = Some s" "pkv_ok name s" using assms(1) by (rule peb_okE)
  obtain mu p' where o: "op (s, pb_db b) = (None, (collect mu s, p'))" "pview p' = apply_op (mutation_op mu) (pview (pb_db b))"
      "prefix (name_prefix name) (mutation_key mu)"
    using op [OF s(2), of "pb_db b"] by (elim exE conjE)
  have "apply_op (mutation_op mu) (pview (pb_db b)) x = pview (pb_db b) x"
    using o(3) assms(2) by (cases mu) auto
  then show ?thesis using s(1) o(1,2) by (simp add: peb_update_def)
qed

lemma op_foreign:
  "peb_ok name b \<Longrightarrow> \<not> prefix (name_prefix name) x \<Longrightarrow>
    pview (pb_db (snd (run_op (peb_store D name) y b))) x = pview (pb_db b) x"
  by (cases y) (simp_all add: peb_store_def snd_map_prod update_foreign put_logs delete_logs window_put_logs window_delete_logs)

lemma ops_foreign:
  "peb_ok name b \<Longrightarrow> \<not> prefix (name_prefix name) x \<Longrightarrow>
    pview (pb_db (snd (run_ops (peb_store D name) ys b))) x = pview (pb_db b) x"
proof (induction ys arbitrary: b)
  case (Cons y ys)
  have "pview (pb_db (snd (run_ops (peb_store D name) ys (snd (run_op (peb_store D name) y b))))) x
      = pview (pb_db (snd (run_op (peb_store D name) y b))) x"
    by (rule Cons.IH [OF peb.run_op_ok [OF Cons.prems(1)] Cons.prems(2)])
  then show ?case using op_foreign [OF Cons.prems, of y] by (simp add: case_prod_beta)
qed simp

lemma drain_logged:
  assumes "logged pview name m b" "DrainMutations (peb_store D name) b = (muts, b')"
  shows "pview (pb_db b) = fold apply_op (map batch_op muts) m \<and> pb_db b' = pb_db b
    \<and> (\<forall>mu \<in> set muts. prefix (name_prefix name) (m_Key mu))"
proof -
  have "m_Key (to_StoreMutation mu) = mutation_key mu" for mu by (cases mu) simp_all
  with assms show ?thesis
    by (auto simp: logged_def peb_store_def peb_update_def pkv_DrainMutations_def Collector_Drain_def mutation_op_def [abs_def] comp_def)
qed

end

section \<open>Properties\<close>

text \<open>
  C18: The storage back ends agree. On a Pebble database that behaves as documented and on the
  in-memory database, a named store with the same contents gives the same result for every
  operation of every sequence of \<open>Get\<close>, \<open>Put\<close>, \<open>Delete\<close>, \<open>Range\<close>, \<open>WindowGet\<close>, \<open>WindowPut\<close>,
  \<open>WindowDelete\<close>, \<open>RangeCompositeBytes\<close> and, while the store holds only composite keys,
  \<open>RangeForKey\<close>, and ends with the same contents; both are what the abstract map prescribes.
  \<open>DrainMutations\<close> and \<open>Close\<close> are not among these operations: an empty value put into a store
  drains as nil from the one and as an empty slice from the other.
\<close>

theorem pebble_memory_agree:
  assumes "pebble_db D pview" "peb_ok n p" "mem_ok n b" "peb_view pview n p = mem_view n b"
    and "ops_ok xs (mem_view n b)"
  shows "\<exists>rs m. map_ops xs (mem_view n b) = (rs, m)
    \<and> fst (run_ops (peb_store D n) xs p) = rs \<and> peb_view pview n (snd (run_ops (peb_store D n) xs p)) = m
    \<and> fst (run_ops (mem_store n) xs b) = rs \<and> mem_view n (snd (run_ops (mem_store n) xs b)) = m"
proof -
  obtain rs1 p' where 1: "run_ops (peb_store D n) xs p = (rs1, p')" by fastforce
  obtain rs2 b' where 2: "run_ops (mem_store n) xs b = (rs2, b')" by fastforce
  have "map_ops xs (peb_view pview n p) = (rs1, peb_view pview n p')"
    using pebble_db.peb_run_ops [OF assms(1,2) _ 1] assms(4,5) by simp
  then show ?thesis using mem.run_ops_refines [OF assms(3,5) 2] assms(4) 1 2 by simp
qed

text \<open>
  C31: Metadata and data do not mix. Writing a store's checkpoint, or the stream-time, changes the
  contents of no named store, no other checkpoint and not the other kind of metadata, and what was
  written is read back exactly, for every \<open>int64\<close>. Conversely no sequence of operations of a named
  store changes a checkpoint, its own included, or the stream-time.
\<close>

theorem pebble_metadata_isolated:
  assumes "pebble_db D pview" "store_name_ok n'" "is_i64 off" "is_i64 ts" "n'' \<noteq> n" "peb_ok n' b"
    and "WriteCheckpointSync D n off (pb_db b) = (e1, p1)" "WriteStreamTime D ts (pb_db b) = (e2, p2)"
  shows "e1 = None \<and> ReadCheckpoint D n p1 = Inr (Some off)
    \<and> ReadCheckpoint D n'' p1 = ReadCheckpoint D n'' (pb_db b) \<and> ReadStreamTime D p1 = ReadStreamTime D (pb_db b)
    \<and> peb_view pview n' (b\<lparr>pb_db := p1\<rparr>) = peb_view pview n' b
    \<and> e2 = None \<and> ReadStreamTime D p2 = Inr (Some ts)
    \<and> ReadCheckpoint D n p2 = ReadCheckpoint D n (pb_db b)
    \<and> peb_view pview n' (b\<lparr>pb_db := p2\<rparr>) = peb_view pview n' b
    \<and> (\<forall>xs m. ReadCheckpoint D m (pb_db (snd (run_ops (peb_store D n') xs b))) = ReadCheckpoint D m (pb_db b))
    \<and> (\<forall>xs. ReadStreamTime D (pb_db (snd (run_ops (peb_store D n') xs b))) = ReadStreamTime D (pb_db b))"
proof -
  have 1: "e1 = None" "pview p1 = (pview (pb_db b))(checkpointKey n \<mapsto> be_bytes 8 off)"
    using pebble_db.write_checkpoint_ok [OF assms(1,7)] by simp_all
  have 2: "e2 = None" "pview p2 = (pview (pb_db b))(streamTimeKey \<mapsto> be_bytes 8 ts)"
    using pebble_db.write_stream_time_ok [OF assms(1,8)] by simp_all
  have ne: "name_prefix n' @ k \<noteq> checkpointKey n" "name_prefix n' @ k \<noteq> streamTimeKey" for k
    by (rule store_key_not_metadata [OF assms(2)])+
  note rd = pebble_db.read_int64_ok [OF assms(1)] ReadCheckpoint_def ReadStreamTime_def
  have "peb_view pview n' (b\<lparr>pb_db := p1\<rparr>) = peb_view pview n' b" "peb_view pview n' (b\<lparr>pb_db := p2\<rparr>) = peb_view pview n' b"
    by (rule ext, simp add: peb_view_def 1(2) 2(2) ne)+
  moreover have "ReadCheckpoint D n'' p1 = ReadCheckpoint D n'' (pb_db b)" "ReadStreamTime D p1 = ReadStreamTime D (pb_db b)"
    "ReadCheckpoint D n p2 = ReadCheckpoint D n (pb_db b)"
    using assms(5) by (simp_all add: rd 1(2) 2(2) checkpointKey_inject checkpointKey_streamTimeKey checkpointKey_streamTimeKey [symmetric])
  moreover have "ReadCheckpoint D n p1 = Inr (Some off)" "ReadStreamTime D p2 = Inr (Some ts)"
    by (simp_all add: rd 1(2) 2(2) int64_of_be_be_bytes assms(3,4))
  moreover have "\<not> prefix (name_prefix n') (checkpointKey m)" "\<not> prefix (name_prefix n') streamTimeKey" for m
    using store_key_not_metadata [OF assms(2)] by (metis prefixE)+
  then have "ReadCheckpoint D m (pb_db (snd (run_ops (peb_store D n') xs b))) = ReadCheckpoint D m (pb_db b)"
    "ReadStreamTime D (pb_db (snd (run_ops (peb_store D n') xs b))) = ReadStreamTime D (pb_db b)" for xs m
    by (simp_all add: rd pebble_db.ops_foreign [OF assms(1,6)])
  ultimately show ?thesis using 1(1) 2(1) by blast
qed

text \<open>
  C10: A changelog rebuilds the store. The mutations that a store collected during any sequence of
  operations, replayed by \<open>Restore\<close> into another database that held what the store held before
  them, give that database exactly the store's contents, and record the checkpoint.
\<close>

theorem pebble_changelog_rebuilds:
  assumes "pebble_db D pview" "store_name_ok n" "is_i64 cp" "cp \<ge> 0"
    and "go_get (pb_stores b) n = Some s" "pkv_ok n s" "ps_collector s = Some []"
    and "peb_view pview n c = peb_view pview n b"
    and "DrainMutations (peb_store D n) (snd (run_ops (peb_store D n) xs b)) = (muts, b')"
    and "peb_Restore D n muts cp (pb_db c) = (e, p')"
  shows "e = None \<and> ReadCheckpoint D n p' = Inr (Some cp)
    \<and> peb_view pview n (c\<lparr>pb_db := p'\<rparr>) = peb_view pview n (snd (run_ops (peb_store D n) xs b))"
proof -
  let ?b1 = "snd (run_ops (peb_store D n) xs b)"
  have "logged pview n (pview (pb_db b)) b"
    using assms(5-7) unfolding logged_def by (intro exI [of _ s] exI [of _ "[]"]) simp
  then have d: "pview (pb_db ?b1) = fold apply_op (map batch_op muts) (pview (pb_db b))"
    using pebble_db.drain_logged [OF assms(1) pebble_db.logged_ops [OF assms(1)] assms(9)] by blast
  have r: "e = None" "pview p' = (fold apply_op (map batch_op muts) (pview (pb_db c)))(checkpointKey n \<mapsto> be_bytes 8 cp)"
    using pebble_db.restore_ok [OF assms(1,10)] assms(4) by (simp_all add: Let_def)
  have "peb_view pview n (c\<lparr>pb_db := p'\<rparr>) = peb_view pview n ?b1"
  proof (rule ext)
    fix k
    have "name_prefix n @ k \<noteq> checkpointKey n"
      by (rule store_key_not_metadata [OF assms(2)])
    moreover have "fold apply_op (map batch_op muts) (pview (pb_db c)) (name_prefix n @ k)
        = fold apply_op (map batch_op muts) (pview (pb_db b)) (name_prefix n @ k)"
      by (rule fold_apply_op_cong) (use fun_cong [OF assms(8), of k] in \<open>simp add: peb_view_def\<close>)
    ultimately show "peb_view pview n (c\<lparr>pb_db := p'\<rparr>) k = peb_view pview n ?b1 k"
      by (simp add: peb_view_def d r(2))
  qed
  moreover have "ReadCheckpoint D n p' = Inr (Some cp)"
    by (simp add: ReadCheckpoint_def pebble_db.read_int64_ok [OF assms(1)] r(2) int64_of_be_be_bytes assms(3))
  ultimately show ?thesis using r(1) by blast
qed

section \<open>Witnesses\<close>

definition demo_pebble :: "alist_db PebbleBackend" where
  "demo_pebble = snd (peb_OpenStore ''a'' True \<lparr>pb_db = [], pb_stores = []\<rparr>)"

lemma demo_pebble_ok: "peb_ok ''a'' demo_pebble"
  by (simp add: demo_pebble_def peb_OpenStore_def peb_ok_def pkv_ok_def NewKeyValueStoreWithChangelog_def name_prefix_def separator_def)

lemma demo_pebble_empty: "peb_view map_of ''a'' demo_pebble = mem_view ''a'' two_stores"
  by (rule ext) (simp add: peb_view_def mem_view_def demo_pebble_def peb_OpenStore_def two_stores_def mb_open_def OpenStore_def OpenMemDB_def)

theorem pebble_memory_agree_witness:
  "fst (run_ops (peb_store alist_pebble ''a'') [OpWindowPut [2] 5 [7], OpWindowPut [1] 3 [8], OpRangeForKey [1], OpPut [2] [7], OpRange] demo_pebble)
    = fst (run_ops (mem_store ''a'') [OpWindowPut [2] 5 [7], OpWindowPut [1] 3 [8], OpRangeForKey [1], OpPut [2] [7], OpRange] two_stores)"
proof -
  have "mem_view ''a'' two_stores = Map.empty"
    by (rule ext) (simp add: mem_view_def two_stores_def mb_open_def OpenStore_def OpenMemDB_def)
  moreover have "window_keys ([CompositeKey [2] 5 \<mapsto> [7], CompositeKey [1] 3 \<mapsto> [8]])"
    unfolding window_keys_def
  proof
    fix c
    assume "c \<in> dom [CompositeKey [2] 5 \<mapsto> [7 :: byte], CompositeKey [1] 3 \<mapsto> [8]]"
    then consider "c = CompositeKey [2] 5" | "c = CompositeKey [1] 3" by (auto split: if_splits)
    moreover have "key_fits [2]" "key_fits [1]" "is_i64 5" "is_i64 3"
      by (simp_all add: key_fits_def is_i64_def MinInt64_def MaxInt64_def)
    ultimately show "\<exists>k t. key_fits k \<and> is_i64 t \<and> c = CompositeKey k t" by cases blast+
  qed
  ultimately have "ops_ok [OpWindowPut [2] 5 [7], OpWindowPut [1] 3 [8], OpRangeForKey [1], OpPut [2] [7], OpRange]
      (mem_view ''a'' two_stores)"
    by (simp add: key_fits_def)
  then show ?thesis
    using pebble_memory_agree [OF alist_db.pebble_db_axioms demo_pebble_ok two_stores_ok(1) demo_pebble_empty] by metis
qed

theorem pebble_metadata_isolated_witness:
  "ReadCheckpoint alist_pebble ''a'' (snd (WriteCheckpointSync alist_pebble ''a'' 41 (pb_db demo_pebble))) = Inr (Some 41)
    \<and> ReadStreamTime alist_pebble (pb_db (snd (run_ops (peb_store alist_pebble ''a'') [OpPut [2] [7]] demo_pebble)))
      = ReadStreamTime alist_pebble (pb_db demo_pebble)"
  using pebble_metadata_isolated [OF alist_db.pebble_db_axioms, of "''a''" 41 0 "''b''" "''a''" demo_pebble
      "fst (WriteCheckpointSync alist_pebble ''a'' 41 (pb_db demo_pebble))"
      "snd (WriteCheckpointSync alist_pebble ''a'' 41 (pb_db demo_pebble))"
      "fst (WriteStreamTime alist_pebble 0 (pb_db demo_pebble))"
      "snd (WriteStreamTime alist_pebble 0 (pb_db demo_pebble))"] demo_pebble_ok
  by (simp add: store_name_ok_def bytes_of_def is_i64_def MinInt64_def MaxInt64_def del: run_ops.simps)

theorem pebble_changelog_rebuilds_witness:
  "\<exists>muts b'. DrainMutations (peb_store alist_pebble ''a'')
       (snd (run_ops (peb_store alist_pebble ''a'') [OpPut [2] [7], OpDelete [2], OpPut [1] []] demo_pebble)) = (muts, b')
    \<and> peb_view map_of ''a'' (demo_pebble\<lparr>pb_db := snd (peb_Restore alist_pebble ''a'' muts 5 (pb_db demo_pebble))\<rparr>)
      = peb_view map_of ''a'' (snd (run_ops (peb_store alist_pebble ''a'') [OpPut [2] [7], OpDelete [2], OpPut [1] []] demo_pebble))"
proof -
  let ?b1 = "snd (run_ops (peb_store alist_pebble ''a'') [OpPut [2] [7], OpDelete [2], OpPut [1] []] demo_pebble)"
  obtain muts b' where d: "DrainMutations (peb_store alist_pebble ''a'') ?b1 = (muts, b')" by fastforce
  have "peb_view map_of ''a'' (demo_pebble\<lparr>pb_db := snd (peb_Restore alist_pebble ''a'' muts 5 (pb_db demo_pebble))\<rparr>)
      = peb_view map_of ''a'' ?b1"
    using pebble_changelog_rebuilds [OF alist_db.pebble_db_axioms, of "''a''" 5 demo_pebble
        "NewKeyValueStoreWithChangelog ''a'' bytesserde bytesserde (Some [])" demo_pebble
        "[OpPut [2] [7], OpDelete [2], OpPut [1] []]" muts b'
        "fst (peb_Restore alist_pebble ''a'' muts 5 (pb_db demo_pebble))"
        "snd (peb_Restore alist_pebble ''a'' muts 5 (pb_db demo_pebble))"] d
    by (simp add: store_name_ok_def bytes_of_def is_i64_def MinInt64_def MaxInt64_def demo_pebble_def peb_OpenStore_def
        pkv_ok_def NewKeyValueStoreWithChangelog_def name_prefix_def separator_def)
  then show ?thesis using d by blast
qed

end
