(* ===== verification/Sweep.thy ===== *)
theory Sweep
  imports Session PebbleStore
begin

text \<open>
  The retention sweeps of \<open>internal/runtime/task_manager.go\<close>: \<open>sweepWindowStore\<close> and
  \<open>sweepSessionStore\<close>, written against the store contract, so that what they delete is proved
  once for every store and holds for the in-memory and the Pebble store alike.
\<close>

section \<open>Definitions\<close>

text \<open>The visitor of the window sweep: malformed keys are skipped, expired ones collected.\<close>

definition window_sweep_visit :: "int \<Rightarrow> bytes \<times> bytes \<Rightarrow> bytes list \<Rightarrow> bytes list + bytes list" where
  "window_sweep_visit expiryBoundary = (\<lambda>(compositeKey, _) expired.
     case decodeWindowCompositeKey compositeKey of
       Inl _ \<Rightarrow> Inr expired
     | Inr (_, windowStart) \<Rightarrow>
         if windowStart < expiryBoundary then Inr (expired @ [compositeKey]) else Inr expired)"

text \<open>A scan of the whole store with a visitor that fills a list.\<close>

definition collect_range :: "'s Store \<Rightarrow> (bytes \<times> bytes \<Rightarrow> 'x list \<Rightarrow> 'x list + 'x list) \<Rightarrow> 's \<Rightarrow> error + 'x list" where
  "collect_range store visit s =
     (case Range store s of (entries, err) \<Rightarrow>
        (case visit_loop visit entries err [] of
           (found, None) \<Rightarrow> Inr found
         | (found, Some e) \<Rightarrow> Inl e))"

definition sweepWindowStore :: "'s Store \<Rightarrow> WindowDefinition \<Rightarrow> int \<Rightarrow> int \<Rightarrow> ('s, nat) act" where
  "sweepWindowStore store windowDef graceMs streamTime =
     (let expiryBoundary = i64 (i64 (streamTime - MaxSizeMs windowDef) - graceMs) in
      if expiryBoundary \<le> 0 then retE 0
      else
        bindE (wrapE ''sweepWindowStore: full-store range scan''
                 (readE (collect_range store (window_sweep_visit expiryBoundary)))) (\<lambda>expired.
        bindE (forE expired (\<lambda>ck. wrapE ''sweepWindowStore: delete expired window key'' (doE (Delete store ck)))) (\<lambda>_.
        retE (length expired))))"

text \<open>The visitor of the session sweep reads the session end from the value.\<close>

definition session_sweep_visit :: "int \<Rightarrow> bytes \<times> bytes \<Rightarrow> (bytes \<times> int) list \<Rightarrow> (bytes \<times> int) list + (bytes \<times> int) list" where
  "session_sweep_visit expiryBoundary = (\<lambda>(compositeKey, val) expired.
     case decodeWindowCompositeKey compositeKey of
       Inl _ \<Rightarrow> Inr expired
     | Inr (kBytes, sessionStart) \<Rightarrow>
         if length val < 8 then Inr expired
         else if int64_of_be (take 8 val) < expiryBoundary then Inr (expired @ [(kBytes, sessionStart)])
         else Inr expired)"

definition sweepSessionStore :: "'s Store \<Rightarrow> int \<Rightarrow> int \<Rightarrow> int \<Rightarrow> ('s, nat) act" where
  "sweepSessionStore store gapMs graceMs streamTime =
     (let expiryBoundary = i64 (i64 (streamTime - gapMs) - graceMs) in
      if expiryBoundary \<le> 0 then retE 0
      else
        bindE (wrapE ''sweepSessionStore: full-store range scan''
                 (readE (collect_range store (session_sweep_visit expiryBoundary)))) (\<lambda>expired.
        bindE (forE expired (\<lambda>(kBytes, sessionStart).
                 wrapE ''sweepSessionStore: delete expired session key'' (doE (WindowDelete store kBytes sessionStart)))) (\<lambda>_.
        retE (length expired))))"

section \<open>What a sweep removes\<close>

definition expired_window :: "int \<Rightarrow> bytes \<Rightarrow> bool" where
  "expired_window b c \<longleftrightarrow> (case decodeWindowCompositeKey c of Inl _ \<Rightarrow> False | Inr (_, t) \<Rightarrow> t < b)"

definition expired_session :: "int \<Rightarrow> bytes \<Rightarrow> bytes \<Rightarrow> bool" where
  "expired_session b c v \<longleftrightarrow> (case decodeWindowCompositeKey c of
     Inl _ \<Rightarrow> False | Inr _ \<Rightarrow> 8 \<le> length v \<and> int64_of_be (take 8 v) < b)"

text \<open>A map without the entries a test selects.\<close>

definition map_without :: "('k \<Rightarrow> 'v \<Rightarrow> bool) \<Rightarrow> ('k \<rightharpoonup> 'v) \<Rightarrow> 'k \<rightharpoonup> 'v" where
  "map_without P m k = (case m k of None \<Rightarrow> None | Some v \<Rightarrow> if P k v then None else Some v)"

lemma map_without_False [simp]: "map_without (\<lambda>k v. False) m = m"
  by (rule ext) (simp add: map_without_def split: option.split)

lemma map_without_restrict: "map_without P m = m |` (- {k. \<exists>v. m k = Some v \<and> P k v})"
  by (rule ext) (auto simp: map_without_def restrict_map_def split: option.split)

section \<open>The loops\<close>

lemma visit_loop_collect:
  assumes "\<And>e c. visit e c = Inr (case g e of None \<Rightarrow> c | Some x \<Rightarrow> c @ [x])"
  shows "visit_loop visit es err c = (c @ List.map_filter g es, err)"
  by (induction es arbitrary: c) (auto simp: assms map_filter_simps split: option.split)

definition window_pick :: "int \<Rightarrow> bytes \<times> bytes \<Rightarrow> bytes option" where
  "window_pick b e = (if expired_window b (fst e) then Some (fst e) else None)"

definition session_pick :: "int \<Rightarrow> bytes \<times> bytes \<Rightarrow> (bytes \<times> int) option" where
  "session_pick b e = (if expired_session b (fst e) (snd e)
     then (case decodeWindowCompositeKey (fst e) of Inr x \<Rightarrow> Some x | Inl _ \<Rightarrow> None) else None)"

lemma window_visit_pick:
  "window_sweep_visit b e c = Inr (case window_pick b e of None \<Rightarrow> c | Some x \<Rightarrow> c @ [x])"
  by (cases e) (auto simp: window_sweep_visit_def window_pick_def expired_window_def split: sum.split)

lemma session_visit_pick:
  "session_sweep_visit b e c = Inr (case session_pick b e of None \<Rightarrow> c | Some x \<Rightarrow> c @ [x])"
  by (cases e) (auto simp: session_sweep_visit_def session_pick_def expired_session_def split: sum.split)

lemma session_pick_key:
  assumes "session_pick b (c, v) = Some (k, t)"
  shows "CompositeKey k t = c" and "expired_session b c v"
  using assms decode_imp_CompositeKey [of c k t] decoders_agree [of c k t]
  by (auto simp: session_pick_def split: if_splits sum.splits)

lemma session_pick_expired: "expired_session b c v \<Longrightarrow> \<exists>k t. session_pick b (c, v) = Some (k, t)"
  by (auto simp: session_pick_def expired_session_def split: sum.split)

lemma session_pick_iff: "(\<exists>x. session_pick b (c, v) = Some x) \<longleftrightarrow> expired_session b c v"
  using session_pick_expired [of b c v] session_pick_key(2) [of b c v] by auto

context byte_store
begin

text \<open>A loop of deletions, each of one key.\<close>

lemma delete_loop:
  assumes step: "\<And>x s. ok s \<Longrightarrow> \<exists>s'. f x s = (Inr (), s') \<and> ok s' \<and> view s' = (view s)(key x := None)"
  shows "ok s \<Longrightarrow> \<exists>s'. forE xs f s = (Inr (), s') \<and> ok s' \<and> view s' = view s |` (- (key ` set xs))"
proof (induction xs arbitrary: s)
  case Nil
  then show ?case by (simp add: act_simps restrict_map_def)
next
  case (Cons x xs)
  obtain s1 where s1: "f x s = (Inr (), s1)" "ok s1" "view s1 = (view s)(key x := None)"
    using step [OF Cons.prems] by blast
  obtain s2 where s2: "forE xs f s1 = (Inr (), s2)" "ok s2" "view s2 = view s1 |` (- (key ` set xs))"
    using Cons.IH [OF s1(2)] by blast
  have "view s2 = view s |` (- (key ` set (x # xs)))"
    by (rule ext) (simp add: s2 s1 restrict_map_def)
  then show ?case using s1 s2 by (simp add: act_simps)
qed

lemma delete_each:
  assumes "ok s"
  obtains s' where "forE ks (\<lambda>k. wrapE msg (doE (Delete st k))) s = (Inr (), s')" "ok s'" "view s' = view s |` (- set ks)"
proof -
  have "\<exists>s'. wrapE msg (doE (Delete st k)) s = (Inr (), s') \<and> ok s' \<and> view s' = (view s)(k := None)" if "ok s" for k s
    using that by (cases "Delete st k s") (auto simp: act_simps dest: delete_law)
  from delete_loop [where key = "\<lambda>k. k", OF this assms] show ?thesis
    using that by fastforce
qed

lemma window_delete_each:
  assumes "ok s"
  obtains s' where "forE ws (\<lambda>(k, t). wrapE msg (doE (WindowDelete st k t))) s = (Inr (), s')" "ok s'"
    "view s' = view s |` (- ((\<lambda>(k, t). CompositeKey k t) ` set ws))"
proof -
  have "\<exists>s'. (case w of (k, t) \<Rightarrow> wrapE msg (doE (WindowDelete st k t))) s = (Inr (), s') \<and> ok s'
      \<and> view s' = (view s)((case w of (k, t) \<Rightarrow> CompositeKey k t) := None)" if "ok s" for w s
    using that by (cases w, cases "WindowDelete st (fst w) (snd w) s") (auto simp: act_simps dest: window_delete_law)
  from delete_loop [where f = "\<lambda>w. case w of (k, t) \<Rightarrow> wrapE msg (doE (WindowDelete st k t))"
      and key = "\<lambda>(k, t). CompositeKey k t", OF this assms] show ?thesis
    using that by fastforce
qed

lemma collect_range_law:
  assumes "\<And>e c. visit e c = Inr (case g e of None \<Rightarrow> c | Some x \<Rightarrow> c @ [x])" and "ok s"
  obtains xs where "collect_range st visit s = Inr xs"
    and "set xs = {x. \<exists>c v. view s c = Some v \<and> g (c, v) = Some x}"
    and "length xs = card {c. \<exists>v x. view s c = Some v \<and> g (c, v) = Some x}"
proof
  let ?ks = "sorted_list_of_set (dom (view s))"
  let ?es = "map (\<lambda>k. (k, the (view s k))) ?ks"
  have fin: "finite (dom (view s))" using assms(2) by (rule finite_view)
  show "collect_range st visit s = Inr (List.map_filter g ?es)"
    by (simp add: collect_range_def range_law [OF assms(2)] visit_loop_collect [OF assms(1)])
  show "set (List.map_filter g ?es) = {x. \<exists>c v. view s c = Some v \<and> g (c, v) = Some x}"
    using fin by (force simp: map_filter_def)
  have "length (List.map_filter g ?es) = length (filter (\<lambda>k. g (k, the (view s k)) \<noteq> None) ?ks)"
    by (simp add: map_filter_def filter_map comp_def)
  also have "\<dots> = card (set (filter (\<lambda>k. g (k, the (view s k)) \<noteq> None) ?ks))"
    by (rule distinct_card [symmetric]) simp
  also have "set (filter (\<lambda>k. g (k, the (view s k)) \<noteq> None) ?ks) = {c. \<exists>v x. view s c = Some v \<and> g (c, v) = Some x}"
    using fin by (auto simp: domI)
  finally show "length (List.map_filter g ?es) = card {c. \<exists>v x. view s c = Some v \<and> g (c, v) = Some x}" .
qed

lemma window_sweep:
  assumes "ok s" and b: "b = i64 (i64 (streamTime - MaxSizeMs windowDef) - graceMs)"
  shows "\<exists>n s'. sweepWindowStore st windowDef graceMs streamTime s = (Inr n, s') \<and> ok s'
    \<and> view s' = map_without (\<lambda>c v. 0 < b \<and> expired_window b c) (view s)
    \<and> n = card {c \<in> dom (view s). 0 < b \<and> expired_window b c}"
proof (cases "b \<le> 0")
  case True
  then show ?thesis using assms by (simp add: sweepWindowStore_def act_simps)
next
  case False
  obtain xs where xs: "collect_range st (window_sweep_visit b) s = Inr xs"
      "set xs = {x. \<exists>c v. view s c = Some v \<and> window_pick b (c, v) = Some x}"
      "length xs = card {c. \<exists>v x. view s c = Some v \<and> window_pick b (c, v) = Some x}"
    by (rule collect_range_law [OF window_visit_pick [of b] assms(1)])
  obtain s' where s': "forE xs (\<lambda>ck. wrapE ''sweepWindowStore: delete expired window key'' (doE (Delete st ck))) s = (Inr (), s')"
      "ok s'" "view s' = view s |` (- set xs)"
    by (rule delete_each [OF assms(1)])
  have "set xs = {c. \<exists>v. view s c = Some v \<and> 0 < b \<and> expired_window b c}"
    using False by (auto simp: xs(2) window_pick_def)
  moreover have "{c. \<exists>v x. view s c = Some v \<and> window_pick b (c, v) = Some x} = {c \<in> dom (view s). 0 < b \<and> expired_window b c}"
    using False by (auto simp: window_pick_def)
  ultimately show ?thesis
    using False s' xs by (simp add: sweepWindowStore_def b [symmetric] act_simps map_without_restrict)
qed

lemma session_sweep:
  assumes "ok s" and b: "b = i64 (i64 (streamTime - gapMs) - graceMs)"
  shows "\<exists>n s'. sweepSessionStore st gapMs graceMs streamTime s = (Inr n, s') \<and> ok s'
    \<and> view s' = map_without (\<lambda>c v. 0 < b \<and> expired_session b c v) (view s)
    \<and> n = card {c. \<exists>v. view s c = Some v \<and> 0 < b \<and> expired_session b c v}"
proof (cases "b \<le> 0")
  case True
  then show ?thesis using assms by (simp add: sweepSessionStore_def act_simps)
next
  case False
  obtain xs where xs: "collect_range st (session_sweep_visit b) s = Inr xs"
      "set xs = {x. \<exists>c v. view s c = Some v \<and> session_pick b (c, v) = Some x}"
      "length xs = card {c. \<exists>v x. view s c = Some v \<and> session_pick b (c, v) = Some x}"
    by (rule collect_range_law [OF session_visit_pick [of b] assms(1)])
  obtain s' where s': "forE xs (\<lambda>(kBytes, sessionStart). wrapE ''sweepSessionStore: delete expired session key''
        (doE (WindowDelete st kBytes sessionStart))) s = (Inr (), s')"
      "ok s'" "view s' = view s |` (- ((\<lambda>(k, t). CompositeKey k t) ` set xs))"
    by (rule window_delete_each [OF assms(1)])
  have "(\<lambda>(k, t). CompositeKey k t) ` set xs = {c. \<exists>v. view s c = Some v \<and> 0 < b \<and> expired_session b c v}"
  proof (intro equalityI subsetI)
    fix c assume "c \<in> {c. \<exists>v. view s c = Some v \<and> 0 < b \<and> expired_session b c v}"
    then obtain v k t where "view s c = Some v" "session_pick b (c, v) = Some (k, t)"
      using session_pick_expired by blast
    then show "c \<in> (\<lambda>(k, t). CompositeKey k t) ` set xs"
      using session_pick_key(1) by (force simp: xs(2))
  next
    fix c assume "c \<in> (\<lambda>(k, t). CompositeKey k t) ` set xs"
    then obtain k t c' v where "c = CompositeKey k t" "view s c' = Some v" "session_pick b (c', v) = Some (k, t)"
      by (auto simp: xs(2))
    then show "c \<in> {c. \<exists>v. view s c = Some v \<and> 0 < b \<and> expired_session b c v}"
      using False session_pick_key [of b c' v k t] by auto
  qed
  moreover have "{c. \<exists>v x. view s c = Some v \<and> session_pick b (c, v) = Some x} = {c. \<exists>v. view s c = Some v \<and> 0 < b \<and> expired_session b c v}"
    using False by (auto simp: session_pick_iff [symmetric])
  ultimately show ?thesis
    using False s' xs by (simp add: sweepSessionStore_def b [symmetric] act_simps map_without_restrict)
qed

end

section \<open>Properties\<close>

text \<open>
  C28: The retention sweeps remove exactly the expired entries. On every store that meets the
  store contract the window sweep succeeds, deletes the entries whose key decodes to a window
  start before \<open>streamTime - MaxSizeMs - grace\<close> (\<open>int64\<close>, wrap-around included), keeps every other
  entry with its value, and returns the number of deleted entries; the session sweep does the
  same for the entries whose value holds a session end before \<open>streamTime - gap - grace\<close>; and a
  boundary that is not positive deletes nothing.
\<close>

theorem retention_sweeps_exact:
  assumes "byte_store st view ok" "ok s"
    and "bw = i64 (i64 (streamTime - MaxSizeMs windowDef) - graceMs)"
    and "bs = i64 (i64 (streamTime - gapMs) - graceMs)"
  shows "(\<exists>n s'. sweepWindowStore st windowDef graceMs streamTime s = (Inr n, s') \<and> ok s'
      \<and> (\<forall>c. view s' c = (if 0 < bw \<and> (\<exists>k t. decodeWindowCompositeKey c = Inr (k, t) \<and> t < bw) then None else view s c))
      \<and> n = card (dom (view s) - dom (view s')))
    \<and> (\<exists>n s'. sweepSessionStore st gapMs graceMs streamTime s = (Inr n, s') \<and> ok s'
      \<and> (\<forall>c. view s' c = (case view s c of None \<Rightarrow> None | Some v \<Rightarrow>
            if 0 < bs \<and> (\<exists>k t. decodeWindowCompositeKey c = Inr (k, t)) \<and> (\<exists>end acc. DecodeSessionValue v = Inr (end, acc) \<and> end < bs)
            then None else Some v))
      \<and> n = card (dom (view s) - dom (view s')))"
proof -
  have ew: "expired_window bw c \<longleftrightarrow> (\<exists>k t. decodeWindowCompositeKey c = Inr (k, t) \<and> t < bw)" for c
    by (auto simp: expired_window_def split: sum.split)
  have es: "expired_session bs c v \<longleftrightarrow> (\<exists>k t. decodeWindowCompositeKey c = Inr (k, t))
      \<and> (\<exists>end acc. DecodeSessionValue v = Inr (end, acc) \<and> end < bs)" for c v
    by (auto simp: expired_session_def DecodeSessionValue_def split: sum.split)
  have dom: "dom m - dom (map_without P m) = {c. \<exists>v. m c = Some v \<and> P c v}" for P and m :: "bytes \<rightharpoonup> bytes"
    by (auto simp: map_without_def dom_def split: option.splits if_splits)
  have dom_eq: "{c \<in> dom m. Q c} = {c. \<exists>v. m c = Some v \<and> Q c}" for Q and m :: "bytes \<rightharpoonup> bytes"
    by auto
  obtain n s' where w: "sweepWindowStore st windowDef graceMs streamTime s = (Inr n, s')" "ok s'"
      "view s' = map_without (\<lambda>c v. 0 < bw \<and> expired_window bw c) (view s)"
      "n = card {c \<in> dom (view s). 0 < bw \<and> expired_window bw c}"
    using byte_store.window_sweep [OF assms(1-3)] by blast
  obtain n' s'' where v: "sweepSessionStore st gapMs graceMs streamTime s = (Inr n', s'')" "ok s''"
      "view s'' = map_without (\<lambda>c v. 0 < bs \<and> expired_session bs c v) (view s)"
      "n' = card {c. \<exists>v. view s c = Some v \<and> 0 < bs \<and> expired_session bs c v}"
    using byte_store.session_sweep [OF assms(1,2,4)] by blast
  have "view s' c = (if 0 < bw \<and> expired_window bw c then None else view s c)" for c
    by (simp add: w(3) map_without_def split: option.split)
  moreover have "view s'' c = (case view s c of None \<Rightarrow> None | Some v \<Rightarrow> if 0 < bs \<and> expired_session bs c v then None else Some v)" for c
    by (simp add: v(3) map_without_def)
  moreover have "n = card (dom (view s) - dom (view s'))" "n' = card (dom (view s) - dom (view s''))"
    by (simp_all only: w(3,4) v(3,4) dom dom_eq)
  ultimately show ?thesis
    using w(1,2) v(1,2) unfolding ew [symmetric] es [symmetric] by blast
qed

text \<open>
  Two scenarios of one key that is active while another key moves the stream-time: the first
  records, an optional sweep, and one more record of the first key.
\<close>

definition window_run :: "bool \<Rightarrow> (MemBackend, goval) estate" where
  "window_run sweep =
     (let fn = WindowedCount_fn bytes_type bytes_type bytesserde (tumblingWindow 10) 0 None (add_late ''c'') ''w'' tally_serde;
          pc = sink_ctx [''out''] [''w''];
          s = snd (feed fn pc (map (typed_record bytes_type bytes_type) [([1], [], 12), ([2], [], 25)]) (one_store ''w''));
          s' = (if sweep then snd (sweepWindowStore (lift_store (mem_store ''w'')) (tumblingWindow 10) 0 (ctx_StreamTime s) s) else s)
      in snd (feed fn pc [typed_record bytes_type bytes_type ([1], [], 16)] s'))"

definition session_run :: "bool \<Rightarrow> (MemBackend, goval) estate" where
  "session_run sweep =
     (let fn = SessionCount_fn bytes_type bytes_type bytesserde 10 0 None (add_late ''c'') ''w'' tally_serde;
          pc = sink_ctx [''out''] [''w''];
          s = snd (feed fn pc (map (typed_record bytes_type bytes_type) [([1], [], 10), ([2], [], 25)]) (one_store ''w''));
          s' = (if sweep then snd (sweepSessionStore (lift_store (mem_store ''w'')) 10 0 (ctx_StreamTime s) s) else s)
      in snd (feed fn pc [typed_record bytes_type bytes_type ([1], [], 16)] s'))"

lemma window_run_late: "late_count ''c'' (window_run sweep) = 0"
  by (cases sweep; simp only:; code_simp)

lemma window_run_views:
  "mem_ctx_view ''w'' (window_run False) (CompositeKey [1] 10) = Some [0, 1, 1]"
  "mem_ctx_view ''w'' (window_run True) (CompositeKey [1] 10) = Some [0, 1]"
  by code_simp+

lemma session_run_late: "late_count ''c'' (session_run sweep) = 0"
  by (cases sweep; simp only:; code_simp)

lemma session_run_views:
  "mem_ctx_view ''w'' (session_run False) (CompositeKey [1] 10) = Some (EncodeSessionValue 16 [0, 1, 1])"
  "mem_ctx_view ''w'' (session_run True) (CompositeKey [1] 10) = None"
  "mem_ctx_view ''w'' (session_run True) (CompositeKey [1] 16) = Some (EncodeSessionValue 16 [0, 1])"
  by code_simp+

text \<open>
  With windows of 10 ms and no grace, a record of a key at 12, the stream-time moved to 25 by
  another key, and a record of the first key at 16: neither is late, and the sweep between them
  makes the count of the window that starts at 10 end as 1 instead of 2. In the same way a session
  of the key that ended at 10 is swept although the accepted record at 16 is within its gap of
  10 ms, and is not merged with it.
\<close>

theorem sweep_scenarios:
  "late_count ''c'' (window_run False) = 0 \<and> late_count ''c'' (window_run True) = 0
    \<and> wtable bytesserde tally_serde (mem_ctx_view ''w'' (window_run False)) ([1], 10) = Some 2
    \<and> wtable bytesserde tally_serde (mem_ctx_view ''w'' (window_run True)) ([1], 10) = Some 1
    \<and> late_count ''c'' (session_run False) = 0 \<and> late_count ''c'' (session_run True) = 0
    \<and> stable bytesserde tally_serde (mem_ctx_view ''w'' (session_run False)) [1] 10 = Some (16, 2)
    \<and> stable bytesserde tally_serde (mem_ctx_view ''w'' (session_run True)) [1] 10 = None
    \<and> stable bytesserde tally_serde (mem_ctx_view ''w'' (session_run True)) [1] 16 = Some (16, 1)"
proof -
  have k: "key_fits [1]" "is_i64 10" "is_i64 16" by (simp_all add: key_fits_def is_i64_def MinInt64_def MaxInt64_def)
  show ?thesis
    by (simp add: window_run_late session_run_late wtable_def stable_def bytesserde_def k window_run_views
        session_run_views tally_serde_def decode_encode_session)
qed

lemma sweep_frame:
  "es_streamTime (snd (sweepWindowStore (lift_store st) windowDef graceMs streamTime s)) = es_streamTime s
    \<and> es_late (snd (sweepWindowStore (lift_store st) windowDef graceMs streamTime s)) = es_late s"
proof -
  have "es_streamTime (snd (forE ks (\<lambda>k. wrapE msg (doE (Delete (lift_store st) k))) s)) = es_streamTime s
      \<and> es_late (snd (forE ks (\<lambda>k. wrapE msg (doE (Delete (lift_store st) k))) s)) = es_late s" for ks msg
    by (induction ks arbitrary: s) (auto simp: act_simps lift_store_def lift_update_def split: prod.splits option.splits)
  then show ?thesis
    by (auto simp: sweepWindowStore_def Let_def act_simps split: prod.splits sum.splits) (metis snd_conv)+
qed

text \<open>
  C40: A sweep forgets windows that still accept records. Whenever a tumbling window that starts
  at \<open>start\<close> holds an accumulator of a key and the boundary \<open>T - size - grace\<close> lies after \<open>start\<close> and
  not after a timestamp \<open>ts\<close> of the window, a record of the key at \<open>ts\<close> is not late, with the
  sweep or without it; without it the record is folded into the accumulator, but the sweep deletes
  the window and the record then starts again from the initial value.
\<close>

theorem sweep_forgets_accepted_records:
  assumes ty: "go_type kt" "go_type vt" "total_serde keySerde" "total_serde accSerde"
    and st: "mem_ctx_ok name s" "wdecodable accSerde (mem_ctx_view name s)" "es_streamTime s = Some T" "0 \<le> T" "is_i64 T"
    and size: "0 < sz" "0 \<le> graceMs" "sz + graceMs \<le> MaxInt64"
    and rec: "Serialize keySerde k = Inr kb" "key_fits kb" "0 \<le> ts" "ts + sz \<le> MaxInt64"
    and win: "sz dvd start" "start \<le> ts" "ts < start + sz"
    and held: "wtable keySerde accSerde (mem_ctx_view name s) (k, start) = Some a"
    and bound: "start < T - sz - graceMs" "T - sz - graceMs \<le> ts"
    and fn: "fn = WindowedAggregate_fn kt vt keySerde (tumblingWindow sz) graceMs None (add_late c) name initFn aggFn accSerde
        (typed_record kt vt (k, v, ts)) (sink_ctx sinks [name])"
  shows "\<exists>n s1 s2 s3. sweepWindowStore (lift_store (mem_store name)) (tumblingWindow sz) graceMs T s = (Inr n, s1)
    \<and> wtable keySerde accSerde (mem_ctx_view name s1) (k, start) = None
    \<and> fn s1 = (None, s2) \<and> late_count c s2 = late_count c s
    \<and> wtable keySerde accSerde (mem_ctx_view name s2) (k, start) = Some (aggFn k v (initFn ()))
    \<and> fn s = (None, s3) \<and> late_count c s3 = late_count c s
    \<and> wtable keySerde accSerde (mem_ctx_view name s3) (k, start) = Some (aggFn k v a)"
proof -
  let ?b = "T - sz - graceMs"
  note op = mem_window_op [OF ty, of name sinks c]
  have enc: "total_serde.enc keySerde k = kb"
    using total_serde.serialize_enc [OF ty(3), of k] rec(1) by simp
  have start: "start = ts div sz * sz" using in_tumbling_window [OF size(1) win(1)] win(2,3) by blast
  have s0: "0 \<le> start" using rec(3) size(1) by (simp add: start pos_imp_zdiv_nonneg_iff)
  have range: "is_i64 start" "is_i64 (max T ts - sz)" "is_i64 (max T ts - sz - graceMs)"
    using st(4,5) size rec(3,4) win(2) s0 by (auto simp: is_i64_def MaxInt64_def MinInt64_def)
  have one: "\<exists>s''. fn s' = (None, s'') \<and> late_count c s'' = late_count c s'
      \<and> wtable keySerde accSerde (mem_ctx_view name s'') (k, start)
        = Some (aggFn k v (case wtable keySerde accSerde (mem_ctx_view name s') (k, start) of None \<Rightarrow> initFn () | Some a \<Rightarrow> a))"
    if "mem_ctx_ok name s'" "wdecodable accSerde (mem_ctx_view name s')" "es_streamTime s' = Some T" for s'
  proof -
    have T: "StreamTime (sink_ctx sinks [name]) s' = T"
      using that(3) by (simp add: sink_ctx_def processorCtxImpl_def ctx_StreamTime_def)
    have "\<not> ts < max T ts - (MaxSizeMs (tumblingWindow sz) + graceMs)"
      using bound size by (auto simp: tumblingWindow_def max_def)
    then show ?thesis
      using window_op.window_record [OF op that(1,2) tumbling_Assign_eq [OF size(1) rec(3,4)], where graceMs = graceMs]
        range rec(2) enc T
      by (fastforce simp: fn tumblingWindow_def start [symmetric] agg_step_def wagg_def)
  qed
  have b: "?b = i64 (i64 (T - MaxSizeMs (tumblingWindow sz)) - graceMs)"
    using st(4,5) size by (simp add: tumblingWindow_def i64_id is_i64_def MaxInt64_def MinInt64_def)
  obtain n s1 where s1: "sweepWindowStore (lift_store (mem_store name)) (tumblingWindow sz) graceMs T s = (Inr n, s1)"
      "mem_ctx_ok name s1"
      "mem_ctx_view name s1 = map_without (\<lambda>c v. 0 < ?b \<and> expired_window ?b c) (mem_ctx_view name s)"
    using byte_store.window_sweep [OF mem_task.byte_store_axioms st(1) b] by blast
  have keep: "es_streamTime s1 = Some T" "late_count c s1 = late_count c s"
    using sweep_frame [of "mem_store name" "tumblingWindow sz" graceMs T s] s1(1) st(3)
    by (simp_all add: late_count_def)
  have "decodeWindowCompositeKey (CompositeKey kb start) = Inr (kb, start)"
    using decode_CompositeKey [OF rec(2) range(1)] by (rule decoders_agree(2) [THEN iffD1])
  then have gone: "wtable keySerde accSerde (mem_ctx_view name s1) (k, start) = None"
    using s0 bound(1) rec(1) by (simp add: wtable_def s1(3) map_without_def expired_window_def split: option.split)
  have "wdecodable accSerde (mem_ctx_view name s1)"
    using st(2) by (auto simp: wdecodable_def s1(3) map_without_def split: option.splits if_splits)
  from one [OF s1(2) this keep(1)] one [OF st(1,2,3)] show ?thesis
    using s1(1) gone held keep(2) by fastforce
qed

theorem sweep_forgets_accepted_records_witness:
  "\<exists>s s1 s2 s3 n. wtable bytesserde tally_serde (mem_ctx_view ''w'' s) ([1], 10) = Some 1
    \<and> sweepWindowStore (lift_store (mem_store ''w'')) (tumblingWindow 10) 0 25 s = (Inr n, s1)
    \<and> WindowedCount_fn bytes_type bytes_type bytesserde (tumblingWindow 10) 0 None (add_late ''c'') ''w'' tally_serde
        (typed_record bytes_type bytes_type ([1], [], 16)) (sink_ctx [''out''] [''w'']) s1 = (None, s2)
    \<and> wtable bytesserde tally_serde (mem_ctx_view ''w'' s2) ([1], 10) = Some 1
    \<and> WindowedCount_fn bytes_type bytes_type bytesserde (tumblingWindow 10) 0 None (add_late ''c'') ''w'' tally_serde
        (typed_record bytes_type bytes_type ([1], [], 16)) (sink_ctx [''out''] [''w'']) s = (None, s3)
    \<and> wtable bytesserde tally_serde (mem_ctx_view ''w'' s3) ([1], 10) = Some 2"
proof -
  obtain s0 :: "(MemBackend, goval) estate" where put: "snd (WindowPut (lift_store (mem_store ''w'')) [1] 10 [0, 1] (one_store ''w'')) = s0"
    by blast
  have s0: "mem_ctx_ok ''w'' s0" "mem_ctx_view ''w'' s0 = [CompositeKey [1] 10 \<mapsto> [0, 1]]"
    using mem_task.window_put_law [OF one_store_ok [of "''w''"] surjective_pairing, of "[1]" 10 "[0, 1]"] put
    by (simp_all add: one_store_empty)
  let ?s = "s0\<lparr>es_streamTime := Some 25\<rparr>"
  have ok: "mem_ctx_ok ''w'' ?s" "mem_ctx_view ''w'' ?s = [CompositeKey [1] 10 \<mapsto> [0, 1]]" "es_streamTime ?s = Some 25"
    using s0 by (simp_all add: mem_ctx_ok_def mem_ctx_view_def)
  have k: "Serialize bytesserde [1] = Inr [1]" "key_fits [1]" "is_i64 10" "is_i64 25"
    by (simp_all add: bytesserde_def key_fits_def is_i64_def MinInt64_def MaxInt64_def)
  have held: "wtable bytesserde tally_serde (mem_ctx_view ''w'' ?s) ([1], 10) = Some 1"
    unfolding ok(2) by (simp add: wtable_def bytesserde_def k tally_serde_def)
  have dec: "wdecodable tally_serde (mem_ctx_view ''w'' ?s)"
    unfolding ok(2) by (simp add: wdecodable_def tally_serde_def)
  have side: "0 \<le> (25 :: int)" "0 < (10 :: int)" "0 \<le> (0 :: int)" "10 + 0 \<le> MaxInt64" "0 \<le> (16 :: int)" "16 + 10 \<le> MaxInt64"
    "10 dvd (10 :: int)" "10 \<le> (16 :: int)" "16 < 10 + (10 :: int)" "10 < 25 - 10 - (0 :: int)" "25 - 10 - 0 \<le> (16 :: int)"
    by (simp_all add: MaxInt64_def)
  show ?thesis
    using sweep_forgets_accepted_records [OF bytes_ty.go_type_axioms bytes_ty.go_type_axioms bytes_sd.total_serde_axioms
        tally.total_serde_axioms ok(1) dec ok(3) side(1) k(4) side(2-4) k(1,2) side(5-9) held side(10,11) refl,
        where v = "[]" and c = "''c''" and initFn = count_init and aggFn = count_agg and sinks = "[''out'']"] held
    by (auto simp: WindowedCount_fn_def count_agg_def count_init_def i64_def)
qed

text \<open>A scenario for the sweeps: two windows, one of them before the boundary.\<close>

theorem retention_sweeps_exact_witness:
  "\<exists>n b'. sweepWindowStore (mem_store ''a'') (tumblingWindow 10) 0 25
      (snd (WindowPut (mem_store ''a'') [1] 20 [7] (snd (WindowPut (mem_store ''a'') [1] 10 [8] two_stores)))) = (Inr n, b')
    \<and> mem_view ''a'' b' (CompositeKey [1] 10) = None \<and> mem_view ''a'' b' (CompositeKey [1] 20) = Some [7]"
proof -
  let ?b1 = "snd (WindowPut (mem_store ''a'') [1] 10 [8] two_stores)"
  let ?b = "snd (WindowPut (mem_store ''a'') [1] 20 [7] ?b1)"
  have b1: "mem_ok ''a'' ?b1 \<and> mem_view ''a'' ?b1 = (mem_view ''a'' two_stores)(CompositeKey [1] 10 \<mapsto> [8])"
    using mem.window_put_law [OF two_stores_ok(1) surjective_pairing] by blast
  then have b: "mem_ok ''a'' ?b \<and> mem_view ''a'' ?b = (mem_view ''a'' ?b1)(CompositeKey [1] 20 \<mapsto> [7])"
    using mem.window_put_law [OF _ surjective_pairing] by blast
  have d: "decodeWindowCompositeKey (CompositeKey [1] 10) = Inr ([1], 10)" "decodeWindowCompositeKey (CompositeKey [1] 20) = Inr ([1], 20)"
    by code_simp+
  have "i64 (i64 (25 - MaxSizeMs (tumblingWindow 10)) - 0) = 15" by code_simp
  then show ?thesis
    using retention_sweeps_exact [OF mem.byte_store_axioms [of "''a''"] conjunct1 [OF b] refl refl,
        of "tumblingWindow 10" 0 25 10] b d by auto
qed

end
