(* ===== verification/Backend.thy ===== *)
theory Backend
  imports PebbleStore
begin

text \<open>
  \<open>StoreBackend\<close> of \<open>store.go\<close>: what the runtime uses of a storage back end, as a record of
  operations, with the in-memory and the Pebble back end as its two implementations, and the
  contract \<open>state_backend\<close> that both meet.
\<close>

section \<open>Definitions\<close>

text \<open>
  \<open>OpenStore\<close> leaves the handle of the opened store under its name; \<open>be_Store\<close> is that handle.
\<close>

record 'b StoreBackend =
  be_OpenStore :: "string \<Rightarrow> bool \<Rightarrow> 'b \<Rightarrow> error option \<times> 'b"
  be_Store :: "string \<Rightarrow> 'b Store"
  be_Restore :: "string \<Rightarrow> StoreMutation list \<Rightarrow> int \<Rightarrow> 'b \<Rightarrow> error option \<times> 'b"
  be_ReadCheckpoint :: "string \<Rightarrow> 'b \<Rightarrow> error + int option"
  be_WriteCheckpoint :: "string \<Rightarrow> int \<Rightarrow> 'b \<Rightarrow> error option \<times> 'b"
  be_ReadStreamTime :: "'b \<Rightarrow> error + int option"
  be_WriteStreamTime :: "int \<Rightarrow> 'b \<Rightarrow> error option \<times> 'b"
  be_Close :: "'b \<Rightarrow> error option \<times> 'b"

definition on_db :: "(DB \<Rightarrow> error option \<times> DB) \<Rightarrow> MemBackend \<Rightarrow> error option \<times> MemBackend" where
  "on_db op b = (case op (mb_db b) of (e, db) \<Rightarrow> (e, b\<lparr>mb_db := db\<rparr>))"

definition mem_backend :: "MemBackend StoreBackend" where
  "mem_backend =
     \<lparr>be_OpenStore = mb_open, be_Store = mem_store,
      be_Restore = (\<lambda>n muts cp. on_db (DB_Restore n muts cp)),
      be_ReadCheckpoint = (\<lambda>n b. DB_ReadCheckpoint n (mb_db b)),
      be_WriteCheckpoint = (\<lambda>n off. on_db (DB_WriteCheckpoint n off)),
      be_ReadStreamTime = (\<lambda>b. DB_ReadStreamTime (mb_db b)),
      be_WriteStreamTime = (\<lambda>ts. on_db (DB_WriteStreamTime ts)),
      be_Close = on_db DB_Close\<rparr>"

text \<open>\<open>Backend.Close\<close> is \<open>pebble.DB.Close\<close>, the argument \<open>closeDB\<close>.\<close>

definition on_pdb :: "('p \<Rightarrow> error option \<times> 'p) \<Rightarrow> 'p PebbleBackend \<Rightarrow> error option \<times> 'p PebbleBackend" where
  "on_pdb op b = (case op (pb_db b) of (e, p) \<Rightarrow> (e, b\<lparr>pb_db := p\<rparr>))"

definition peb_backend :: "('p \<Rightarrow> error option \<times> 'p) \<Rightarrow> 'p PebbleDB \<Rightarrow> 'p PebbleBackend StoreBackend" where
  "peb_backend closeDB D =
     \<lparr>be_OpenStore = peb_OpenStore, be_Store = peb_store D,
      be_Restore = (\<lambda>n muts cp. on_pdb (peb_Restore D n muts cp)),
      be_ReadCheckpoint = (\<lambda>n b. ReadCheckpoint D n (pb_db b)),
      be_WriteCheckpoint = (\<lambda>n off. on_pdb (WriteCheckpointSync D n off)),
      be_ReadStreamTime = (\<lambda>b. ReadStreamTime D (pb_db b)),
      be_WriteStreamTime = (\<lambda>ts. on_pdb (WriteStreamTime D ts)),
      be_Close = on_pdb closeDB\<rparr>"

section \<open>The contract\<close>

text \<open>A key a store may write: no key of the metadata, which all start with a NUL byte.\<close>

definition data_key :: "bytes \<Rightarrow> bool" where
  "data_key k \<longleftrightarrow> k \<noteq> [] \<and> hd k \<noteq> 0"

definition only_data :: "(bytes \<rightharpoonup> bytes) \<Rightarrow> bytes \<rightharpoonup> bytes" where
  "only_data m k = (if data_key k then m k else None)"

definition mutate :: "StoreMutation \<Rightarrow> (bytes \<rightharpoonup> bytes) \<Rightarrow> bytes \<rightharpoonup> bytes" where
  "mutate mutation m = m(m_Key mutation := m_Value mutation)"

text \<open>
  The contents of all stores of a back end under their full keys (\<open>raw\<close>), the checkpoints and the
  stream-time, in the states in which it works (\<open>okb\<close>).
\<close>

locale state_backend =
  fixes be :: "'b StoreBackend"
    and raw :: "'b \<Rightarrow> bytes \<rightharpoonup> bytes"
    and ckpt :: "'b \<Rightarrow> string \<rightharpoonup> int"
    and stime :: "'b \<Rightarrow> int option"
    and okb :: "'b \<Rightarrow> bool"
  assumes restore_law: "okb b \<Longrightarrow> is_i64 cp \<Longrightarrow> \<forall>m \<in> set muts. data_key (m_Key m) \<Longrightarrow> be_Restore be n muts cp b = (e, b') \<Longrightarrow>
      e = None \<and> okb b' \<and> raw b' = fold mutate muts (raw b)
      \<and> ckpt b' = (if cp \<ge> 0 then (ckpt b)(n \<mapsto> cp) else ckpt b) \<and> stime b' = stime b"
    and read_ckpt_law: "okb b \<Longrightarrow> be_ReadCheckpoint be n b = Inr (ckpt b n)"
    and write_ckpt_law: "okb b \<Longrightarrow> is_i64 cp \<Longrightarrow> be_WriteCheckpoint be n cp b = (e, b') \<Longrightarrow>
      e = None \<and> okb b' \<and> raw b' = raw b \<and> ckpt b' = (ckpt b)(n \<mapsto> cp) \<and> stime b' = stime b"
    and read_stime_law: "okb b \<Longrightarrow> be_ReadStreamTime be b = Inr (stime b)"
    and write_stime_law: "okb b \<Longrightarrow> is_i64 t \<Longrightarrow> be_WriteStreamTime be t b = (e, b') \<Longrightarrow>
      e = None \<and> okb b' \<and> raw b' = raw b \<and> ckpt b' = ckpt b \<and> stime b' = Some t"

section \<open>Mutations\<close>

lemma apply_mutation_get: "go_get (apply_mutation m data) = mutate m (go_get data)"
  by (cases "m_Value m") (auto simp: apply_mutation_def mutate_def fun_eq_iff)

lemma fold_apply_mutation_get: "go_get (fold apply_mutation muts data) = fold mutate muts (go_get data)"
  by (induction muts arbitrary: data) (simp_all add: apply_mutation_get)

lemma fold_apply_mutation_ok: "go_map_ok data \<Longrightarrow> go_map_ok (fold apply_mutation muts data)"
  by (induction muts arbitrary: data) (simp_all add: apply_mutation_def split: option.split)

lemma apply_batch_op: "apply_op (batch_op m) f = mutate m f"
  by (cases "m_Value m") (simp_all add: batch_op_def mutate_def)

lemma fold_apply_batch_op: "fold apply_op (map batch_op muts) f = fold mutate muts f"
  by (induction muts arbitrary: f) (simp_all add: apply_batch_op)

lemma fold_mutate_other: "\<forall>m \<in> set muts. m_Key m \<noteq> k \<Longrightarrow> fold mutate muts f k = f k"
  by (induction muts arbitrary: f) (auto simp: mutate_def)

lemma fold_mutate_cong: "f k = g k \<Longrightarrow> fold mutate muts f k = fold mutate muts g k"
proof (induction muts arbitrary: f g)
  case (Cons m muts)
  have "mutate m f k = mutate m g k" using Cons.prems by (simp add: mutate_def)
  then have "fold mutate muts (mutate m f) k = fold mutate muts (mutate m g) k" by (rule Cons.IH)
  then show ?case by simp
qed simp

text \<open>Mutations of data keys commute with looking at the data keys only.\<close>

lemma only_data_fold_mutate:
  "\<forall>m \<in> set muts. data_key (m_Key m) \<Longrightarrow> only_data (fold mutate muts f) = fold mutate muts (only_data f)"
proof (induction muts arbitrary: f)
  case (Cons m muts)
  have "only_data (mutate m f) = mutate m (only_data f)"
    using Cons.prems by (auto simp: mutate_def only_data_def)
  then show ?case using Cons by simp
qed simp

lemma data_key_store: "store_name_ok n \<Longrightarrow> data_key (name_prefix n @ k)"
  by (cases n) (auto simp: data_key_def store_name_ok_def name_prefix_def bytes_of_def)

lemma not_data_key_meta: "\<not> data_key (checkpointKey n)" "\<not> data_key streamTimeKey"
  using checkpointKey_NUL [of n] streamTimeKey_NUL by (metis data_key_def list.sel(1))+

section \<open>The in-memory back end\<close>

definition mem_raw :: "MemBackend \<Rightarrow> bytes \<rightharpoonup> bytes" where
  "mem_raw b = only_data (go_get (db_data (mb_db b)))"

definition mem_ckpt :: "MemBackend \<Rightarrow> string \<rightharpoonup> int" where
  "mem_ckpt b = go_get (db_checkpoints (mb_db b))"

definition mem_stime :: "MemBackend \<Rightarrow> int option" where
  "mem_stime b = (if db_hasStreamTime (mb_db b) then Some (db_streamTime (mb_db b)) else None)"

definition mem_open :: "MemBackend \<Rightarrow> bool" where
  "mem_open b \<longleftrightarrow> \<not> db_closed (mb_db b) \<and> go_map_ok (db_data (mb_db b))"

lemmas mem_backend_defs = mem_backend_def on_db_def mem_open_def mem_raw_def mem_ckpt_def mem_stime_def

interpretation mem_be: state_backend mem_backend mem_raw mem_ckpt mem_stime mem_open
proof
  fix b :: MemBackend and cp t :: int and muts n e and b' :: MemBackend
  assume ok: "mem_open b"
  show "be_ReadCheckpoint mem_backend n b = Inr (mem_ckpt b n)" "be_ReadStreamTime mem_backend b = Inr (mem_stime b)"
    using ok by (simp_all add: mem_backend_defs DB_ReadCheckpoint_def DB_ReadStreamTime_def)
  show "be_WriteCheckpoint mem_backend n cp b = (e, b') \<Longrightarrow> e = None \<and> mem_open b' \<and> mem_raw b' = mem_raw b
      \<and> mem_ckpt b' = (mem_ckpt b)(n \<mapsto> cp) \<and> mem_stime b' = mem_stime b"
    using ok by (auto simp: mem_backend_defs DB_WriteCheckpoint_def)
  show "be_WriteStreamTime mem_backend t b = (e, b') \<Longrightarrow> e = None \<and> mem_open b' \<and> mem_raw b' = mem_raw b
      \<and> mem_ckpt b' = mem_ckpt b \<and> mem_stime b' = Some t"
    using ok by (auto simp: mem_backend_defs DB_WriteStreamTime_def)
  assume "\<forall>m \<in> set muts. data_key (m_Key m)" and r: "be_Restore mem_backend n muts cp b = (e, b')"
  note data = only_data_fold_mutate [OF this(1)]
  show "e = None \<and> mem_open b' \<and> mem_raw b' = fold mutate muts (mem_raw b)
      \<and> mem_ckpt b' = (if cp \<ge> 0 then (mem_ckpt b)(n \<mapsto> cp) else mem_ckpt b) \<and> mem_stime b' = mem_stime b"
    using ok r by (auto simp: mem_backend_defs DB_Restore_def fold_apply_mutation_ok fold_apply_mutation_get data Let_def)
qed

lemma mem_view_raw: "store_name_ok n \<Longrightarrow> mem_view n b k = mem_raw b (name_prefix n @ k)"
  by (simp add: mem_view_def mem_raw_def only_data_def data_key_store)

section \<open>The Pebble back end\<close>

definition peb_raw :: "('p \<Rightarrow> bytes \<rightharpoonup> bytes) \<Rightarrow> 'p PebbleBackend \<Rightarrow> bytes \<rightharpoonup> bytes" where
  "peb_raw pview b = only_data (pview (pb_db b))"

definition peb_ckpt :: "('p \<Rightarrow> bytes \<rightharpoonup> bytes) \<Rightarrow> 'p PebbleBackend \<Rightarrow> string \<rightharpoonup> int" where
  "peb_ckpt pview b n = map_option int64_of_be (pview (pb_db b) (checkpointKey n))"

definition peb_stime :: "('p \<Rightarrow> bytes \<rightharpoonup> bytes) \<Rightarrow> 'p PebbleBackend \<Rightarrow> int option" where
  "peb_stime pview b = map_option int64_of_be (pview (pb_db b) streamTimeKey)"

text \<open>The metadata a back end reads was written by it: values of eight bytes.\<close>

definition peb_meta_ok :: "('p \<Rightarrow> bytes \<rightharpoonup> bytes) \<Rightarrow> 'p PebbleBackend \<Rightarrow> bool" where
  "peb_meta_ok pview b \<longleftrightarrow> (\<forall>n v. pview (pb_db b) (checkpointKey n) = Some v \<longrightarrow> length v = 8)
     \<and> (\<forall>v. pview (pb_db b) streamTimeKey = Some v \<longrightarrow> length v = 8)"

lemma peb_ckpt_fun: "peb_ckpt pview b = (\<lambda>n. map_option int64_of_be (pview (pb_db b) (checkpointKey n)))"
  by (rule ext) (simp add: peb_ckpt_def)

lemmas peb_backend_defs = peb_raw_def peb_ckpt_fun peb_stime_def peb_meta_ok_def

lemma only_data_meta: "\<not> data_key k \<Longrightarrow> only_data (m(k := v)) = only_data m"
  by (auto simp: only_data_def)

sublocale pebble_db \<subseteq> peb_be: state_backend "peb_backend closeDB D" "peb_raw pview" "peb_ckpt pview" "peb_stime pview" "peb_meta_ok pview" for closeDB
proof
  fix b b' :: "'p PebbleBackend" and cp t :: int and muts n e
  assume ok: "peb_meta_ok pview b"
  note keys = checkpointKey_inject checkpointKey_streamTimeKey checkpointKey_streamTimeKey [symmetric]
    only_data_meta not_data_key_meta
  show "be_ReadCheckpoint (peb_backend closeDB D) n b = Inr (peb_ckpt pview b n)"
    "be_ReadStreamTime (peb_backend closeDB D) b = Inr (peb_stime pview b)"
    using ok by (simp_all add: peb_backend_def peb_backend_defs ReadCheckpoint_def ReadStreamTime_def read_int64_ok split: option.split)
  show "be_WriteCheckpoint (peb_backend closeDB D) n cp b = (e, b') \<Longrightarrow> is_i64 cp \<Longrightarrow> e = None \<and> peb_meta_ok pview b'
      \<and> peb_raw pview b' = peb_raw pview b \<and> peb_ckpt pview b' = (peb_ckpt pview b)(n \<mapsto> cp) \<and> peb_stime pview b' = peb_stime pview b"
    using ok write_checkpoint_ok [of n cp "pb_db b"]
    by (auto simp: peb_backend_def on_pdb_def peb_backend_defs keys int64_of_be_be_bytes split: prod.splits if_splits)
  show "be_WriteStreamTime (peb_backend closeDB D) t b = (e, b') \<Longrightarrow> is_i64 t \<Longrightarrow> e = None \<and> peb_meta_ok pview b'
      \<and> peb_raw pview b' = peb_raw pview b \<and> peb_ckpt pview b' = peb_ckpt pview b \<and> peb_stime pview b' = Some t"
    using ok write_stream_time_ok [of t "pb_db b"]
    by (auto simp: peb_backend_def on_pdb_def peb_backend_defs keys int64_of_be_be_bytes split: prod.splits)
  assume cp: "is_i64 cp" and muts: "\<forall>m \<in> set muts. data_key (m_Key m)" and r: "be_Restore (peb_backend closeDB D) n muts cp b = (e, b')"
  have meta: "\<not> data_key k \<Longrightarrow> fold mutate muts f k = f k" for f k
    using muts by (intro fold_mutate_other) auto
  show "e = None \<and> peb_meta_ok pview b' \<and> peb_raw pview b' = fold mutate muts (peb_raw pview b)
      \<and> peb_ckpt pview b' = (if cp \<ge> 0 then (peb_ckpt pview b)(n \<mapsto> cp) else peb_ckpt pview b) \<and> peb_stime pview b' = peb_stime pview b"
    using ok r cp restore_ok [of n muts cp "pb_db b"]
    by (auto simp: peb_backend_def on_pdb_def peb_backend_defs keys int64_of_be_be_bytes fold_apply_batch_op Let_def
        only_data_fold_mutate [OF muts] meta split: prod.splits if_splits)
qed

lemma peb_view_raw: "store_name_ok n \<Longrightarrow> peb_view pview n b k = peb_raw pview b (name_prefix n @ k)"
  by (simp add: peb_view_def peb_raw_def only_data_def data_key_store)

interpretation alist_be: state_backend "peb_backend closeDB alist_pebble" "peb_raw map_of" "peb_ckpt map_of" "peb_stime map_of" "peb_meta_ok map_of" for closeDB
  by (rule alist_db.peb_be.state_backend_axioms)

section \<open>Opening stores\<close>

text \<open>Opening a named store does not change what the back end holds.\<close>

locale open_backend = state_backend +
  assumes open_law: "okb b \<Longrightarrow> n \<noteq> [] \<Longrightarrow> be_OpenStore be n collecting b = (e, b') \<Longrightarrow>
      e = None \<and> okb b' \<and> raw b' = raw b \<and> ckpt b' = ckpt b \<and> stime b' = stime b"

interpretation mem_obe: open_backend mem_backend mem_raw mem_ckpt mem_stime mem_open
  by unfold_locales (auto simp: mem_backend_defs mb_open_def OpenStore_def)

sublocale pebble_db \<subseteq> peb_obe: open_backend "peb_backend closeDB D" "peb_raw pview" "peb_ckpt pview" "peb_stime pview" "peb_meta_ok pview" for closeDB
  by unfold_locales (auto simp: peb_backend_def peb_OpenStore_def peb_backend_defs)

interpretation alist_obe: open_backend "peb_backend closeDB alist_pebble" "peb_raw map_of" "peb_ckpt map_of" "peb_stime map_of" "peb_meta_ok map_of" for closeDB
  by (rule alist_db.peb_obe.open_backend_axioms)

section \<open>Providers\<close>

text \<open>
  \<open>Provider.Open\<close> of the two packages. The path means nothing to the in-memory provider; opening a Pebble
  database in a directory is the argument \<open>pebbleOpen\<close>.
\<close>

definition mem_Open :: "string \<Rightarrow> error + MemBackend StoreBackend \<times> MemBackend" where
  "mem_Open path = Inr (mem_backend, \<lparr>mb_db = OpenMemDB, mb_stores = []\<rparr>)"

definition OpenDB :: "(string \<Rightarrow> error + 'p) \<Rightarrow> string \<Rightarrow> error + 'p" where
  "OpenDB pebbleOpen dir =
     (case pebbleOpen dir of Inl err \<Rightarrow> Inl (Wrap ''state: open pebble at'' [err]) | Inr db \<Rightarrow> Inr db)"

definition peb_Open :: "('p \<Rightarrow> error option \<times> 'p) \<Rightarrow> 'p PebbleDB \<Rightarrow> (string \<Rightarrow> error + 'p) \<Rightarrow> string
    \<Rightarrow> error + 'p PebbleBackend StoreBackend \<times> 'p PebbleBackend" where
  "peb_Open closeDB D pebbleOpen path =
     (case OpenDB pebbleOpen path of
        Inl err \<Rightarrow> Inl err
      | Inr db \<Rightarrow> Inr (peb_backend closeDB D, \<lparr>pb_db = db, pb_stores = []\<rparr>))"

text \<open>A new in-memory back end works and is empty; a Pebble back end has what its directory has.\<close>

lemma mem_Open_fresh:
  assumes "mem_Open path = Inr (be, b)"
  shows "be = mem_backend" "mem_open b" "mem_raw b = Map.empty" "mem_ckpt b = Map.empty" "mem_stime b = None"
  using assms by (auto simp: mem_Open_def mem_backend_defs OpenMemDB_def only_data_def fun_eq_iff)

lemma peb_Open_holds:
  assumes "peb_Open closeDB D pebbleOpen path = Inr (be, b)"
  shows "\<exists>db. pebbleOpen path = Inr db \<and> be = peb_backend closeDB D \<and> peb_raw pview b = only_data (pview db)"
  using assms by (auto simp: peb_Open_def OpenDB_def peb_raw_def split: sum.splits)

end
