(* ===== verification/KafkaTypes.thy ===== *)
theory KafkaTypes
  imports StoreApi
begin

text \<open>
  \<open>xtypes/nil.go\<close>, \<open>internal/kafka/record.go\<close> and the stateless parts of
  \<open>internal/kafka/client.go\<close> and \<open>internal/runtime/changelog.go\<close>: the records that cross the
  transport boundary, their conversion to the client library's records, and the choice of a
  partition. The client library \<open>franz-go\<close> is third-party code; what the source uses of it is an
  argument of the definitions.
\<close>

unbundle bit_operations_syntax

section \<open>Optional values\<close>

record 't Nil =
  Value :: 't
  IsValid :: bool

definition NilOf :: "'t \<Rightarrow> 't Nil" where
  "NilOf v = \<lparr>Value = v, IsValid = True\<rparr>"

definition IsZero :: "'t Nil \<Rightarrow> bool" where
  "IsZero t = (\<not> IsValid t)"

text \<open>The zero value of the struct, for a type with zero value \<open>z\<close>.\<close>

definition NilZero :: "'t \<Rightarrow> 't Nil" where
  "NilZero z = \<lparr>Value = z, IsValid = False\<rparr>"

text \<open>\<open>fmt.Sprintf("%v")\<close> at the type is the argument \<open>format\<close>.\<close>

definition Nil_String :: "('t \<Rightarrow> string) \<Rightarrow> 't Nil \<Rightarrow> string" where
  "Nil_String format t = (if \<not> IsValid t then ''<nil>'' else format (Value t))"

definition nullAsBytes :: bytes where
  "nullAsBytes = bytes_of ''null''"

definition Nil_MarshalJSON :: "('t \<Rightarrow> error + bytes) \<Rightarrow> 't Nil \<Rightarrow> error + bytes" where
  "Nil_MarshalJSON jsonMarshal t = (if \<not> IsValid t then Inr nullAsBytes else jsonMarshal (Value t))"

definition Nil_UnmarshalJSON :: "(bytes \<Rightarrow> error + 't) \<Rightarrow> 't \<Rightarrow> bytes \<Rightarrow> error + 't Nil" where
  "Nil_UnmarshalJSON jsonUnmarshal z data =
     (if data \<noteq> nullAsBytes
      then (case jsonUnmarshal data of Inl e \<Rightarrow> Inl e | Inr v \<Rightarrow> Inr \<lparr>Value = v, IsValid = True\<rparr>)
      else Inr (NilZero z))"

section \<open>Records\<close>

text \<open>
  \<open>kgo.Record\<close> as far as the source uses it. A nil value (tombstone) is \<open>None\<close>; timestamps are Unix
  milliseconds.
\<close>

record KRecord =
  k_Topic :: string
  k_Partition :: int
  k_Offset :: int
  k_Key :: bytes
  k_Value :: "bytes option"
  k_Timestamp :: int

record InRecord =
  in_Topic :: string
  in_Partition :: int
  in_Offset :: int
  in_Key :: bytes
  in_Value :: "bytes option"
  in_Timestamp :: int

record OutRecord =
  out_Topic :: string
  out_Key :: bytes
  out_Value :: "bytes option"
  out_Partition :: "int Nil"

text \<open>The conversion in the loop bodies of \<open>runALO\<close> and \<open>runEOS\<close> (\<open>fetches.EachRecord\<close>).\<close>

definition toInRecord :: "KRecord \<Rightarrow> InRecord" where
  "toInRecord r = \<lparr>in_Topic = k_Topic r, in_Partition = k_Partition r, in_Offset = k_Offset r,
     in_Key = k_Key r, in_Value = k_Value r, in_Timestamp = k_Timestamp r\<rparr>"

definition outRecordsToKgo :: "OutRecord list \<Rightarrow> KRecord list" where
  "outRecordsToKgo outs =
     map (\<lambda>o'. \<lparr>k_Topic = out_Topic o',
                k_Partition = (if \<not> IsValid (out_Partition o') then -1 else Value (out_Partition o')),
                k_Offset = 0, k_Key = out_Key o', k_Value = out_Value o', k_Timestamp = 0\<rparr>) outs"

section \<open>Hashes and partitioners\<close>

definition murmur_m :: "32 word" where
  "murmur_m = 0x5bd1e995"

fun murmur_loop :: "32 word \<Rightarrow> bytes \<Rightarrow> 32 word \<times> bytes" where
  "murmur_loop h (b0 # b1 # b2 # b3 # b) =
     (let k = ucast b0 OR push_bit 8 (ucast b1) OR push_bit 16 (ucast b2) OR push_bit 24 (ucast b3);
          k = k * murmur_m;
          k = k XOR drop_bit 24 k;
          k = k * murmur_m;
          h = h * murmur_m;
          h = h XOR k
      in murmur_loop h b)"
| "murmur_loop h b = (h, b)"

definition kafkaMurmur2 :: "bytes \<Rightarrow> 32 word" where
  "kafkaMurmur2 b =
     (case murmur_loop (0x9747b28c XOR of_nat (length b)) b of (h, rest) \<Rightarrow>
      let h = (if length rest = 3 then h XOR push_bit 16 (ucast (rest ! 2)) else h);
          h = (if length rest = 3 \<or> length rest = 2 then h XOR push_bit 8 (ucast (rest ! 1)) else h);
          h = (if length rest = 3 \<or> length rest = 2 \<or> length rest = 1 then (h XOR ucast (rest ! 0)) * murmur_m else h);
          h = h XOR drop_bit 13 h;
          h = h * murmur_m
      in h XOR drop_bit 15 h)"

text \<open>
  \<open>kgo.KafkaHasher\<close> is the argument \<open>hasher\<close>: it turns a 32-bit hash function into a function from
  a key and a number of partitions to a partition.
\<close>

definition mixedPartitionerFn :: "((bytes \<Rightarrow> 32 word) \<Rightarrow> bytes \<Rightarrow> int \<Rightarrow> int) \<Rightarrow> KRecord \<Rightarrow> int \<Rightarrow> int" where
  "mixedPartitionerFn hasher r n =
     (if k_Partition r \<ge> 0 then k_Partition r else hasher kafkaMurmur2 (k_Key r) n)"

text \<open>\<open>hash/fnv\<close>: FNV-1a with 32 bits.\<close>

definition fnv32a :: "bytes \<Rightarrow> 32 word" where
  "fnv32a b = foldl (\<lambda>h x. (h XOR ucast x) * 16777619) 2166136261 b"

text \<open>\<open>%\<close> on the non-negative \<open>int(h.Sum32())\<close>.\<close>

definition changelogMixedPartitionerFn :: "KRecord \<Rightarrow> int \<Rightarrow> int" where
  "changelogMixedPartitionerFn r n =
     (if k_Partition r \<ge> 0 then k_Partition r else uint (fnv32a (k_Key r)) smod n)"

section \<open>Changelog records\<close>

record ChangelogProducer =
  cp_topic :: string

text \<open>\<open>kgo.NewClient\<close> of the producer is the argument \<open>newClient\<close>: its error, if any.\<close>

definition NewChangelogProducer :: "error option \<Rightarrow> string list \<Rightarrow> string \<Rightarrow> error + ChangelogProducer" where
  "NewChangelogProducer newClient brokers topic =
     (if brokers = [] then Inl (Err ''state.NewChangelogProducer: brokers must not be empty'')
      else if topic = '''' then Inl (Err ''state.NewChangelogProducer: topic must not be empty'')
      else case newClient of
        Some err \<Rightarrow> Inl (Wrap ''state.NewChangelogProducer: create kgo client'' [err])
      | None \<Rightarrow> Inr \<lparr>cp_topic = topic\<rparr>)"

definition Encode :: "ChangelogProducer \<Rightarrow> int \<Rightarrow> StoreMutation list \<Rightarrow> OutRecord list" where
  "Encode p part muts =
     map (\<lambda>mutation. \<lparr>out_Topic = cp_topic p, out_Key = m_Key mutation, out_Value = m_Value mutation,
                     out_Partition = NilOf part\<rparr>) muts"

text \<open>
  \<open>ProduceSync\<close> is the argument \<open>produce\<close>: on a state of the cluster, the result of each record and
  the state after.
\<close>

definition first_err :: "error option list \<Rightarrow> error option" where
  "first_err rs = (case filter (\<lambda>r. r \<noteq> None) rs of [] \<Rightarrow> None | r # _ \<Rightarrow> r)"

definition Flush :: "(KRecord list \<Rightarrow> 'c \<Rightarrow> error option list \<times> 'c) \<Rightarrow> ChangelogProducer \<Rightarrow> int \<Rightarrow> StoreMutation list
    \<Rightarrow> 'c \<Rightarrow> error option \<times> 'c" where
  "Flush produce p part muts c =
     (if muts = [] then (None, c)
      else let outs = Encode p part muts;
               records = map (\<lambda>o'. \<lparr>k_Topic = out_Topic o', k_Partition = Value (out_Partition o'),
                 k_Offset = 0, k_Key = out_Key o', k_Value = out_Value o', k_Timestamp = 0\<rparr>) outs
           in case produce records c of (results, c') \<Rightarrow>
                (case first_err results of
                   None \<Rightarrow> (None, c')
                 | Some e \<Rightarrow> (Some (Wrap ''state.ChangelogProducer.Flush: produce'' [e]), c')))"

section \<open>Lemmas\<close>

lemma first_err_None: "first_err rs = None \<longleftrightarrow> (\<forall>r \<in> set rs. r = None)"
proof (induction rs)
  case Nil
  then show ?case by (simp add: first_err_def)
next
  case (Cons r rs)
  then show ?case by (cases r) (auto simp: first_err_def)
qed

lemma length_outRecordsToKgo [simp]: "length (outRecordsToKgo outs) = length outs"
  by (simp add: outRecordsToKgo_def)

text \<open>The records \<open>Flush\<close> produces are those the transactional path makes of \<open>Encode\<close>.\<close>

lemma flush_records:
  "map (\<lambda>o'. \<lparr>k_Topic = out_Topic o', k_Partition = Value (out_Partition o'),
      k_Offset = 0, k_Key = out_Key o', k_Value = out_Value o', k_Timestamp = 0\<rparr>) (Encode p part muts)
    = outRecordsToKgo (Encode p part muts)"
  by (simp add: outRecordsToKgo_def Encode_def NilOf_def)

text \<open>Known answers of Kafka's own hash (the values of its \<open>UtilsTest\<close>).\<close>

lemma murmur2_known_answers:
  "kafkaMurmur2 (bytes_of ''21'') = - 973932308"
  "kafkaMurmur2 (bytes_of ''foobar'') = - 790332482"
  "kafkaMurmur2 (bytes_of ''abc'') = 479470107"
  by code_simp+

section \<open>Properties\<close>

text \<open>
  C29: Records reach the partition they are meant for. A changelog record encoded for a task goes to
  exactly the partition of the task, whichever of the two partitioners routes it; a sink record,
  which is not pinned, goes to the partition that Kafka's own producers choose for its key,
  \<open>toPositive(murmur2(key)) mod n\<close>, which is one of the \<open>n\<close> partitions of the topic. The hypothesis on
  \<open>hasher\<close> is the documented behaviour of \<open>kgo.KafkaHasher\<close>.
\<close>

theorem records_routed:
  assumes hasher: "\<And>h key n. hasher h key n = uint (h key AND 0x7fffffff) mod n"
    and "0 < n" "0 \<le> p"
  shows "(\<forall>r \<in> set (outRecordsToKgo (Encode cp p muts)). mixedPartitionerFn hasher r n = p \<and> changelogMixedPartitionerFn r n = p)
    \<and> (\<forall>o' \<in> set outs. IsZero (out_Partition o') \<longrightarrow> (\<exists>r \<in> set (outRecordsToKgo outs). k_Topic r = out_Topic o'
        \<and> k_Key r = out_Key o' \<and> k_Value r = out_Value o'
        \<and> mixedPartitionerFn hasher r n = uint (kafkaMurmur2 (out_Key o') AND 0x7fffffff) mod n
        \<and> 0 \<le> mixedPartitionerFn hasher r n \<and> mixedPartitionerFn hasher r n < n))"
  using assms(2,3) by (auto simp: outRecordsToKgo_def Encode_def NilOf_def IsZero_def mixedPartitionerFn_def
      changelogMixedPartitionerFn_def hasher)

theorem records_routed_witness:
  "mixedPartitionerFn (\<lambda>h key n. uint (h key AND 0x7fffffff) mod n)
     (hd (outRecordsToKgo (Encode \<lparr>cp_topic = ''app-counts-changelog''\<rparr> 3 [\<lparr>m_Key = [1], m_Value = None\<rparr>]))) 8 = 3"
  using records_routed [of "\<lambda>h key n. uint (h key AND 0x7fffffff) mod n" 8 3
      "\<lparr>cp_topic = ''app-counts-changelog''\<rparr>" "[\<lparr>m_Key = [1], m_Value = None\<rparr>]" "[]"]
  by (simp add: Encode_def outRecordsToKgo_def)

end
