(* ===== verification/Restore.thy ===== *)
theory Restore
  imports Backend KafkaTypes
begin

text \<open>
  \<open>internal/runtime/restore.go\<close>: rebuilding a store from its changelog partition. The Kafka
  cluster, reached through the third-party client library, is an argument: the answers to the
  requests and the polls of the consumer, with the state of the caller's context at each of them.
\<close>

section \<open>The cluster as a parameter\<close>

text \<open>
  One fetch response as the client library hands it out: whether the client was closed, its
  error, the records, and the last stable offset of each partition in it.
\<close>

record Fetches =
  f_Closed :: bool
  f_Err :: "error option"
  f_Records :: "KRecord list"
  f_Partitions :: "(string \<times> int \<times> int) list"

text \<open>
  One iteration's encounter with the environment: \<open>ctx.Err()\<close> before the poll, what \<open>PollFetches\<close>
  returned, whether the poll context had exceeded its deadline, and \<open>ctx.Err()\<close> after the poll.
\<close>

record Poll =
  p_ctxBefore :: "error option"
  p_fetches :: Fetches
  p_deadline :: bool
  p_ctxAfter :: "error option"

text \<open>
  The cluster: creating a client (by the operation that needs it), \<open>ListOffsets\<close> for a topic,
  partition and timestamp (per topic the partitions with error code and offset), \<open>Metadata\<close> of a
  topic (per topic an error code and the partitions with their leaders), a raw \<open>Fetch\<close> sent to
  a broker (\<open>None\<close> for a response of an unexpected type; per partition error code, last stable
  offset, and whether there are record batches), the errors of the protocol's codes, and the
  polls of a consumer of one partition from an offset.
\<close>

record Cluster =
  c_NewClient :: "string \<Rightarrow> error option"
  c_ListOffsets :: "string \<Rightarrow> int \<Rightarrow> int \<Rightarrow> error + (string \<times> (int \<times> int \<times> int) list) list"
  c_Metadata :: "string \<Rightarrow> error + (string option \<times> int \<times> (int \<times> int) list) list"
  c_Fetch :: "int \<Rightarrow> string \<Rightarrow> int \<Rightarrow> int \<Rightarrow> error + (string \<times> (int \<times> int \<times> int \<times> bool) list) list option"
  c_ErrorForCode :: "int \<Rightarrow> error option"
  c_Polls :: "string \<Rightarrow> int \<Rightarrow> int \<Rightarrow> Poll list"

section \<open>Requests\<close>

text \<open>The nested loops over the response: the first entry of the partition in a response of the topic.\<close>

definition find_partition :: "string \<Rightarrow> int \<Rightarrow> (string \<times> (int \<times> 'x) list) list \<Rightarrow> 'x option" where
  "find_partition topic part resp =
     (case concat (map (\<lambda>(t, ps). if t \<noteq> topic then [] else filter (\<lambda>(p, _). p = part) ps) resp) of
        [] \<Rightarrow> None
      | (_, x) # _ \<Rightarrow> Some x)"

definition fetchOffset :: "Cluster \<Rightarrow> string \<Rightarrow> int \<Rightarrow> int \<Rightarrow> string \<Rightarrow> error + int" where
  "fetchOffset cl topic part timestamp operation =
     (case c_NewClient cl operation of
        Some err \<Rightarrow> Inl (Wrap (operation @ '': create kgo client'') [err])
      | None \<Rightarrow> (case c_ListOffsets cl topic part timestamp of
          Inl err \<Rightarrow> Inl (Wrap (operation @ '': ListOffsets request'') [err])
        | Inr resp \<Rightarrow> (case find_partition topic part resp of
            None \<Rightarrow> Inl (Err (operation @ '': not found in response''))
          | Some (code, offset) \<Rightarrow> (case c_ErrorForCode cl code of
              Some err \<Rightarrow> Inl (Wrap (operation @ '': topic partition'') [err])
            | None \<Rightarrow> if offset < 0 then Inr 0 else Inr offset))))"

definition fetchHighWatermark :: "Cluster \<Rightarrow> string \<Rightarrow> int \<Rightarrow> error + int" where
  "fetchHighWatermark cl topic part = fetchOffset cl topic part (-1) ''fetchHighWatermark''"

definition fetchEarliestOffset :: "Cluster \<Rightarrow> string \<Rightarrow> int \<Rightarrow> error + int" where
  "fetchEarliestOffset cl topic part = fetchOffset cl topic part (-2) ''fetchEarliestOffset''"

fun leader_scan :: "Cluster \<Rightarrow> string \<Rightarrow> int \<Rightarrow> (string option \<times> int \<times> (int \<times> int) list) list \<Rightarrow> error + int" where
  "leader_scan cl topic part [] = Inl (Err ''metadata topic: partition not found'')"
| "leader_scan cl topic part ((t, code, ps) # rest) =
     (if t \<noteq> Some topic then leader_scan cl topic part rest
      else case c_ErrorForCode cl code of
        Some err \<Rightarrow> Inl (Wrap ''metadata topic'' [err])
      | None \<Rightarrow> (case filter (\<lambda>(p, _). p = part) ps of
          (_, leader) # _ \<Rightarrow> Inr leader
        | [] \<Rightarrow> leader_scan cl topic part rest))"

definition fetchPartitionLeader :: "Cluster \<Rightarrow> string \<Rightarrow> int \<Rightarrow> error + int" where
  "fetchPartitionLeader cl topic part =
     (case c_Metadata cl topic of
        Inl err \<Rightarrow> Inl (Wrap ''metadata request'' [err])
      | Inr resp \<Rightarrow> leader_scan cl topic part resp)"

definition fetchReadCommittedProbe :: "Cluster \<Rightarrow> string \<Rightarrow> int \<Rightarrow> int \<Rightarrow> error + int \<times> bool" where
  "fetchReadCommittedProbe cl topic part startOffset =
     (case c_NewClient cl ''probe'' of
        Some err \<Rightarrow> Inl (Wrap ''create kgo client'' [err])
      | None \<Rightarrow> (case fetchPartitionLeader cl topic part of
          Inl err \<Rightarrow> Inl err
        | Inr leader \<Rightarrow> (case c_Fetch cl leader topic part startOffset of
            Inl err \<Rightarrow> Inl (Wrap ''fetch request'' [err])
          | Inr None \<Rightarrow> Inl (Err ''unexpected response type'')
          | Inr (Some resp) \<Rightarrow> (case find_partition topic part resp of
              None \<Rightarrow> Inl (Err ''topic partition not found in response'')
            | Some (code, lastStableOffset, hasBatches) \<Rightarrow> (case c_ErrorForCode cl code of
                Some err \<Rightarrow> Inl (Wrap ''topic partition'' [err])
              | None \<Rightarrow> Inr (lastStableOffset, hasBatches))))))"

section \<open>The consume loop\<close>

record RestoreState =
  rs_lastApplied :: int
  rs_mutations :: "StoreMutation list"
  rs_lsoReachedHW :: bool

text \<open>An empty value counts as a tombstone.\<close>

definition record_mutation :: "KRecord \<Rightarrow> StoreMutation" where
  "record_mutation r =
     \<lparr>m_Key = k_Key r, m_Value = (case k_Value r of Some (b # bs) \<Rightarrow> Some (b # bs) | _ \<Rightarrow> None)\<rparr>"

definition apply_record :: "KRecord \<Rightarrow> RestoreState \<Rightarrow> RestoreState" where
  "apply_record r st = st\<lparr>rs_mutations := rs_mutations st @ [record_mutation r], rs_lastApplied := k_Offset r\<rparr>"

definition applyFetches :: "string \<Rightarrow> int \<Rightarrow> int \<Rightarrow> Fetches \<Rightarrow> RestoreState \<Rightarrow> error + RestoreState" where
  "applyFetches topic part hw fs st =
     (case f_Err fs of
        Some err \<Rightarrow> Inl (Wrap ''state.RestoreFromChangelog: poll fetches'' [err])
      | None \<Rightarrow>
        let st = fold apply_record (f_Records fs) st in
        Inr (if list_ex (\<lambda>(t, p, lso). t = topic \<and> p = part \<and> lso \<ge> hw) (f_Partitions fs)
             then st\<lparr>rs_lsoReachedHW := True\<rparr> else st))"

text \<open>\<open>None\<close>: the polls so far did not end the loop, and the next one has not returned.\<close>

fun restore_loop :: "string \<Rightarrow> int \<Rightarrow> int \<Rightarrow> Poll list \<Rightarrow> RestoreState \<Rightarrow> (error + RestoreState) option" where
  "restore_loop topic part hw [] st = None"
| "restore_loop topic part hw (p # ps) st =
     (case p_ctxBefore p of
        Some err \<Rightarrow> Some (Inl (Wrap ''state.RestoreFromChangelog: context done during consume'' [err]))
      | None \<Rightarrow>
        if rs_lsoReachedHW st \<and> p_deadline p
        then (case p_ctxAfter p of
                Some err \<Rightarrow> Some (Inl (Wrap ''state.RestoreFromChangelog: context done during consume'' [err]))
              | None \<Rightarrow> Some (Inr st))
        else if f_Closed (p_fetches p) then Some (Inr st)
        else (case applyFetches topic part hw (p_fetches p) st of
                Inl err \<Rightarrow> Some (Inl err)
              | Inr st' \<Rightarrow> if rs_lastApplied st' \<ge> i64 (hw - 1) then Some (Inr st')
                          else restore_loop topic part hw ps st'))"

definition RestoreFromChangelog :: "Cluster \<Rightarrow> string list \<Rightarrow> string \<Rightarrow> int \<Rightarrow> int \<Rightarrow> 'b StoreBackend \<Rightarrow> string
    \<Rightarrow> 'b \<Rightarrow> (error + int) option \<times> 'b" where
  "RestoreFromChangelog cl brokers topic part checkpointOffset be storeName b =
     (if brokers = [] then (Some (Inl (Err ''state.RestoreFromChangelog: brokers must not be empty'')), b)
      else if topic = '''' then (Some (Inl (Err ''state.RestoreFromChangelog: changelogTopic must not be empty'')), b)
      else if storeName = '''' then (Some (Inl (Err ''state.RestoreFromChangelog: storeName must not be empty'')), b)
      else case fetchHighWatermark cl topic part of
        Inl err \<Rightarrow> (Some (Inl (Wrap ''state.RestoreFromChangelog: fetch high-watermark'' [err])), b)
      | Inr hw \<Rightarrow> (case fetchEarliestOffset cl topic part of
        Inl err \<Rightarrow> (Some (Inl (Wrap ''state.RestoreFromChangelog: fetch earliest offset'' [err])), b)
      | Inr earliest \<Rightarrow>
        let startOffset = i64 (checkpointOffset + 1);
            startOffset = (if startOffset < earliest then earliest else startOffset)
        in if hw = 0 \<or> startOffset \<ge> hw then (Some (Inr hw), b)
           else case fetchReadCommittedProbe cl topic part startOffset of
             Inl err \<Rightarrow> (Some (Inl (Wrap ''state.RestoreFromChangelog: stable-offset probe'' [err])), b)
           | Inr (lso, _) \<Rightarrow> (case c_NewClient cl ''consumer'' of
             Some err \<Rightarrow> (Some (Inl (Wrap ''state.RestoreFromChangelog: create consumer'' [err])), b)
           | None \<Rightarrow>
             (case restore_loop topic part hw (c_Polls cl topic part startOffset)
                     \<lparr>rs_lastApplied = -1, rs_mutations = [], rs_lsoReachedHW = (lso \<ge> hw)\<rparr> of
                None \<Rightarrow> (None, b)
              | Some (Inl err) \<Rightarrow> (Some (Inl err), b)
              | Some (Inr st) \<Rightarrow>
                if rs_lastApplied st < 0
                then (if rs_lsoReachedHW st
                      then (case be_Restore be storeName [] (i64 (hw - 1)) b of
                              (Some err, b') \<Rightarrow> (Some (Inl (Wrap ''state.RestoreFromChangelog: checkpoint resolved empty range'' [err])), b')
                            | (None, b') \<Rightarrow> (Some (Inr hw), b'))
                      else (Some (Inr hw), b))
                else (case be_Restore be storeName (rs_mutations st) (rs_lastApplied st) b of
                        (Some err, b') \<Rightarrow> (Some (Inl (Wrap ''state.RestoreFromChangelog: restore backend'' [err])), b')
                      | (None, b') \<Rightarrow> (Some (Inr hw), b'))))))"

section \<open>The loop on a healthy consumer\<close>

definition healthy :: "Poll \<Rightarrow> bool" where
  "healthy p \<longleftrightarrow> p_ctxBefore p = None \<and> \<not> p_deadline p \<and> \<not> f_Closed (p_fetches p) \<and> f_Err (p_fetches p) = None"

text \<open>A poll that waited in vain until the catch-up timeout.\<close>

definition timed_out :: "Poll \<Rightarrow> bool" where
  "timed_out p \<longleftrightarrow> p_ctxBefore p = None \<and> p_deadline p \<and> p_ctxAfter p = None"

definition delivered :: "Poll list \<Rightarrow> KRecord list" where
  "delivered ps = concat (map (\<lambda>p. f_Records (p_fetches p)) ps)"

lemma delivered_simps [simp]:
  "delivered [] = []" "delivered (p # ps) = f_Records (p_fetches p) @ delivered ps"
  by (simp_all add: delivered_def)

lemma fold_apply_record:
  "fold apply_record rs st = st\<lparr>rs_mutations := rs_mutations st @ map record_mutation rs,
     rs_lastApplied := (if rs = [] then rs_lastApplied st else k_Offset (last rs))\<rparr>"
  by (induction rs arbitrary: st) (simp_all add: apply_record_def)

lemma healthy_step:
  assumes "healthy p"
  obtains lso where "rs_lsoReachedHW st \<longrightarrow> lso"
    and "\<forall>ps. restore_loop topic part hw (p # ps) st =
      (let st' = \<lparr>rs_lastApplied = (if f_Records (p_fetches p) = [] then rs_lastApplied st else k_Offset (last (f_Records (p_fetches p)))),
          rs_mutations = rs_mutations st @ map record_mutation (f_Records (p_fetches p)), rs_lsoReachedHW = lso\<rparr>
       in if rs_lastApplied st' \<ge> i64 (hw - 1) then Some (Inr st') else restore_loop topic part hw ps st')"
proof -
  define lso where "lso = (rs_lsoReachedHW st \<or> list_ex (\<lambda>(t, p, lso). t = topic \<and> p = part \<and> lso \<ge> hw) (f_Partitions (p_fetches p)))"
  have "applyFetches topic part hw (p_fetches p) st = Inr \<lparr>
      rs_lastApplied = (if f_Records (p_fetches p) = [] then rs_lastApplied st else k_Offset (last (f_Records (p_fetches p)))),
      rs_mutations = rs_mutations st @ map record_mutation (f_Records (p_fetches p)), rs_lsoReachedHW = lso\<rparr>"
    using assms by (cases st) (simp add: applyFetches_def healthy_def fold_apply_record lso_def Let_def)
  then show ?thesis
    using assms by (intro that [of lso]) (simp_all add: healthy_def Let_def lso_def)
qed

text \<open>The loop ends when the record below the high watermark has been delivered.\<close>

lemma loop_complete:
  assumes "\<forall>p \<in> set ps. healthy p" "sorted_wrt (<) (map k_Offset (delivered ps))"
    and "delivered ps \<noteq> []" "k_Offset (last (delivered ps)) = i64 (hw - 1)" "rs_lastApplied st < i64 (hw - 1)"
  shows "\<exists>lso. restore_loop topic part hw (ps @ qs) st = Some (Inr \<lparr>rs_lastApplied = i64 (hw - 1),
    rs_mutations = rs_mutations st @ map record_mutation (delivered ps), rs_lsoReachedHW = lso\<rparr>)"
  using assms
proof (induction ps arbitrary: st)
  case (Cons p ps)
  let ?rs = "f_Records (p_fetches p)"
  let ?l = "if ?rs = [] then rs_lastApplied st else k_Offset (last ?rs)"
  have "healthy p" using Cons.prems by simp
  then obtain lso where lso: "rs_lsoReachedHW st \<longrightarrow> lso" and step: "\<forall>ps. restore_loop topic part hw (p # ps) st =
      (let st' = \<lparr>rs_lastApplied = ?l, rs_mutations = rs_mutations st @ map record_mutation ?rs, rs_lsoReachedHW = lso\<rparr>
       in if rs_lastApplied st' \<ge> i64 (hw - 1) then Some (Inr st') else restore_loop topic part hw ps st')"
    by (rule healthy_step [where st = st and topic = topic and part = part and hw = hw])
  show ?case
  proof (cases "delivered ps = []")
    case True
    with Cons.prems step show ?thesis by simp
  next
    case False
    then have "last (delivered ps) \<in> set (delivered ps)" by simp
    with Cons.prems(2) have "?rs \<noteq> [] \<Longrightarrow> k_Offset (last ?rs) < k_Offset (last (delivered ps))"
      by (simp add: sorted_wrt_append)
    then have "?l < i64 (hw - 1)" using Cons.prems False by auto
    with Cons.IH [of "\<lparr>rs_lastApplied = ?l, rs_mutations = rs_mutations st @ map record_mutation ?rs, rs_lsoReachedHW = lso\<rparr>"]
      Cons.prems False step show ?thesis by (simp add: sorted_wrt_append)
  qed
qed simp

text \<open>When the tail of the partition is aborted, the loop ends with the first poll that times out.\<close>

lemma loop_tail:
  assumes "\<forall>p \<in> set ps. healthy p" "\<forall>r \<in> set (delivered ps). k_Offset r < i64 (hw - 1)"
    and "timed_out q" "rs_lsoReachedHW st" "rs_lastApplied st < i64 (hw - 1)"
  shows "restore_loop topic part hw (ps @ q # qs) st = Some (Inr
    \<lparr>rs_lastApplied = (if delivered ps = [] then rs_lastApplied st else k_Offset (last (delivered ps))),
     rs_mutations = rs_mutations st @ map record_mutation (delivered ps), rs_lsoReachedHW = True\<rparr>)"
  using assms
proof (induction ps arbitrary: st)
  case Nil
  then show ?case by (cases st) (simp add: timed_out_def)
next
  case (Cons p ps)
  let ?rs = "f_Records (p_fetches p)"
  let ?l = "if ?rs = [] then rs_lastApplied st else k_Offset (last ?rs)"
  have "healthy p" using Cons.prems by simp
  then obtain lso where lso: "rs_lsoReachedHW st \<longrightarrow> lso" and step: "\<forall>ps. restore_loop topic part hw (p # ps) st =
      (let st' = \<lparr>rs_lastApplied = ?l, rs_mutations = rs_mutations st @ map record_mutation ?rs, rs_lsoReachedHW = lso\<rparr>
       in if rs_lastApplied st' \<ge> i64 (hw - 1) then Some (Inr st') else restore_loop topic part hw ps st')"
    by (rule healthy_step [where st = st and topic = topic and part = part and hw = hw])
  have "?l < i64 (hw - 1)" using Cons.prems by auto
  with Cons.IH [of "\<lparr>rs_lastApplied = ?l, rs_mutations = rs_mutations st @ map record_mutation ?rs, rs_lsoReachedHW = lso\<rparr>"]
    Cons.prems lso step show ?case by simp
qed

lemma fetchOffset_nonneg: "fetchOffset cl topic part ts msg = Inr off \<Longrightarrow> 0 \<le> off"
  by (auto simp: fetchOffset_def split: option.splits sum.splits if_splits prod.splits)

text \<open>What a consumer that serves the partition from \<open>start\<close> has delivered when the loop may end.\<close>

definition serves :: "Cluster \<Rightarrow> string \<Rightarrow> int \<Rightarrow> int \<Rightarrow> int \<Rightarrow> KRecord list \<Rightarrow> bool" where
  "serves cl topic part start hw recs \<longleftrightarrow> (\<exists>lso x ps qs.
     fetchReadCommittedProbe cl topic part start = Inr (lso, x) \<and> c_NewClient cl ''consumer'' = None
     \<and> c_Polls cl topic part start = ps @ qs \<and> (\<forall>p \<in> set ps. healthy p) \<and> delivered ps = recs
     \<and> sorted_wrt (<) (map k_Offset recs) \<and> (\<forall>r \<in> set recs. 0 \<le> k_Offset r \<and> k_Offset r < hw)
     \<and> (recs \<noteq> [] \<and> k_Offset (last recs) = hw - 1 \<or> lso \<ge> hw \<and> qs \<noteq> [] \<and> timed_out (hd qs)))"

lemma serves_loop:
  assumes "serves cl topic part start hw recs" "0 < hw" "is_i64 hw"
  obtains lso x l where "fetchReadCommittedProbe cl topic part start = Inr (lso, x)" "c_NewClient cl ''consumer'' = None"
    "restore_loop topic part hw (c_Polls cl topic part start) \<lparr>rs_lastApplied = -1, rs_mutations = [], rs_lsoReachedHW = (lso \<ge> hw)\<rparr>
      = Some (Inr \<lparr>rs_lastApplied = (if recs = [] then -1 else k_Offset (last recs)), rs_mutations = map record_mutation recs, rs_lsoReachedHW = l\<rparr>)"
    "recs = [] \<longrightarrow> l"
proof -
  obtain lso x ps qs where a: "fetchReadCommittedProbe cl topic part start = Inr (lso, x)" "c_NewClient cl ''consumer'' = None"
      "c_Polls cl topic part start = ps @ qs" "\<forall>p \<in> set ps. healthy p" "delivered ps = recs"
      "sorted_wrt (<) (map k_Offset recs)" "\<forall>r \<in> set recs. 0 \<le> k_Offset r \<and> k_Offset r < hw"
      "recs \<noteq> [] \<and> k_Offset (last recs) = hw - 1 \<or> lso \<ge> hw \<and> qs \<noteq> [] \<and> timed_out (hd qs)"
    using assms(1) unfolding serves_def by blast
  have hw: "i64 (hw - 1) = hw - 1"
    using assms(2,3) by (intro i64_id) (simp add: is_i64_def MinInt64_def)
  have sd: "sorted_wrt (<) (map k_Offset (delivered ps))" using a(5,6) by simp
  let ?st = "\<lparr>rs_lastApplied = -1, rs_mutations = [], rs_lsoReachedHW = (lso \<ge> hw)\<rparr>"
  show ?thesis
  proof (cases "recs \<noteq> [] \<and> k_Offset (last recs) = hw - 1")
    case True
    then show ?thesis
      using loop_complete [OF a(4) sd, of hw ?st topic part qs] a(1-3,5) assms(2) hw that by auto
  next
    case False
    with a(8) obtain q qs' where q: "lso \<ge> hw" "qs = q # qs'" "timed_out q" by (cases qs) auto
    have "\<forall>r \<in> set recs. k_Offset r < hw - 1"
    proof
      fix r assume r: "r \<in> set recs"
      then have ne: "recs \<noteq> []" by auto
      then have "k_Offset (last recs) < hw - 1" using bspec [OF a(7) last_in_set [OF ne]] False ne by simp
      moreover have "k_Offset r \<le> k_Offset (last recs)"
      proof -
        obtain us z where us: "recs = us @ [z]" using ne by (cases recs rule: rev_cases) simp_all
        show ?thesis using a(6) r unfolding us by (auto simp: sorted_wrt_append)
      qed
      ultimately show "k_Offset r < hw - 1" by simp
    qed
    then have d: "\<forall>r \<in> set (delivered ps). k_Offset r < i64 (hw - 1)" using a(5) hw by simp
    show ?thesis
      using loop_tail [OF a(4) d q(3), of ?st topic part qs'] a(1-3,5) q assms(2) hw that by auto
  qed
qed

lemma restore_replays_changelog':
  assumes "state_backend be raw ckpt stime okb" "okb b" "brokers \<noteq> []" "topic \<noteq> ''''" "n \<noteq> ''''"
    and "fetchHighWatermark cl topic part = Inr hw" "fetchEarliestOffset cl topic part = Inr earliest" "is_i64 hw"
    and "-1 \<le> cp" "cp < MaxInt64" "start = max earliest (cp + 1)"
    and "start < hw \<longrightarrow> serves cl topic part start hw recs" "\<forall>r \<in> set recs. data_key (k_Key r)"
  shows "\<exists>b'. RestoreFromChangelog cl brokers topic part cp be n b = (Some (Inr hw), b') \<and> okb b' \<and> stime b' = stime b
    \<and> (start < hw \<longrightarrow> raw b' = fold mutate (map record_mutation recs) (raw b)
          \<and> ckpt b' = (ckpt b)(n \<mapsto> (if recs = [] then hw - 1 else k_Offset (last recs))))
    \<and> (hw \<le> start \<longrightarrow> b' = b)"
proof (cases "start < hw")
  case False
  have "i64 (cp + 1) = cp + 1" using assms(9,10) by (intro i64_id) (simp add: is_i64_def MinInt64_def)
  then have "RestoreFromChangelog cl brokers topic part cp be n b = (Some (Inr hw), b)"
    using False assms(3-7,11) by (auto simp: RestoreFromChangelog_def Let_def max_def)
  then show ?thesis using False assms(2) by simp
next
  case True
  have cp: "i64 (cp + 1) = cp + 1" using assms(9,10) by (intro i64_id) (simp add: is_i64_def MinInt64_def)
  have "0 \<le> earliest" using assms(7) fetchOffset_nonneg unfolding fetchEarliestOffset_def by blast
  with True assms(11) have hw: "0 < hw" by simp
  have hw1: "i64 (hw - 1) = hw - 1" "is_i64 (hw - 1)"
    using hw assms(8) by (simp_all add: i64_id is_i64_def MinInt64_def)
  have sv: "serves cl topic part start hw recs" using True assms(12) by simp
  obtain lso x l where a: "fetchReadCommittedProbe cl topic part start = Inr (lso, x)" "c_NewClient cl ''consumer'' = None"
      "restore_loop topic part hw (c_Polls cl topic part start) \<lparr>rs_lastApplied = -1, rs_mutations = [], rs_lsoReachedHW = (lso \<ge> hw)\<rparr>
        = Some (Inr \<lparr>rs_lastApplied = (if recs = [] then -1 else k_Offset (last recs)), rs_mutations = map record_mutation recs, rs_lsoReachedHW = l\<rparr>)"
      "recs = [] \<longrightarrow> l"
    by (rule serves_loop [OF sv hw assms(8)])
  have off: "recs \<noteq> [] \<Longrightarrow> 0 \<le> k_Offset (last recs) \<and> k_Offset (last recs) < hw"
    using sv unfolding serves_def by (metis last_in_set)
  define cp' where "cp' = (if recs = [] then hw - 1 else k_Offset (last recs))"
  obtain e b' where r: "be_Restore be n (map record_mutation recs) cp' b = (e, b')" by fastforce
  have cp': "0 \<le> cp'" "is_i64 cp'" using off hw hw1 assms(8) by (auto simp: cp'_def is_i64_def MinInt64_def)
  have "\<forall>m \<in> set (map record_mutation recs). data_key (m_Key m)" using assms(13) by (auto simp: record_mutation_def)
  from state_backend.restore_law [OF assms(1,2) cp'(2) this r] cp'
  have law: "e = None \<and> okb b' \<and> raw b' = fold mutate (map record_mutation recs) (raw b) \<and> ckpt b' = (ckpt b)(n \<mapsto> cp') \<and> stime b' = stime b"
    by simp
  have st: "(if i64 (cp + 1) < earliest then earliest else i64 (cp + 1)) = start"
    using assms(11) by (simp add: cp max_def)
  have "RestoreFromChangelog cl brokers topic part cp be n b = (Some (Inr hw), b')"
    unfolding RestoreFromChangelog_def assms(6,7) sum.case Let_def st
    using assms(3-5) True hw hw1(1) a off r law by (cases "recs = []") (auto simp: cp'_def)
  then show ?thesis using law True by (simp add: cp'_def)
qed

section \<open>Properties\<close>

text \<open>
  C11: Restoring replays exactly the committed changelog. When the local checkpoint is \<open>cp\<close>, the
  changelog partition ends at \<open>hw\<close>, and a consumer serves the committed records \<open>recs\<close> from the first
  offset that is not yet applied (either up to \<open>hw - 1\<close>, or with an aborted tail after which the
  bounded poll times out), \<open>RestoreFromChangelog\<close> returns \<open>hw\<close>: it does not hang, the back end holds
  what it held before with the records applied in order, an empty value deleting its key, and the
  store's checkpoint is the offset of the last record (\<open>hw - 1\<close> when everything was aborted).
  A partition that ends at the checkpoint leaves the back end as it is, and the stream-time is
  never touched.
\<close>

theorem restore_replays_changelog:
  assumes "state_backend be raw ckpt stime okb" "okb b" "brokers \<noteq> []" "topic \<noteq> ''''" "n \<noteq> ''''"
    and "fetchHighWatermark cl topic part = Inr hw" "fetchEarliestOffset cl topic part = Inr earliest" "is_i64 hw"
    and "-1 \<le> cp" "cp < MaxInt64" "start = max earliest (cp + 1)"
    and "start < hw \<longrightarrow> serves cl topic part start hw recs" "\<forall>r \<in> set recs. data_key (k_Key r)"
  shows "\<exists>b'. RestoreFromChangelog cl brokers topic part cp be n b = (Some (Inr hw), b') \<and> okb b' \<and> stime b' = stime b
    \<and> (start < hw \<longrightarrow> raw b' = fold mutate (map record_mutation recs) (raw b)
          \<and> ckpt b' = (ckpt b)(n \<mapsto> (if recs = [] then hw - 1 else k_Offset (last recs))))
    \<and> (hw \<le> start \<longrightarrow> b' = b)"
  using assms by (rule restore_replays_changelog')

text \<open>
  A checkpoint of \<open>MaxInt64\<close> replays the whole changelog. \<open>WriteCheckpoints\<close> and \<open>closeTask\<close> pass the
  largest offset to learn the high watermark without restoring anything, but the increment wraps
  around to the smallest \<open>int64\<close>: the call does exactly what it does with the checkpoint \<open>-1\<close>, a
  restore from the beginning of the partition.
\<close>

theorem max_checkpoint_replays_all:
  "RestoreFromChangelog cl brokers topic part MaxInt64 be n b = RestoreFromChangelog cl brokers topic part (-1) be n b"
proof (cases "fetchEarliestOffset cl topic part")
  case (Inl err)
  then show ?thesis by (simp add: RestoreFromChangelog_def split: sum.split)
next
  case (Inr e)
  then have "0 \<le> e" unfolding fetchEarliestOffset_def by (rule fetchOffset_nonneg)
  then have start: "(if i64 (MaxInt64 + 1) < e then e else i64 (MaxInt64 + 1)) = (if i64 (-1 + 1) < e then e else i64 (-1 + 1))"
    by (simp add: i64_def MaxInt64_def)
  show ?thesis
    unfolding RestoreFromChangelog_def Inr sum.case Let_def start ..
qed

text \<open>
  C12: A store survives the loss of its disk. Whatever sequence of operations a Pebble store with a
  changelog has executed since it was empty, the mutations it hands out, encoded and produced to
  its changelog topic, and read back by \<open>RestoreFromChangelog\<close> into any back end in which the store
  is empty, give that back end exactly the contents of the store, provided no mutation puts an
  empty value: \<open>RestoreFromChangelog\<close> takes a record with an empty value for a deletion.
\<close>

theorem changelog_topic_rebuilds:
  assumes "pebble_db D pview" "store_name_ok n" "go_get (pb_stores p) n = Some s" "pkv_ok n s" "ps_collector s = Some []"
    and "peb_view pview n p = Map.empty"
    and "DrainMutations (peb_store D n) (snd (run_ops (peb_store D n) xs p)) = (muts, p')"
    and "\<forall>m \<in> set muts. m_Value m \<noteq> Some []"
    and "map (\<lambda>r. (k_Key r, k_Value r)) recs = map (\<lambda>r. (k_Key r, k_Value r)) (outRecordsToKgo (Encode cp part muts))"
    and "state_backend be raw ckpt stime okb" "okb b" "brokers \<noteq> []" "cp_topic cp \<noteq> []" "\<forall>k. raw b (name_prefix n @ k) = None"
    and "fetchHighWatermark cl (cp_topic cp) part = Inr hw" "fetchEarliestOffset cl (cp_topic cp) part = Inr 0" "is_i64 hw" "0 < hw"
    and "serves cl (cp_topic cp) part 0 hw recs"
  shows "\<exists>b'. RestoreFromChangelog cl brokers (cp_topic cp) part (-1) be n b = (Some (Inr hw), b')
    \<and> (\<forall>k. raw b' (name_prefix n @ k) = peb_view pview n (snd (run_ops (peb_store D n) xs p)) k)"
proof -
  let ?p1 = "snd (run_ops (peb_store D n) xs p)"
  have "logged pview n (pview (pb_db p)) p"
    using assms(3-5) unfolding logged_def by (intro exI [of _ s] exI [of _ "[]"]) simp
  from pebble_db.drain_logged [OF assms(1) pebble_db.logged_ops [OF assms(1) this] assms(7)]
  have d: "pview (pb_db ?p1) = fold mutate muts (pview (pb_db p))" "\<forall>mu \<in> set muts. prefix (name_prefix n) (m_Key mu)"
    by (simp_all add: fold_apply_batch_op)
  have recs: "map (\<lambda>r. (k_Key r, k_Value r)) recs = map (\<lambda>m. (m_Key m, m_Value m)) muts"
    using assms(9) by (simp add: outRecordsToKgo_def Encode_def comp_def)
  have muts: "map record_mutation recs = muts"
    using recs assms(8)
  proof (induction recs arbitrary: muts)
    case (Cons r recs)
    then obtain m ms where "muts = m # ms" by (cases muts) simp_all
    with Cons show ?case by (auto simp: record_mutation_def split: option.split list.split)
  qed simp
  have keys: "\<forall>r \<in> set recs. data_key (k_Key r)"
  proof
    fix r assume "r \<in> set recs"
    then have "record_mutation r \<in> set muts" using muts by (metis image_eqI list.set_map)
    with d(2) have "prefix (name_prefix n) (k_Key r)" by (force simp: record_mutation_def)
    then show "data_key (k_Key r)" using data_key_store [OF assms(2)] by (auto simp: prefix_def)
  qed
  have n: "n \<noteq> []" using assms(2) by (simp add: store_name_ok_def)
  obtain b' where b': "RestoreFromChangelog cl brokers (cp_topic cp) part (-1) be n b = (Some (Inr hw), b')"
      "raw b' = fold mutate muts (raw b)"
    using restore_replays_changelog' [OF assms(10-13) n assms(15,16,17), of "-1" 0 recs] assms(18,19) keys muts
    by (auto simp: MaxInt64_def)
  have "raw b' (name_prefix n @ k) = peb_view pview n ?p1 k" for k
  proof -
    have "raw b (name_prefix n @ k) = pview (pb_db p) (name_prefix n @ k)"
      using assms(6,14) by (metis peb_view_def)
    then show ?thesis unfolding b'(2) peb_view_def d(1) by (rule fold_mutate_cong)
  qed
  then show ?thesis using b'(1) by blast
qed

text \<open>A cluster with one changelog partition of \<open>hw\<close> committed records, served by the given polls.\<close>

definition one_partition :: "int \<Rightarrow> Poll list \<Rightarrow> Cluster" where
  "one_partition hw polls =
     \<lparr>c_NewClient = (\<lambda>_. None), c_ListOffsets = (\<lambda>t p ts. Inr [(t, [(p, 0, if ts = -1 then hw else 0)])]),
      c_Metadata = (\<lambda>t. Inr [(Some t, 0, [(0, 1)])]), c_Fetch = (\<lambda>l t p off. Inr (Some [(t, [(p, 0, hw, True)])])),
      c_ErrorForCode = (\<lambda>c. if c = 0 then None else Some (Err ''kafka'')), c_Polls = (\<lambda>t p off. polls)\<rparr>"

definition log_record :: "int \<Rightarrow> bytes \<Rightarrow> bytes option \<Rightarrow> KRecord" where
  "log_record off key v = \<lparr>k_Topic = ''log'', k_Partition = 0, k_Offset = off, k_Key = key, k_Value = v, k_Timestamp = 0\<rparr>"

definition poll_of :: "KRecord list \<Rightarrow> Poll" where
  "poll_of recs = \<lparr>p_ctxBefore = None, p_fetches = \<lparr>f_Closed = False, f_Err = None, f_Records = recs, f_Partitions = []\<rparr>,
     p_deadline = False, p_ctxAfter = None\<rparr>"

lemma one_partition_answers:
  "fetchHighWatermark (one_partition hw polls) t p = (if hw < 0 then Inr 0 else Inr hw)"
  "fetchEarliestOffset (one_partition hw polls) t p = Inr 0"
  "fetchReadCommittedProbe (one_partition hw polls) t 0 off = Inr (hw, True)"
  by (simp_all add: one_partition_def fetchHighWatermark_def fetchEarliestOffset_def fetchOffset_def find_partition_def
      fetchReadCommittedProbe_def fetchPartitionLeader_def)

lemma one_partition_serves:
  assumes "recs \<noteq> []" "sorted_wrt (<) (map k_Offset recs)" "\<forall>r \<in> set recs. 0 \<le> k_Offset r \<and> k_Offset r < hw" "k_Offset (last recs) = hw - 1"
  shows "serves (one_partition hw [poll_of recs]) t 0 off hw recs"
  unfolding serves_def one_partition_answers
  using assms by (intro exI [of _ hw] exI [of _ True] exI [of _ "[poll_of recs]"] exI [of _ "[]"])
    (simp add: one_partition_def poll_of_def healthy_def)

text \<open>
  An empty value does not survive a restore. A store that holds an empty value under a key logs
  it as a record with an empty, non-nil value; the restore reads a record without value bytes as
  a deletion, so the restored store does not hold the key.
\<close>

theorem empty_value_lost_on_restore:
  "peb_view map_of ''a'' (snd (run_ops (peb_store alist_pebble ''a'') [OpPut [1] []] demo_pebble)) [1] = Some []
    \<and> map (\<lambda>m. (m_Key m, m_Value m)) (fst (DrainMutations (peb_store alist_pebble ''a'')
          (snd (run_ops (peb_store alist_pebble ''a'') [OpPut [1] []] demo_pebble)))) = [(name_prefix ''a'' @ [1], Some [])]
    \<and> (case RestoreFromChangelog (one_partition 1 [poll_of [log_record 0 (name_prefix ''a'' @ [1]) (Some [])]]) [''broker''] ''log'' 0 (-1)
            (peb_backend (\<lambda>p. (None, p)) alist_pebble) ''a'' demo_pebble of
          (r, b') \<Rightarrow> r = Some (Inr 1) \<and> peb_view map_of ''a'' b' [1] = None)"
  by code_simp

section \<open>Witnesses\<close>

theorem restore_replays_changelog_witness:
  "\<exists>b'. RestoreFromChangelog (one_partition 2 [poll_of [log_record 0 [1] (Some [5]), log_record 1 [2] (Some [6])]]) [''broker''] ''log'' 0 (-1)
      mem_backend ''s'' two_stores = (Some (Inr 2), b') \<and> mem_raw b' [2] = Some [6] \<and> mem_ckpt b' ''s'' = Some 1"
proof -
  let ?recs = "[log_record 0 [1] (Some [5]), log_record 1 [2] (Some [6])]"
  have "serves (one_partition 2 [poll_of ?recs]) ''log'' 0 0 2 ?recs"
    by (rule one_partition_serves) (simp_all add: log_record_def)
  moreover have "mem_open two_stores" using two_stores_ok(1) by (simp add: mem_open_def mem_ok_def)
  moreover have "\<forall>r \<in> set ?recs. data_key (k_Key r)" by (simp add: log_record_def data_key_def)
  ultimately show ?thesis
    using restore_replays_changelog [OF mem_be.state_backend_axioms, of two_stores "[''broker'']" "''log''" "''s''"
        "one_partition 2 [poll_of ?recs]" 0 2 0 "-1" 0 ?recs]
    by (auto simp: one_partition_answers is_i64_def MinInt64_def MaxInt64_def log_record_def record_mutation_def mutate_def)
qed

theorem changelog_topic_rebuilds_witness:
  "\<exists>b'. RestoreFromChangelog (one_partition 2 [poll_of [log_record 0 (name_prefix ''a'' @ [1]) (Some [8]), log_record 1 (name_prefix ''a'' @ [2]) None]])
        [''broker''] ''log'' 0 (-1) mem_backend ''a'' two_stores = (Some (Inr 2), b')
    \<and> (\<forall>k. mem_raw b' (name_prefix ''a'' @ k)
         = peb_view map_of ''a'' (snd (run_ops (peb_store alist_pebble ''a'') [OpPut [1] [8], OpDelete [2]] demo_pebble)) k)"
proof -
  let ?recs = "[log_record 0 (name_prefix ''a'' @ [1]) (Some [8]), log_record 1 (name_prefix ''a'' @ [2]) None]"
  let ?p1 = "snd (run_ops (peb_store alist_pebble ''a'') [OpPut [1] [8], OpDelete [2]] demo_pebble)"
  let ?muts = "[\<lparr>m_Key = name_prefix ''a'' @ [1], m_Value = Some [8]\<rparr>, \<lparr>m_Key = name_prefix ''a'' @ [2], m_Value = None\<rparr>]"
  obtain p' where d: "DrainMutations (peb_store alist_pebble ''a'') ?p1 = (?muts, p')"
  proof -
    have "fst (DrainMutations (peb_store alist_pebble ''a'') ?p1) = ?muts" by code_simp
    then show ?thesis using that by (metis prod.collapse)
  qed
  have sv: "serves (one_partition 2 [poll_of ?recs]) ''log'' 0 0 2 ?recs"
    by (rule one_partition_serves) (simp_all add: log_record_def)
  have mo: "mem_open two_stores" using two_stores_ok(1) by (simp add: mem_open_def mem_ok_def)
  have em: "\<forall>k. mem_raw two_stores (name_prefix ''a'' @ k) = None" "peb_view map_of ''a'' demo_pebble = Map.empty"
    by (auto simp: mem_raw_def only_data_def two_stores_def mb_open_def OpenStore_def OpenMemDB_def peb_view_def demo_pebble_def peb_OpenStore_def fun_eq_iff)
  have st: "go_get (pb_stores demo_pebble) ''a'' = Some (NewKeyValueStoreWithChangelog ''a'' bytesserde bytesserde (Some []))"
      "pkv_ok ''a'' (NewKeyValueStoreWithChangelog ''a'' bytesserde bytesserde (Some []))"
      "ps_collector (NewKeyValueStoreWithChangelog ''a'' bytesserde bytesserde (Some [])) = Some []"
    by (simp_all add: demo_pebble_def peb_OpenStore_def pkv_ok_def NewKeyValueStoreWithChangelog_def name_prefix_def separator_def)
  have "store_name_ok ''a''" by (simp add: store_name_ok_def bytes_of_def)
  then show ?thesis
    using changelog_topic_rebuilds [OF alist_db.pebble_db_axioms _ st em(2) d, of ?recs "\<lparr>cp_topic = ''log''\<rparr>" 0
        mem_backend mem_raw mem_ckpt mem_stime mem_open two_stores "[''broker'']" "one_partition 2 [poll_of ?recs]" 2]
      mem_be.state_backend_axioms mo em(1) sv
    by (simp add: one_partition_answers is_i64_def MinInt64_def MaxInt64_def log_record_def Encode_def outRecordsToKgo_def)
qed

end
