(* ===== verification/Config.thy ===== *)
theory Config
  imports Backend
begin

text \<open>
  \<open>config.go\<close>: the public configuration, its functional options, the defaults and the
  validation. The machine's number of processors and its directory for temporary files are
  arguments. Durations are nanoseconds.
\<close>

section \<open>Paths and strings of the standard library\<close>

fun split_on :: "char \<Rightarrow> string \<Rightarrow> string list" where
  "split_on sep [] = [[]]"
| "split_on sep (c # cs) =
     (if c = sep then [] # split_on sep cs
      else case split_on sep cs of [] \<Rightarrow> [[c]] | w # ws \<Rightarrow> (c # w) # ws)"

fun join_with :: "char \<Rightarrow> string list \<Rightarrow> string" where
  "join_with sep [] = []"
| "join_with sep [w] = w"
| "join_with sep (w # ws) = w @ sep # join_with sep ws"

text \<open>\<open>strings.TrimSpace\<close> on ASCII text.\<close>

definition is_space :: "char \<Rightarrow> bool" where
  "is_space c \<longleftrightarrow> c \<in> {CHR 0x09, CHR 0x0A, CHR 0x0B, CHR 0x0C, CHR 0x0D, CHR '' ''}"

definition TrimSpace :: "string \<Rightarrow> string" where
  "TrimSpace s = rev (dropWhile is_space (rev (dropWhile is_space s)))"

text \<open>\<open>filepath.Clean\<close> and \<open>filepath.Join\<close> with the separator \<open>/\<close>.\<close>

definition clean_step :: "bool \<Rightarrow> string \<Rightarrow> string list \<Rightarrow> string list" where
  "clean_step rooted w out =
     (if w = [] \<or> w = ''.'' then out
      else if w = ''..'' then
        (if out \<noteq> [] \<and> last out \<noteq> ''..'' then butlast out else if rooted then out else out @ [w])
      else out @ [w])"

definition filepath_Clean :: "string \<Rightarrow> string" where
  "filepath_Clean path =
     (let rooted = (path \<noteq> [] \<and> hd path = CHR ''/'');
          res = (if rooted then ''/'' else []) @ join_with (CHR ''/'') (fold (clean_step rooted) (split_on (CHR ''/'') path) [])
      in if res = [] then ''.'' else res)"

definition filepath_Join :: "string list \<Rightarrow> string" where
  "filepath_Join elems =
     (let parts = filter (\<lambda>e. e \<noteq> []) elems in
      if parts = [] then [] else filepath_Clean (join_with (CHR ''/'') parts))"

section \<open>Definitions\<close>

datatype Guarantee = AtLeastOnce | ExactlyOnce

text \<open>\<open>StoreProvider\<close>: opens the back end in a directory, giving its operations and its state.\<close>

type_synonym 'b StoreProvider = "string \<Rightarrow> error + 'b StoreBackend \<times> 'b"

record 'b Config =
  cf_ApplicationID :: string
  cf_Brokers :: "string list"
  cf_Guarantee :: Guarantee
  cf_StateDir :: string
  cf_InstanceID :: string
  cf_NumTaskThreads :: int
  cf_CommitInterval :: int
  cf_RestoreCatchUpTimeout :: int
  cf_StoreProvider :: "'b StoreProvider option"

type_synonym 'b Option = "'b Config \<Rightarrow> 'b Config"

definition zero_Config :: "'b Config" where
  "zero_Config = \<lparr>cf_ApplicationID = [], cf_Brokers = [], cf_Guarantee = AtLeastOnce, cf_StateDir = [], cf_InstanceID = [],
     cf_NumTaskThreads = 0, cf_CommitInterval = 0, cf_RestoreCatchUpTimeout = 0, cf_StoreProvider = None\<rparr>"

definition WithName :: "string \<Rightarrow> 'b Option" where
  "WithName name c = c\<lparr>cf_ApplicationID := name\<rparr>"

definition WithBrokers :: "string list \<Rightarrow> 'b Option" where
  "WithBrokers brokers c = c\<lparr>cf_Brokers := brokers\<rparr>"

definition WithBrokerStr :: "string \<Rightarrow> 'b Option" where
  "WithBrokerStr csv c =
     c\<lparr>cf_Brokers := filter (\<lambda>s. s \<noteq> []) (map TrimSpace (split_on (CHR '','') csv))\<rparr>"

definition WithStateDir :: "string \<Rightarrow> 'b Option" where
  "WithStateDir dir c = c\<lparr>cf_StateDir := dir\<rparr>"

definition WithGuarantee :: "Guarantee \<Rightarrow> 'b Option" where
  "WithGuarantee g c = c\<lparr>cf_Guarantee := g\<rparr>"

definition WithCommitInterval :: "int \<Rightarrow> 'b Option" where
  "WithCommitInterval d c = c\<lparr>cf_CommitInterval := d\<rparr>"

definition WithRestoreCatchUpTimeout :: "int \<Rightarrow> 'b Option" where
  "WithRestoreCatchUpTimeout d c = c\<lparr>cf_RestoreCatchUpTimeout := d\<rparr>"

definition WithNumTaskThreads :: "int \<Rightarrow> 'b Option" where
  "WithNumTaskThreads n c = c\<lparr>cf_NumTaskThreads := n\<rparr>"

definition WithStoreProvider :: "'b StoreProvider \<Rightarrow> 'b Option" where
  "WithStoreProvider provider c = c\<lparr>cf_StoreProvider := Some provider\<rparr>"

definition WithDefaults :: "'b Option" where
  "WithDefaults c = c"

text \<open>The zero of \<open>Guarantee\<close> is \<open>AtLeastOnce\<close>, so the first default assigns a field to itself.\<close>

definition ApplyDefaults :: "int \<Rightarrow> string \<Rightarrow> 'b Config \<Rightarrow> 'b Config" where
  "ApplyDefaults GOMAXPROCS TempDir c0 =
     (let c = c0\<lparr>cf_NumTaskThreads := (if cf_NumTaskThreads c0 = 0 then GOMAXPROCS else cf_NumTaskThreads c0)\<rparr>;
          c = c\<lparr>cf_CommitInterval := (if cf_CommitInterval c = 0 then 100 * 1000000 else cf_CommitInterval c)\<rparr>;
          c = c\<lparr>cf_RestoreCatchUpTimeout := (if cf_RestoreCatchUpTimeout c = 0 then 2 * 1000000000 else cf_RestoreCatchUpTimeout c)\<rparr>
      in if cf_StateDir c = [] \<and> cf_ApplicationID c \<noteq> []
         then c\<lparr>cf_StateDir := filepath_Join [TempDir, ''gstream-'' @ cf_ApplicationID c]\<rparr> else c)"

text \<open>\<open>errors.Join\<close> of no errors is nil.\<close>

definition errors_Join :: "error list \<Rightarrow> error option" where
  "errors_Join errs = (if errs = [] then None else Some (Wrap [] errs))"

definition violations :: "'b Config \<Rightarrow> error list" where
  "violations c =
     (if cf_ApplicationID c = [] then [Err ''ApplicationID must not be empty''] else [])
     @ (if cf_Brokers c = [] then [Err ''brokers must contain at least one address''] else [])
     @ (if cf_NumTaskThreads c < 0 then [Err ''NumTaskThreads must be non-negative''] else [])
     @ (if cf_CommitInterval c \<le> 0 then [Err ''CommitInterval must be positive''] else [])
     @ (if cf_RestoreCatchUpTimeout c \<le> 0 then [Err ''RestoreCatchUpTimeout must be positive''] else [])"

definition Validate :: "'b Config \<Rightarrow> error option" where
  "Validate c = errors_Join (violations c)"

definition Configure :: "int \<Rightarrow> string \<Rightarrow> 'b Option list \<Rightarrow> error + 'b Config" where
  "Configure GOMAXPROCS TempDir opts =
     (let cfg = ApplyDefaults GOMAXPROCS TempDir (fold (\<lambda>opt c. opt c) opts zero_Config) in
      case Validate cfg of Some err \<Rightarrow> Inl err | None \<Rightarrow> Inr cfg)"

section \<open>What a configuration guarantees\<close>

definition valid_Config :: "'b Config \<Rightarrow> bool" where
  "valid_Config c \<longleftrightarrow> cf_ApplicationID c \<noteq> [] \<and> cf_Brokers c \<noteq> [] \<and> 0 \<le> cf_NumTaskThreads c
     \<and> 0 < cf_CommitInterval c \<and> 0 < cf_RestoreCatchUpTimeout c"

lemma Validate_iff: "Validate c = None \<longleftrightarrow> valid_Config c"
  by (auto simp: Validate_def errors_Join_def violations_def valid_Config_def)

lemma violations_distinct: "distinct (violations c)"
  by (simp add: violations_def)

lemma violations_set:
  "set (violations c) = {e. e = Err ''ApplicationID must not be empty'' \<and> cf_ApplicationID c = []
    \<or> e = Err ''brokers must contain at least one address'' \<and> cf_Brokers c = []
    \<or> e = Err ''NumTaskThreads must be non-negative'' \<and> cf_NumTaskThreads c < 0
    \<or> e = Err ''CommitInterval must be positive'' \<and> cf_CommitInterval c \<le> 0
    \<or> e = Err ''RestoreCatchUpTimeout must be positive'' \<and> cf_RestoreCatchUpTimeout c \<le> 0}"
  by (auto simp: violations_def)

lemma filepath_Clean_nonempty: "filepath_Clean p \<noteq> []"
  by (simp add: filepath_Clean_def Let_def)

lemma filepath_Join_nonempty: "e \<in> set es \<Longrightarrow> e \<noteq> [] \<Longrightarrow> filepath_Join es \<noteq> []"
  using filter_empty_conv [of "\<lambda>e. e \<noteq> []" es] by (auto simp: filepath_Join_def Let_def filepath_Clean_nonempty)

lemma ApplyDefaults_StateDir: "cf_ApplicationID (ApplyDefaults g t c) \<noteq> [] \<Longrightarrow> cf_StateDir (ApplyDefaults g t c) \<noteq> []"
  using filepath_Join_nonempty [of "''gstream-'' @ cf_ApplicationID c" "[t, ''gstream-'' @ cf_ApplicationID c]"]
  by (auto simp: ApplyDefaults_def Let_def)

lemma ApplyDefaults_simps [simp]:
  "cf_ApplicationID (ApplyDefaults g t c) = cf_ApplicationID c" "cf_Brokers (ApplyDefaults g t c) = cf_Brokers c"
  "cf_NumTaskThreads (ApplyDefaults g t c) = (if cf_NumTaskThreads c = 0 then g else cf_NumTaskThreads c)"
  by (simp_all add: ApplyDefaults_def Let_def)

lemma split_join:
  "(\<And>w. w \<in> set ws \<Longrightarrow> sep \<notin> set w) \<Longrightarrow> ws \<noteq> [] \<Longrightarrow> split_on sep (join_with sep ws) = ws"
proof (induction sep ws rule: join_with.induct)
  case (2 sep w)
  then have "sep \<notin> set w" by simp
  then show ?case by (induction w) auto
next
  case (3 sep w v vs)
  have ih: "split_on sep (join_with sep (v # vs)) = v # vs" using 3 by simp
  have "sep \<notin> set w" using 3 by simp
  then have "split_on sep (w @ sep # join_with sep (v # vs)) = w # v # vs"
    by (induction w) (auto simp: ih)
  then show ?case by simp
qed simp

lemma TrimSpace_id: "s \<noteq> [] \<Longrightarrow> \<not> is_space (hd s) \<Longrightarrow> \<not> is_space (last s) \<Longrightarrow> TrimSpace s = s"
  using dropWhile_eq_self_iff [of is_space s] dropWhile_eq_self_iff [of is_space "rev s"] by (simp add: TrimSpace_def hd_rev)

lemma broker_list_read_back:
  assumes bs: "\<forall>b \<in> set bs. b \<noteq> [] \<and> sep \<notin> set b \<and> \<not> is_space (hd b) \<and> \<not> is_space (last b)"
  shows "filter (\<lambda>s. s \<noteq> []) (map TrimSpace (split_on sep (join_with sep bs))) = bs"
proof (cases "bs = []")
  case False
  then have "split_on sep (join_with sep bs) = bs" using bs by (intro split_join) auto
  moreover have "map TrimSpace bs = bs" using bs TrimSpace_id by (intro map_idI) blast
  ultimately show ?thesis using bs by (simp add: filter_id_conv)
qed (simp add: TrimSpace_def)

section \<open>Property\<close>

text \<open>
  C37: \<open>Configure\<close> returns only usable configurations. Whatever the options are, it either returns a
  configuration with a name, a broker, a non-negative number of threads, positive intervals and a
  state directory, or an error that joins exactly one message for each violated constraint (the
  name, the brokers, the threads, the commit interval, the restore timeout), at least one. And a
  broker list written as a comma-separated string configures the same brokers as the list itself.
\<close>

theorem configure_valid:
  "(case Configure procs tmp opts of
      Inr cfg \<Rightarrow> valid_Config cfg \<and> cf_StateDir cfg \<noteq> []
    | Inl err \<Rightarrow> (let c = ApplyDefaults procs tmp (fold (\<lambda>opt c. opt c) opts zero_Config) in
        \<not> valid_Config c \<and> (\<exists>errs. err = Wrap [] errs \<and> errs \<noteq> [] \<and> distinct errs
          \<and> set errs = {e. e = Err ''ApplicationID must not be empty'' \<and> cf_ApplicationID c = []
              \<or> e = Err ''brokers must contain at least one address'' \<and> cf_Brokers c = []
              \<or> e = Err ''NumTaskThreads must be non-negative'' \<and> cf_NumTaskThreads c < 0
              \<or> e = Err ''CommitInterval must be positive'' \<and> cf_CommitInterval c \<le> 0
              \<or> e = Err ''RestoreCatchUpTimeout must be positive'' \<and> cf_RestoreCatchUpTimeout c \<le> 0})))
   \<and> ((\<forall>b \<in> set bs. b \<noteq> [] \<and> CHR '','' \<notin> set b \<and> \<not> is_space (hd b) \<and> \<not> is_space (last b)) \<longrightarrow>
      WithBrokerStr (join_with (CHR '','') bs) cfg = WithBrokers bs cfg)"
proof (intro conjI impI)
  let ?c = "ApplyDefaults procs tmp (fold (\<lambda>opt c. opt c) opts zero_Config)"
  show "case Configure procs tmp opts of
      Inr cfg \<Rightarrow> valid_Config cfg \<and> cf_StateDir cfg \<noteq> []
    | Inl err \<Rightarrow> (let c = ?c in \<not> valid_Config c \<and> (\<exists>errs. err = Wrap [] errs \<and> errs \<noteq> [] \<and> distinct errs
          \<and> set errs = {e. e = Err ''ApplicationID must not be empty'' \<and> cf_ApplicationID c = []
              \<or> e = Err ''brokers must contain at least one address'' \<and> cf_Brokers c = []
              \<or> e = Err ''NumTaskThreads must be non-negative'' \<and> cf_NumTaskThreads c < 0
              \<or> e = Err ''CommitInterval must be positive'' \<and> cf_CommitInterval c \<le> 0
              \<or> e = Err ''RestoreCatchUpTimeout must be positive'' \<and> cf_RestoreCatchUpTimeout c \<le> 0}))"
  proof (cases "Validate ?c")
    case None
    then have "valid_Config ?c" using Validate_iff by blast
    moreover have "cf_StateDir ?c \<noteq> []" using \<open>valid_Config ?c\<close> ApplyDefaults_StateDir unfolding valid_Config_def by blast
    ultimately show ?thesis using None by (simp add: Configure_def Let_def)
  next
    case (Some err)
    then have "\<not> valid_Config ?c" using Validate_iff by (metis option.distinct(1))
    moreover have "err = Wrap [] (violations ?c)" "violations ?c \<noteq> []"
      using Some by (auto simp: Validate_def errors_Join_def split: if_splits)
    moreover note violations_distinct [of ?c] violations_set [of ?c]
    ultimately show ?thesis using Some by (simp add: Configure_def Let_def)
  qed
  assume "\<forall>b \<in> set bs. b \<noteq> [] \<and> CHR '','' \<notin> set b \<and> \<not> is_space (hd b) \<and> \<not> is_space (last b)"
  then have "filter (\<lambda>s. s \<noteq> []) (map TrimSpace (split_on (CHR '','') (join_with (CHR '','') bs))) = bs"
    by (rule broker_list_read_back)
  then show "WithBrokerStr (join_with (CHR '','') bs) cfg = WithBrokers bs cfg"
    by (simp add: WithBrokerStr_def WithBrokers_def)
qed

theorem configure_valid_witness:
  "WithBrokerStr (join_with (CHR '','') [''b1:9092'', ''b2:9092'']) (zero_Config :: unit Config) = WithBrokers [''b1:9092'', ''b2:9092''] zero_Config"
  by (rule configure_valid [of 1 "''/tmp''" "[]" "[''b1:9092'', ''b2:9092'']" "zero_Config :: unit Config",
        THEN conjunct2, THEN mp]) (simp add: is_space_def)

end
