(* ===== verification/TaskManager.thy ===== *)
theory TaskManager
  imports Pipeline Sweep Restore Config
begin

text \<open>
  \<open>internal/runtime/task_manager.go\<close>: one task per assigned partition, with its back end, its
  executor, its stores and a changelog producer per store. A partition that is assigned restores
  its stores from their changelogs; after every batch the retention sweep runs and the collected
  mutations go to the changelogs; a revoked partition is flushed, checkpointed and closed.

  A task's executor holds the state of its back end (\<open>es_data\<close>) and the stream-time it shares with
  the task. What a directory holds when it is opened is the store provider's answer. Go maps are
  association lists, and every statement is for any order of their entries. The cluster has a
  state \<open>'c\<close> that producing changes and that determines the answers a restore gets.
\<close>

section \<open>State\<close>

record ('b, 'a) task =
  tk_backend :: "'b StoreBackend option"
  tk_executor :: "('b, 'a) Executor"
  tk_producers :: "(string, ChangelogProducer) gomap"
  tk_stores :: "(string, ('b, 'a) estate anystore) gomap"
  tk_partition :: int
  tk_lastSweepTime :: int

text \<open>The field \<open>streamTime\<close>, to which the executor of a task with window stores points.\<close>

definition tk_streamTime :: "('b, 'a) task \<Rightarrow> int" where
  "tk_streamTime t = ctx_StreamTime (x_state (tk_executor t))"

definition tk_data :: "('b, 'a) task \<Rightarrow> 'b" where
  "tk_data t = es_data (x_state (tk_executor t))"

definition set_data :: "'b \<Rightarrow> ('b, 'a) task \<Rightarrow> ('b, 'a) task" where
  "set_data b t = t\<lparr>tk_executor := (tk_executor t)\<lparr>x_state := (x_state (tk_executor t))\<lparr>es_data := b\<rparr>\<rparr>\<rparr>"

definition set_estate :: "('b, 'a) estate \<Rightarrow> ('b, 'a) task \<Rightarrow> ('b, 'a) task" where
  "set_estate s t = t\<lparr>tk_executor := (tk_executor t)\<lparr>x_state := s\<rparr>\<rparr>"

text \<open>\<open>tm_noData\<close> stands in for the data of a task without a back end, which has no stores of its own.\<close>

record ('b, 'a) TaskManager =
  tm_tasks :: "(int, ('b, 'a) task) gomap"
  tm_globalStores :: "(string, ('b, 'a) estate anystore) gomap"
  tm_bt :: "('b, 'a) BuiltTopology"
  tm_cfg :: "'b Config"
  tm_appID :: string
  tm_noData :: 'b

record 'c Kafka =
  kf_cluster :: "'c \<Rightarrow> Cluster"
  kf_produce :: "KRecord list \<Rightarrow> 'c \<Rightarrow> error option list \<times> 'c"
  kf_newProducer :: "string \<Rightarrow> error option"

definition NewTaskManager :: "('b, 'a) BuiltTopology \<Rightarrow> 'b Config \<Rightarrow> 'b \<Rightarrow> ('b, 'a) TaskManager" where
  "NewTaskManager bt cfg noData =
     \<lparr>tm_tasks = [], tm_globalStores = [], tm_bt = bt, tm_cfg = cfg, tm_appID = cf_ApplicationID cfg, tm_noData = noData\<rparr>"

definition RegisterGlobalStore :: "string \<Rightarrow> ('b, 'a) estate anystore \<Rightarrow> ('b, 'a) TaskManager \<Rightarrow> ('b, 'a) TaskManager" where
  "RegisterGlobalStore name store tm = tm\<lparr>tm_globalStores := go_set name store (tm_globalStores tm)\<rparr>"

section \<open>Names\<close>

definition show_int :: "int \<Rightarrow> string" where
  "show_int i = (if i < 0 then ''-'' @ decimal (nat (- i)) else decimal (nat i))"

text \<open>The store bindings of the three kinds, as pairs of a store name and a changelog name.\<close>

definition store_changelogs :: "('b, 'a) BuiltTopology \<Rightarrow> (string \<times> string) list" where
  "store_changelogs bt =
     map (\<lambda>(n, b). (n, sb_ChangelogTopic b)) (bt_StoreBindings bt)
     @ map (\<lambda>(n, b). (n, sb_ChangelogTopic (wb_StoreBinding b))) (bt_WindowStoreBindings bt)
     @ map (\<lambda>(n, b). (n, sb_ChangelogTopic (xb_StoreBinding b))) (bt_SessionStoreBindings bt)"

definition changelog_topic :: "string \<Rightarrow> string \<Rightarrow> string" where
  "changelog_topic appID name = appID @ ''-'' @ name @ ''-changelog''"

definition allChangelogTopics :: "('b, 'a) TaskManager \<Rightarrow> (string, string) gomap" where
  "allChangelogTopics tm =
     fold (\<lambda>(n, cl). go_set n (changelog_topic (tm_appID tm) cl)) (store_changelogs (tm_bt tm)) []"

definition timed :: "('b, 'a) BuiltTopology \<Rightarrow> bool" where
  "timed bt \<longleftrightarrow> bt_WindowStoreBindings bt \<noteq> [] \<or> bt_SessionStoreBindings bt \<noteq> []"

definition stores_fn :: "(string, 's anystore) gomap \<Rightarrow> string \<Rightarrow> 's anystore" where
  "stores_fn stores name = (case go_get stores name of None \<Rightarrow> NilStore | Some s \<Rightarrow> s)"

definition merge_stores :: "(string, 's) gomap \<Rightarrow> (string, 's) gomap \<Rightarrow> (string, 's) gomap" where
  "merge_stores globals stores = fold (\<lambda>(n, gs). go_set n gs) globals stores"

definition collectPartitions :: "(string, int list) gomap \<Rightarrow> int list" where
  "collectPartitions m = fold (\<lambda>p out. if p \<in> set out then out else out @ [p]) (concat (map snd m)) []"

section \<open>Opening a task\<close>

definition zero_store_task :: "int \<Rightarrow> ('b, 'a) TaskManager \<Rightarrow> ('b, 'a) task" where
  "zero_store_task part tm =
     (let stores = merge_stores (tm_globalStores tm) [] in
      \<lparr>tk_backend = None, tk_executor = NewExecutor (bt_Topology (tm_bt tm)) (stores_fn stores) (tm_noData tm),
       tk_producers = [], tk_stores = stores, tk_partition = part, tk_lastSweepTime = 0\<rparr>)"

definition put_task :: "int \<Rightarrow> ('b, 'a) task \<Rightarrow> ('b, 'a) TaskManager \<Rightarrow> ('b, 'a) TaskManager" where
  "put_task part t tm = tm\<lparr>tm_tasks := go_set part t (tm_tasks tm)\<rparr>"

definition get_Executor :: "int \<Rightarrow> ('b, 'a) TaskManager \<Rightarrow> ('b, 'a) Executor option \<times> ('b, 'a) TaskManager" where
  "get_Executor part tm =
     (case go_get (tm_tasks tm) part of
        Some t \<Rightarrow> (Some (tk_executor t), tm)
      | None \<Rightarrow>
        if store_changelogs (tm_bt tm) = []
        then (Some (tk_executor (zero_store_task part tm)), put_task part (zero_store_task part tm) tm)
        else (None, tm))"

text \<open>A call of \<open>RestoreFromChangelog\<close> that never returns is the error \<open>Diverges\<close>.\<close>

definition restore :: "Cluster \<Rightarrow> ('b, 'a) TaskManager \<Rightarrow> string \<Rightarrow> int \<Rightarrow> int \<Rightarrow> 'b StoreBackend \<Rightarrow> string
    \<Rightarrow> ('b, int) act" where
  "restore cl tm topic part checkpoint be storeName b =
     (case RestoreFromChangelog cl (cf_Brokers (tm_cfg tm)) topic part checkpoint be storeName b of
        (None, b') \<Rightarrow> (Inl Diverges, b')
      | (Some r, b') \<Rightarrow> (r, b'))"

text \<open>The closure \<open>openStore\<close>: restore, producer, store, on the maps it fills.\<close>

record ('b, 'a) Opening =
  op_data :: 'b
  op_stores :: "(string, ('b, 'a) estate anystore) gomap"
  op_producers :: "(string, ChangelogProducer) gomap"

definition openStore :: "'c Kafka \<Rightarrow> 'c \<Rightarrow> ('b, 'a) TaskManager \<Rightarrow> int \<Rightarrow> 'b StoreBackend \<Rightarrow> string \<times> string
    \<Rightarrow> ('b, 'a) Opening \<Rightarrow> error option \<times> ('b, 'a) Opening" where
  "openStore kf c tm part be = (\<lambda>(storeName, changelogName) st.
     let changelogTopic = changelog_topic (tm_appID tm) changelogName in
     case be_ReadCheckpoint be storeName (op_data st) of
       Inl err \<Rightarrow> (Some (Wrap ''ReadCheckpoint'' [err]), st)
     | Inr found \<Rightarrow>
       let checkpoint = (case found of None \<Rightarrow> -1 | Some cp \<Rightarrow> cp) in
       (case restore (kf_cluster kf c) tm changelogTopic part checkpoint be storeName (op_data st) of
          (Inl err, b) \<Rightarrow> (Some (Wrap ''RestoreFromChangelog'' [err]), st\<lparr>op_data := b\<rparr>)
        | (Inr hw, b) \<Rightarrow>
          (case NewChangelogProducer (kf_newProducer kf changelogTopic) (cf_Brokers (tm_cfg tm)) changelogTopic of
             Inl err \<Rightarrow> (Some (Wrap ''NewChangelogProducer'' [err]), st\<lparr>op_data := b\<rparr>)
           | Inr producer \<Rightarrow>
             (case be_OpenStore be storeName True b of
                (Some err, b') \<Rightarrow> (Some (Wrap ''OpenStore'' [err]), st\<lparr>op_data := b'\<rparr>)
              | (None, b') \<Rightarrow>
                (None, \<lparr>op_data = b', op_stores = go_set storeName (IsStore (lift_store (be_Store be storeName))) (op_stores st),
                        op_producers = go_set storeName producer (op_producers st)\<rparr>)))))"

fun until_error :: "('x \<Rightarrow> 's \<Rightarrow> error option \<times> 's) \<Rightarrow> 'x list \<Rightarrow> 's \<Rightarrow> error option \<times> 's" where
  "until_error f [] s = (None, s)"
| "until_error f (x # xs) s = (case f x s of (Some err, s') \<Rightarrow> (Some err, s') | (None, s') \<Rightarrow> until_error f xs s')"

definition task_dir :: "('b, 'a) TaskManager \<Rightarrow> int \<Rightarrow> string" where
  "task_dir tm part = filepath_Join [cf_StateDir (tm_cfg tm), tm_appID tm, ''partition-'' @ show_int part]"

definition openTask :: "'c Kafka \<Rightarrow> 'c \<Rightarrow> int \<Rightarrow> ('b, 'a) TaskManager \<Rightarrow> error option \<times> ('b, 'a) TaskManager" where
  "openTask kf c part tm =
     (if store_changelogs (tm_bt tm) = [] then (None, put_task part (zero_store_task part tm) tm)
      else case cf_StoreProvider (tm_cfg tm) of
        None \<Rightarrow> (Some (Err ''stateful topology requires StoreProvider''), tm)
      | Some Open \<Rightarrow> (case Open (task_dir tm part) of
        Inl err \<Rightarrow> (Some (Wrap ''open store backend'' [err]), tm)
      | Inr (be, b) \<Rightarrow>
        (case until_error (openStore kf c tm part be) (store_changelogs (tm_bt tm)) \<lparr>op_data = b, op_stores = [], op_producers = []\<rparr> of
           (Some err, _) \<Rightarrow> (Some err, tm)
         | (None, st) \<Rightarrow>
           let stores = merge_stores (tm_globalStores tm) (op_stores st) in
           (case (if timed (tm_bt tm) then be_ReadStreamTime be (op_data st) else Inr None) of
              Inl err \<Rightarrow> (Some (Wrap ''ReadStreamTime'' [err]), tm)
            | Inr ts \<Rightarrow>
              let streamTime = (case ts of None \<Rightarrow> 0 | Some t \<Rightarrow> t);
                  executor = (if timed (tm_bt tm)
                    then NewExecutorWithStreamTime (bt_Topology (tm_bt tm)) (stores_fn stores) (op_data st) (Some streamTime)
                    else NewExecutor (bt_Topology (tm_bt tm)) (stores_fn stores) (op_data st))
              in (None, put_task part \<lparr>tk_backend = Some be, tk_executor = executor, tk_producers = op_producers st,
                     tk_stores = stores, tk_partition = part, tk_lastSweepTime = 0\<rparr> tm)))))"

definition OnAssigned :: "'c Kafka \<Rightarrow> 'c \<Rightarrow> (string, int list) gomap \<Rightarrow> ('b, 'a) TaskManager \<Rightarrow> error option \<times> ('b, 'a) TaskManager" where
  "OnAssigned kf c m tm =
     until_error (\<lambda>p tm. case openTask kf c p tm of
         (Some err, tm') \<Rightarrow> (Some (Wrap ''TaskManager.OnAssigned'' [err]), tm') | (None, tm') \<Rightarrow> (None, tm'))
       (collectPartitions m) tm"

section \<open>The retention sweep of a task\<close>

definition computeSweepInterval :: "('b, 'a) BuiltTopology \<Rightarrow> int" where
  "computeSweepInterval bt =
     fold (\<lambda>(n, b) maxSize. if xb_GapMs b > maxSize then xb_GapMs b else maxSize) (bt_SessionStoreBindings bt)
       (fold (\<lambda>(n, b) maxSize. if MaxSizeMs (wb_WindowDef b) > maxSize then MaxSizeMs (wb_WindowDef b) else maxSize)
         (bt_WindowStoreBindings bt) 0)"

text \<open>A sweep of the store with the given name; \<open>t.stores[name].(gstream.Store)\<close> must succeed.\<close>

definition sweep_store :: "string \<Rightarrow> (('b, 'a) estate Store \<Rightarrow> (('b, 'a) estate, nat) act) \<Rightarrow> string \<Rightarrow> ('b, 'a) task
    \<Rightarrow> error option \<times> ('b, 'a) task" where
  "sweep_store msg sweep storeName t =
     (case stores_fn (tk_stores t) storeName of
        IsStore store \<Rightarrow>
          (case sweep store (x_state (tk_executor t)) of
             (Inl err, s) \<Rightarrow> (Some (Wrap msg [err]), set_estate s t)
           | (Inr _, s) \<Rightarrow> (None, set_estate s t))
      | _ \<Rightarrow> (Some (Err ''runSweep: unexpected type''), t))"

definition sweep_window :: "string \<times> 'a WindowStoreBinding \<Rightarrow> ('b, 'a) task \<Rightarrow> error option \<times> ('b, 'a) task" where
  "sweep_window = (\<lambda>(storeName, binding) t. sweep_store ''runSweep: store''
     (\<lambda>store. sweepWindowStore store (wb_WindowDef binding) (wb_GraceMs binding) (tk_streamTime t)) storeName t)"

definition sweep_session :: "string \<times> 'a SessionStoreBinding \<Rightarrow> ('b, 'a) task \<Rightarrow> error option \<times> ('b, 'a) task" where
  "sweep_session = (\<lambda>(storeName, binding) t. sweep_store ''runSweep: session store''
     (\<lambda>store. sweepSessionStore store (xb_GapMs binding) (xb_GraceMs binding) (tk_streamTime t)) storeName t)"

definition runSweep :: "('b, 'a) BuiltTopology \<Rightarrow> ('b, 'a) task \<Rightarrow> error option \<times> ('b, 'a) task" where
  "runSweep bt t =
     (let sweepInterval = computeSweepInterval bt in
      if sweepInterval \<le> 0 then (None, t)
      else if i64 (tk_streamTime t - tk_lastSweepTime t) < sweepInterval then (None, t)
      else case until_error sweep_window (bt_WindowStoreBindings bt) t of
        (Some err, t') \<Rightarrow> (Some err, t')
      | (None, t') \<Rightarrow>
        (case until_error sweep_session (bt_SessionStoreBindings bt) t' of
           (Some err, t'') \<Rightarrow> (Some err, t'')
         | (None, t'') \<Rightarrow> (None, t''\<lparr>tk_lastSweepTime := tk_streamTime t''\<rparr>)))"

section \<open>After a batch\<close>

text \<open>\<open>store.DrainMutations()\<close> on a task.\<close>

definition drain_store :: "('b, 'a) estate Store \<Rightarrow> ('b, 'a) task \<Rightarrow> StoreMutation list \<times> ('b, 'a) task" where
  "drain_store store t = (case DrainMutations store (x_state (tk_executor t)) of (muts, s) \<Rightarrow> (muts, set_estate s t))"

text \<open>The loop body of \<open>PostBatch\<close> over the producers, on the task and the cluster.\<close>

definition flush_store :: "'c Kafka \<Rightarrow> int \<Rightarrow> string \<times> ChangelogProducer \<Rightarrow> ('b, 'a) task \<times> 'c \<Rightarrow> error option \<times> ('b, 'a) task \<times> 'c" where
  "flush_store kf part = (\<lambda>(storeName, producer) (t, c).
     case stores_fn (tk_stores t) storeName of
       IsStore store \<Rightarrow>
         (case drain_store store t of (muts, t') \<Rightarrow>
            if muts = [] then (None, t', c)
            else (case Flush (kf_produce kf) producer part muts c of
                    (Some err, c') \<Rightarrow> (Some (Wrap ''TaskManager.PostBatch: flush'' [err]), t', c')
                  | (None, c') \<Rightarrow> (None, t', c')))
     | _ \<Rightarrow> (Some (Err ''TaskManager.PostBatch: unexpected type''), t, c))"

text \<open>\<open>WriteStreamTime\<close> on the back end of a task; an error is only logged.\<close>

definition write_stream_time :: "('b, 'a) BuiltTopology \<Rightarrow> 'b StoreBackend \<Rightarrow> ('b, 'a) task \<Rightarrow> ('b, 'a) task" where
  "write_stream_time bt be t =
     (if timed bt then set_data (snd (be_WriteStreamTime be (tk_streamTime t) (tk_data t))) t else t)"

definition sweep_task :: "('b, 'a) BuiltTopology \<Rightarrow> string \<Rightarrow> ('b, 'a) task \<Rightarrow> error option \<times> ('b, 'a) task" where
  "sweep_task bt msg t =
     (if timed bt then (case runSweep bt t of (Some err, t') \<Rightarrow> (Some (Wrap msg [err]), t') | (None, t') \<Rightarrow> (None, t'))
      else (None, t))"

definition post_batch_task :: "'c Kafka \<Rightarrow> ('b, 'a) BuiltTopology \<Rightarrow> int \<Rightarrow> ('b, 'a) task \<times> 'c \<Rightarrow> error option \<times> ('b, 'a) task \<times> 'c" where
  "post_batch_task kf bt part = (\<lambda>(t, c).
     case tk_backend t of
       None \<Rightarrow> (None, t, c)
     | Some be \<Rightarrow>
       (case sweep_task bt ''TaskManager.PostBatch: sweep'' t of
          (Some err, t1) \<Rightarrow> (Some err, t1, c)
        | (None, t1) \<Rightarrow>
          (case until_error (flush_store kf part) (tk_producers t1) (t1, c) of
             (Some err, t2, c2) \<Rightarrow> (Some err, t2, c2)
           | (None, t2, c2) \<Rightarrow> (None, write_stream_time bt be t2, c2))))"

text \<open>The loop over the tasks: the first error ends it.\<close>

fun each_task :: "(int \<Rightarrow> ('b, 'a) task \<times> 'x \<Rightarrow> error option \<times> ('b, 'a) task \<times> 'x) \<Rightarrow> (int, ('b, 'a) task) gomap \<Rightarrow> 'x
    \<Rightarrow> error option \<times> (int, ('b, 'a) task) gomap \<times> 'x" where
  "each_task f [] x = (None, [], x)"
| "each_task f ((p, t) # ts) x =
     (case f p (t, x) of
        (Some err, t', x') \<Rightarrow> (Some err, (p, t') # ts, x')
      | (None, t', x') \<Rightarrow> (case each_task f ts x' of (err, ts', x'') \<Rightarrow> (err, (p, t') # ts', x'')))"

definition PostBatch :: "'c Kafka \<Rightarrow> ('b, 'a) TaskManager \<times> 'c \<Rightarrow> error option \<times> ('b, 'a) TaskManager \<times> 'c" where
  "PostBatch kf = (\<lambda>(tm, c).
     case each_task (post_batch_task kf (tm_bt tm)) (tm_tasks tm) c of
       (err, tasks, c') \<Rightarrow> (err, tm\<lparr>tm_tasks := tasks\<rparr>, c'))"

definition post_sweep_task :: "('b, 'a) BuiltTopology \<Rightarrow> int \<Rightarrow> ('b, 'a) task \<times> unit \<Rightarrow> error option \<times> ('b, 'a) task \<times> unit" where
  "post_sweep_task bt part = (\<lambda>(t, u).
     case tk_backend t of
       None \<Rightarrow> (None, t, u)
     | Some be \<Rightarrow>
       (case sweep_task bt ''TaskManager.PostBatchSweep: sweep'' t of
          (Some err, t1) \<Rightarrow> (Some err, t1, u)
        | (None, t1) \<Rightarrow> (None, write_stream_time bt be t1, u)))"

definition PostBatchSweep :: "('b, 'a) TaskManager \<Rightarrow> error option \<times> ('b, 'a) TaskManager" where
  "PostBatchSweep tm =
     (case each_task (post_sweep_task (tm_bt tm)) (tm_tasks tm) () of (err, tasks, _) \<Rightarrow> (err, tm\<lparr>tm_tasks := tasks\<rparr>))"

definition encode_store :: "string \<times> ChangelogProducer \<Rightarrow> ('b, 'a) task \<times> OutRecord list
    \<Rightarrow> error option \<times> ('b, 'a) task \<times> OutRecord list" where
  "encode_store = (\<lambda>(storeName, producer) (t, out).
     case stores_fn (tk_stores t) storeName of
       IsStore store \<Rightarrow>
         (case drain_store store t of (muts, t') \<Rightarrow>
            if muts = [] then (None, t', out) else (None, t', out @ Encode producer (tk_partition t) muts))
     | _ \<Rightarrow> (Some (Err ''TaskManager.DrainChangelogRecords: unexpected type''), t, out))"

definition drain_task :: "int \<Rightarrow> ('b, 'a) task \<times> OutRecord list \<Rightarrow> error option \<times> ('b, 'a) task \<times> OutRecord list" where
  "drain_task part = (\<lambda>(t, out).
     case tk_backend t of
       None \<Rightarrow> (None, t, out)
     | Some be \<Rightarrow> until_error encode_store (tk_producers t) (t, out))"

definition DrainChangelogRecords :: "('b, 'a) TaskManager \<Rightarrow> (error + OutRecord list) \<times> ('b, 'a) TaskManager" where
  "DrainChangelogRecords tm =
     (case each_task drain_task (tm_tasks tm) [] of
        (Some err, tasks, _) \<Rightarrow> (Inl err, tm\<lparr>tm_tasks := tasks\<rparr>)
      | (None, tasks, out) \<Rightarrow> (Inr out, tm\<lparr>tm_tasks := tasks\<rparr>))"

section \<open>Checkpoints and closing\<close>

text \<open>
  The current end of a changelog is asked for by a restore with the largest checkpoint, and one
  less is the checkpoint; errors are only logged.
\<close>

definition checkpoint_store :: "Cluster \<Rightarrow> ('b, 'a) TaskManager \<Rightarrow> int \<Rightarrow> 'b StoreBackend \<Rightarrow> string \<times> string \<Rightarrow> 'b \<Rightarrow> 'b" where
  "checkpoint_store cl tm part be = (\<lambda>(storeName, changelogTopic) b.
     case restore cl tm changelogTopic part MaxInt64 be storeName b of
       (Inl err, b') \<Rightarrow> b'
     | (Inr hw, b') \<Rightarrow> if hw > 0 then snd (be_WriteCheckpoint be storeName (i64 (hw - 1)) b') else b')"

definition WriteCheckpoints :: "'c Kafka \<Rightarrow> 'c \<Rightarrow> ('b, 'a) TaskManager \<Rightarrow> ('b, 'a) TaskManager" where
  "WriteCheckpoints kf c tm =
     tm\<lparr>tm_tasks := map (\<lambda>(p, t). (p,
         case tk_backend t of
           None \<Rightarrow> t
         | Some be \<Rightarrow> set_data (fold (checkpoint_store (kf_cluster kf c) tm p be) (allChangelogTopics tm) (tk_data t)) t))
       (tm_tasks tm)\<rparr>"

definition close_flush :: "'c Kafka \<Rightarrow> int \<Rightarrow> string \<times> ChangelogProducer \<Rightarrow> ('b, 'a) task \<times> 'c \<Rightarrow> ('b, 'a) task \<times> 'c" where
  "close_flush kf part = (\<lambda>(storeName, producer) (t, c).
     case stores_fn (tk_stores t) storeName of
       IsStore store \<Rightarrow>
         (case drain_store store t of (muts, t') \<Rightarrow>
            if muts = [] then (t', c) else (t', snd (Flush (kf_produce kf) producer part muts c)))
     | _ \<Rightarrow> (t, c))"

definition close_store :: "string \<times> ChangelogProducer \<Rightarrow> ('b, 'a) task \<Rightarrow> ('b, 'a) task" where
  "close_store = (\<lambda>(storeName, _) t.
     case stores_fn (tk_stores t) storeName of
       IsStore store \<Rightarrow> set_estate (snd (Close store (x_state (tk_executor t)))) t
     | _ \<Rightarrow> t)"

text \<open>What closing a task leaves in its back end and in the cluster.\<close>

definition closing :: "'c Kafka \<Rightarrow> ('b, 'a) TaskManager \<Rightarrow> int \<Rightarrow> 'b StoreBackend \<Rightarrow> ('b, 'a) task \<Rightarrow> 'c \<Rightarrow> ('b, 'a) task \<times> 'c" where
  "closing kf tm part be t0 c0 =
     (case fold (close_flush kf part) (tk_producers t0) (t0, c0) of (t1, c1) \<Rightarrow>
        let t2 = write_stream_time (tm_bt tm) be t1;
            t3 = set_data (fold (checkpoint_store (kf_cluster kf c1) tm part be) (allChangelogTopics tm) (tk_data t2)) t2;
            t4 = fold close_store (tk_producers t3) t3
        in (set_data (snd (be_Close be (tk_data t4))) t4, c1))"

definition closeTask :: "'c Kafka \<Rightarrow> int \<Rightarrow> ('b, 'a) TaskManager \<times> 'c \<Rightarrow> ('b, 'a) TaskManager \<times> 'c" where
  "closeTask kf part = (\<lambda>(tm, c).
     case go_get (tm_tasks tm) part of
       None \<Rightarrow> (tm, c)
     | Some t \<Rightarrow>
       let tm' = tm\<lparr>tm_tasks := go_delete part (tm_tasks tm)\<rparr> in
       (case tk_backend t of
          None \<Rightarrow> (tm', c)
        | Some be \<Rightarrow> (tm', snd (closing kf tm' part be t c))))"

definition OnRevoked :: "'c Kafka \<Rightarrow> (string, int list) gomap \<Rightarrow> ('b, 'a) TaskManager \<times> 'c \<Rightarrow> ('b, 'a) TaskManager \<times> 'c" where
  "OnRevoked kf revoked s = fold (closeTask kf) (collectPartitions revoked) s"

section \<open>The shape of a task\<close>

text \<open>What a task keeps from its opening to its closing: everything but the executor's state and the last sweep.\<close>

definition shell where
  "shell t = (tk_backend t, tk_producers t, tk_stores t, tk_partition t, x_topo (tk_executor t), x_stores (tk_executor t))"

lemma shell_updates [simp]:
  "shell (set_estate s t) = shell t" "shell (set_data b t) = shell t" "shell (t\<lparr>tk_lastSweepTime := x\<rparr>) = shell t"
  by (simp_all add: shell_def set_estate_def set_data_def)

lemma shellD:
  assumes "shell t' = shell t"
  shows "tk_backend t' = tk_backend t" "tk_producers t' = tk_producers t" "tk_stores t' = tk_stores t" "tk_partition t' = tk_partition t"
    "x_topo (tk_executor t') = x_topo (tk_executor t)" "x_stores (tk_executor t') = x_stores (tk_executor t)"
  using assms by (simp_all add: shell_def)

lemma until_error_inv:
  assumes "\<And>x s e s'. f x s = (e, s') \<Longrightarrow> P s \<Longrightarrow> P s'" "until_error f xs s = (e, s')" "P s"
  shows "P s'"
  using assms(2,3)
proof (induction xs arbitrary: s)
  case (Cons x xs)
  obtain e1 s1 where "f x s = (e1, s1)" by fastforce
  then show ?case using Cons assms(1) [of x s e1 s1] by (cases e1) auto
qed simp

lemma sweep_store_shell: "sweep_store msg sw n t = (e, t') \<Longrightarrow> shell t' = shell t"
  by (auto simp: sweep_store_def split: anystore.splits prod.splits sum.splits)

lemma until_error_task_shell:
  assumes "\<And>x t e t'. f x t = (e, t') \<Longrightarrow> shell t' = shell t" "until_error f xs t = (e, t')"
  shows "shell t' = shell t"
  using assms(2) by (rule until_error_inv [where P = "\<lambda>u. shell u = shell t", rotated]) (auto dest: assms(1))

lemma runSweep_shell:
  assumes "runSweep bt t = (e, t')"
  shows "shell t' = shell t"
proof -
  obtain e1 t1 where w: "until_error sweep_window (bt_WindowStoreBindings bt) t = (e1, t1)" by fastforce
  obtain e2 t2 where x: "until_error sweep_session (bt_SessionStoreBindings bt) t1 = (e2, t2)" by fastforce
  have "shell t1 = shell t"
    by (rule until_error_task_shell [OF _ w]) (auto simp: sweep_window_def dest: sweep_store_shell)
  moreover have "shell t2 = shell t1"
    by (rule until_error_task_shell [OF _ x]) (auto simp: sweep_session_def dest: sweep_store_shell)
  ultimately show ?thesis
    using assms w x by (auto simp: runSweep_def Let_def split: if_splits option.splits)
qed

lemma sweep_task_shell: "sweep_task bt msg t = (e, t') \<Longrightarrow> shell t' = shell t"
  by (auto simp: sweep_task_def dest!: runSweep_shell split: if_splits prod.splits option.splits)

lemma write_stream_time_shell [simp]: "shell (write_stream_time bt be t) = shell t"
  by (simp add: write_stream_time_def)

lemma drain_store_shell: "drain_store store t = (muts, t') \<Longrightarrow> shell t' = shell t"
  by (auto simp: drain_store_def split: prod.splits)

lemma flush_store_shell: "flush_store kf p x (t, c) = (e, t', c') \<Longrightarrow> shell t' = shell t"
  by (auto simp: flush_store_def dest!: drain_store_shell split: prod.splits anystore.splits if_splits option.splits)

lemma encode_store_shell: "encode_store x (t, out) = (e, t', out') \<Longrightarrow> shell t' = shell t"
  by (auto simp: encode_store_def dest!: drain_store_shell split: prod.splits anystore.splits if_splits)

text \<open>Steps on a pair of a task and something else.\<close>

lemma until_error_shell:
  assumes "\<And>x t c e t' c'. f x (t, c) = (e, t', c') \<Longrightarrow> shell t' = shell t" "until_error f xs (t, c) = (e, t', c')"
  shows "shell t' = shell t"
proof -
  have "shell (fst s') = shell t" if "until_error f xs (t, c) = (e, s')" for s'
    using that by (rule until_error_inv [where P = "\<lambda>u. shell (fst u) = shell t", rotated]) (auto dest: assms(1))
  then show ?thesis using assms(2) by fastforce
qed

lemma post_batch_task_shell: "post_batch_task kf bt p (t, c) = (e, t', c') \<Longrightarrow> shell t' = shell t"
  by (auto simp: post_batch_task_def dest!: sweep_task_shell until_error_shell [OF flush_store_shell, rotated] split: option.splits prod.splits)

lemma post_sweep_task_shell: "post_sweep_task bt p (t, c) = (e, t', c') \<Longrightarrow> shell t' = shell t"
  by (auto simp: post_sweep_task_def dest!: sweep_task_shell split: option.splits prod.splits)

lemma drain_task_shell: "drain_task p (t, c) = (e, t', c') \<Longrightarrow> shell t' = shell t"
  by (auto simp: drain_task_def dest!: until_error_shell [OF encode_store_shell, rotated] split: option.splits prod.splits)

text \<open>The loops over the tasks keep the partitions and the shapes.\<close>

definition shells where
  "shells tm = map (\<lambda>(p, t). (p, shell t)) (tm_tasks tm)"

lemma each_task_shells:
  assumes "\<And>p t x e t' x'. f p (t, x) = (e, t', x') \<Longrightarrow> shell t' = shell t" "each_task f ts x = (e, ts', x')"
  shows "map (\<lambda>(p, t). (p, shell t)) ts' = map (\<lambda>(p, t). (p, shell t)) ts"
  using assms(2)
proof (induction ts arbitrary: x e ts' x')
  case (Cons pt ts)
  obtain p t where pt: "pt = (p, t)" by fastforce
  obtain e1 t1 x1 where f: "f p (t, x) = (e1, t1, x1)" by (metis prod_cases3)
  obtain e2 ts2 x2 where r: "each_task f ts x1 = (e2, ts2, x2)" by (metis prod_cases3)
  show ?case using Cons.prems Cons.IH [OF r] assms(1) [OF f] f r by (cases e1) (auto simp: pt)
qed simp

section \<open>The invariant\<close>

definition producers_of :: "('b, 'a) TaskManager \<Rightarrow> (string, ChangelogProducer) gomap" where
  "producers_of tm = fold (\<lambda>(n, cl). go_set n \<lparr>cp_topic = changelog_topic (tm_appID tm) cl\<rparr>) (store_changelogs (tm_bt tm)) []"

definition stores_of :: "('b, 'a) TaskManager \<Rightarrow> 'b StoreBackend \<Rightarrow> (string, ('b, 'a) estate anystore) gomap" where
  "stores_of tm be = fold (\<lambda>(n, cl). go_set n (IsStore (lift_store (be_Store be n)))) (store_changelogs (tm_bt tm)) []"

text \<open>
  A task belongs to its partition and its executor runs the topology on the task's stores. In a
  topology with stores it has a back end, exactly one producer per store, to the topic of its
  changelog, and as its stores those of the back end and the global ones.
\<close>

definition task_ok :: "('b, 'a) TaskManager \<Rightarrow> int \<Rightarrow> ('b, 'a) task \<Rightarrow> bool" where
  "task_ok tm p t \<longleftrightarrow> tk_partition t = p \<and> x_topo (tk_executor t) = bt_Topology (tm_bt tm)
     \<and> x_stores (tk_executor t) = stores_fn (tk_stores t)
     \<and> (if store_changelogs (tm_bt tm) = [] then tk_backend t = None \<and> tk_producers t = []
        else \<exists>be. tk_backend t = Some be \<and> tk_producers t = producers_of tm
          \<and> tk_stores t = merge_stores (tm_globalStores tm) (stores_of tm be))"

definition tm_ok :: "('b, 'a) TaskManager \<Rightarrow> bool" where
  "tm_ok tm \<longleftrightarrow> go_map_ok (tm_tasks tm) \<and> (\<forall>(p, t) \<in> set (tm_tasks tm). task_ok tm p t)"

lemma task_ok_shell: "shell t' = shell t \<Longrightarrow> task_ok tm p t' = task_ok tm p t"
  by (simp add: task_ok_def shellD [of t' t])

lemma task_ok_tasks [simp]: "task_ok (tm\<lparr>tm_tasks := ts\<rparr>) p t = task_ok tm p t"
  by (simp add: task_ok_def producers_of_def stores_of_def)

lemma tm_ok_shells:
  assumes "tm_ok tm" "map (\<lambda>(p, t). (p, shell t)) ts = shells tm"
  shows "tm_ok (tm\<lparr>tm_tasks := ts\<rparr>)"
proof -
  have keys: "map fst ts = map fst (tm_tasks tm)"
    using arg_cong [OF assms(2), of "map fst"] by (simp add: shells_def comp_def case_prod_beta)
  have "task_ok tm p t" if "(p, t) \<in> set ts" for p t
  proof -
    have "(p, shell t) \<in> set (shells tm)" using that unfolding assms(2) [symmetric] by force
    then obtain t0 where "(p, t0) \<in> set (tm_tasks tm)" "shell t = shell t0" by (auto simp: shells_def)
    then show ?thesis using assms(1) task_ok_shell by (fastforce simp: tm_ok_def)
  qed
  then show ?thesis using keys assms(1) by (auto simp: tm_ok_def go_map_ok_def)
qed

section \<open>Every operation keeps the invariant\<close>

lemma NewChangelogProducer_topic: "NewChangelogProducer e brokers topic = Inr p \<Longrightarrow> p = \<lparr>cp_topic = topic\<rparr>"
  by (auto simp: NewChangelogProducer_def split: if_splits option.splits)

lemma openStore_shape:
  assumes "openStore kf c tm p be (n, cl) st = (None, st')"
  shows "op_producers st' = go_set n \<lparr>cp_topic = changelog_topic (tm_appID tm) cl\<rparr> (op_producers st)
    \<and> op_stores st' = go_set n (IsStore (lift_store (be_Store be n))) (op_stores st)"
  using assms by (auto simp: openStore_def Let_def dest!: NewChangelogProducer_topic split: sum.splits option.splits prod.splits)

lemma open_all_shape:
  assumes "until_error (openStore kf c tm p be) xs st = (None, st')"
  shows "op_producers st' = fold (\<lambda>(n, cl). go_set n \<lparr>cp_topic = changelog_topic (tm_appID tm) cl\<rparr>) xs (op_producers st)
    \<and> op_stores st' = fold (\<lambda>(n, cl). go_set n (IsStore (lift_store (be_Store be n)))) xs (op_stores st)"
  using assms
proof (induction xs arbitrary: st)
  case (Cons x xs)
  obtain n cl where x: "x = (n, cl)" by fastforce
  obtain e1 st1 where o1: "openStore kf c tm p be (n, cl) st = (e1, st1)" by fastforce
  then have "e1 = None" "until_error (openStore kf c tm p be) xs st1 = (None, st')"
    using Cons.prems by (auto simp: x split: option.splits)
  then show ?case using Cons.IH [of st1] openStore_shape [of kf c tm p be n cl st st1] o1 by (simp add: x)
qed simp

lemma tm_ok_put: "tm_ok tm \<Longrightarrow> task_ok tm p t \<Longrightarrow> tm_ok (put_task p t tm)"
  by (auto simp: tm_ok_def put_task_def) (auto simp: go_map_in_set split: if_splits)

lemma zero_store_task_ok: "store_changelogs (tm_bt tm) = [] \<Longrightarrow> task_ok tm p (zero_store_task p tm)"
  by (simp add: task_ok_def zero_store_task_def Let_def NewExecutor_def NewExecutorWithStreamTime_def)

lemma opened_task_ok:
  assumes "until_error (openStore kf c tm p be) (store_changelogs (tm_bt tm)) \<lparr>op_data = b, op_stores = [], op_producers = []\<rparr> = (None, st)"
    and "store_changelogs (tm_bt tm) \<noteq> []" "stores = merge_stores (tm_globalStores tm) (op_stores st)"
    and "x_topo ex = bt_Topology (tm_bt tm)" "x_stores ex = stores_fn stores"
  shows "task_ok tm p \<lparr>tk_backend = Some be, tk_executor = ex, tk_producers = op_producers st, tk_stores = stores,
    tk_partition = p, tk_lastSweepTime = 0\<rparr>"
  using open_all_shape [OF assms(1)] assms(2-) by (simp add: task_ok_def producers_of_def stores_of_def)

lemma openTask_ok:
  assumes ok: "tm_ok tm" and "openTask kf c p tm = (e, tm')"
  shows "tm_ok tm'"
proof (cases "tm' = tm")
  case False
  then show ?thesis
    using assms
    by (auto simp: openTask_def Let_def NewExecutor_def NewExecutorWithStreamTime_def
        intro!: tm_ok_put zero_store_task_ok opened_task_ok split: if_splits option.splits sum.splits prod.splits)
qed (simp add: ok)

lemma OnAssigned_ok:
  assumes "tm_ok tm" "OnAssigned kf c m tm = (e, tm')"
  shows "tm_ok tm'"
  using assms(2) unfolding OnAssigned_def
  by (rule until_error_inv [where P = tm_ok, rotated]) (auto simp: assms(1) split: prod.splits option.splits dest: openTask_ok)

lemma PostBatch_ok: "tm_ok tm \<Longrightarrow> PostBatch kf (tm, c) = (e, tm', c') \<Longrightarrow> tm_ok tm'"
  by (auto simp: PostBatch_def shells_def dest!: each_task_shells [OF post_batch_task_shell, rotated] intro!: tm_ok_shells split: prod.splits)

lemma PostBatchSweep_ok: "tm_ok tm \<Longrightarrow> PostBatchSweep tm = (e, tm') \<Longrightarrow> tm_ok tm'"
  by (auto simp: PostBatchSweep_def shells_def dest!: each_task_shells [OF post_sweep_task_shell, rotated] intro!: tm_ok_shells split: prod.splits)

lemma DrainChangelogRecords_ok: "tm_ok tm \<Longrightarrow> DrainChangelogRecords tm = (r, tm') \<Longrightarrow> tm_ok tm'"
  by (auto simp: DrainChangelogRecords_def shells_def dest!: each_task_shells [OF drain_task_shell, rotated] intro!: tm_ok_shells
      split: prod.splits option.splits)

lemma WriteCheckpoints_ok: "tm_ok tm \<Longrightarrow> tm_ok (WriteCheckpoints kf c tm)"
  unfolding WriteCheckpoints_def by (rule tm_ok_shells) (auto simp: shells_def split: option.split)

lemma tm_ok_delete: "tm_ok tm \<Longrightarrow> tm_ok (tm\<lparr>tm_tasks := go_delete p (tm_tasks tm)\<rparr>)"
  using go_map_ok_delete [of "tm_tasks tm" p] by (auto simp: tm_ok_def AList.delete_eq)

lemma closeTask_ok: "tm_ok (fst s) \<Longrightarrow> tm_ok (fst (closeTask kf p s))"
  by (cases s) (auto simp: closeTask_def Let_def tm_ok_delete split: option.split)

lemma OnRevoked_ok: "tm_ok (fst s) \<Longrightarrow> tm_ok (fst (OnRevoked kf m s))"
proof -
  have "tm_ok (fst (fold (closeTask kf) ps s))" if "tm_ok (fst s)" for ps s
    using that by (induction ps arbitrary: s) (simp_all add: closeTask_ok)
  then show "tm_ok (fst s) \<Longrightarrow> tm_ok (fst (OnRevoked kf m s))" by (simp add: OnRevoked_def)
qed

lemma get_Executor_ok: "tm_ok tm \<Longrightarrow> get_Executor p tm = (x, tm') \<Longrightarrow> tm_ok tm'"
  by (auto simp: get_Executor_def intro!: tm_ok_put zero_store_task_ok split: option.splits if_splits)

section \<open>The manager as a state machine\<close>

text \<open>
  What happens to a task manager: the calls of the Kafka client and of the adapter, records that
  change the state of a task's executor in whatever way, and writes of others to the cluster.
\<close>

inductive tm_step :: "'c Kafka \<Rightarrow> ('b, 'a) TaskManager \<times> 'c \<Rightarrow> ('b, 'a) TaskManager \<times> 'c \<Rightarrow> bool" for kf where
  assign: "OnAssigned kf c m tm = (e, tm') \<Longrightarrow> tm_step kf (tm, c) (tm', c)"
| revoke: "tm_step kf s (OnRevoked kf m s)"
| post_batch: "PostBatch kf s = (e, s') \<Longrightarrow> tm_step kf s s'"
| post_sweep: "PostBatchSweep tm = (e, tm') \<Longrightarrow> tm_step kf (tm, c) (tm', c)"
| drain: "DrainChangelogRecords tm = (r, tm') \<Longrightarrow> tm_step kf (tm, c) (tm', c)"
| checkpoints: "tm_step kf (tm, c) (WriteCheckpoints kf c tm, c)"
| executor: "get_Executor p tm = (x, tm') \<Longrightarrow> tm_step kf (tm, c) (tm', c)"
| process: "go_get (tm_tasks tm) p = Some t \<Longrightarrow> tm_step kf (tm, c) (put_task p (set_estate u t) tm, c)"
| cluster: "tm_step kf (tm, c) (tm, c')"

inductive tm_reachable :: "'c Kafka \<Rightarrow> ('b, 'a) TaskManager \<Rightarrow> ('b, 'a) TaskManager \<times> 'c \<Rightarrow> bool" for kf tm0 where
  start: "tm_reachable kf tm0 (tm0, c)"
| step: "tm_reachable kf tm0 s \<Longrightarrow> tm_step kf s s' \<Longrightarrow> tm_reachable kf tm0 s'"

text \<open>The global stores are registered before the first assignment and have names of their own.\<close>

definition with_globals :: "(string \<times> ('b, 'a) estate anystore) list \<Rightarrow> ('b, 'a) TaskManager \<Rightarrow> ('b, 'a) TaskManager" where
  "with_globals gs tm = fold (\<lambda>(n, st). RegisterGlobalStore n st) gs tm"

definition no_shadow :: "('b, 'a) TaskManager \<Rightarrow> bool" where
  "no_shadow tm \<longleftrightarrow> fst ` set (tm_globalStores tm) \<inter> fst ` set (store_changelogs (tm_bt tm)) = {}"

definition same_setup where
  "same_setup tm tm' \<longleftrightarrow> tm_globalStores tm' = tm_globalStores tm \<and> tm_bt tm' = tm_bt tm \<and> tm_cfg tm' = tm_cfg tm
     \<and> tm_appID tm' = tm_appID tm"

lemma same_setup_refl [simp]: "same_setup tm tm" "same_setup tm (tm\<lparr>tm_tasks := ts\<rparr>)" "same_setup tm (put_task p t tm)"
  by (simp_all add: same_setup_def put_task_def)

lemma same_setup_trans: "same_setup a b \<Longrightarrow> same_setup b c \<Longrightarrow> same_setup a c"
  by (simp add: same_setup_def)

lemma openTask_setup: "openTask kf c p tm = (e, tm') \<Longrightarrow> same_setup tm tm'"
  by (auto simp: openTask_def Let_def split: if_splits option.splits sum.splits prod.splits)

lemma OnAssigned_setup: "OnAssigned kf c m tm = (e, tm') \<Longrightarrow> same_setup tm tm'"
  unfolding OnAssigned_def
  by (erule until_error_inv [where P = "same_setup tm", rotated])
    (auto dest!: openTask_setup intro: same_setup_trans split: prod.splits option.splits)

lemma closeTask_setup: "same_setup (fst s) (fst (closeTask kf p s))"
  by (cases s) (auto simp: closeTask_def Let_def split: option.split)

lemma OnRevoked_setup: "same_setup (fst s) (fst (OnRevoked kf m s))"
proof -
  have "same_setup (fst s) (fst (fold (closeTask kf) ps s))" for ps s
  proof (induction ps arbitrary: s)
    case (Cons p ps)
    then show ?case using same_setup_trans [OF closeTask_setup] by (metis fold_simps(2))
  qed simp
  then show ?thesis by (simp add: OnRevoked_def)
qed

lemma tm_step_ok:
  assumes "tm_step kf s s'" "tm_ok (fst s)"
  shows "tm_ok (fst s') \<and> same_setup (fst s) (fst s')"
  using assms
proof (induction rule: tm_step.induct)
  case (assign c m tm e tm')
  then show ?case by (simp add: OnAssigned_ok OnAssigned_setup)
next
  case (revoke s m)
  then show ?case by (simp add: OnRevoked_ok OnRevoked_setup)
next
  case (post_batch s e s')
  then show ?case
    by (cases s; cases s') (auto simp: PostBatch_ok, auto simp: PostBatch_def split: prod.splits)
next
  case (post_sweep tm e tm' c)
  then show ?case by (auto simp: PostBatchSweep_ok) (auto simp: PostBatchSweep_def split: prod.splits)
next
  case (drain tm r tm' c)
  then show ?case by (auto simp: DrainChangelogRecords_ok) (auto simp: DrainChangelogRecords_def split: prod.splits option.splits)
next
  case (checkpoints tm c)
  then show ?case by (simp add: WriteCheckpoints_ok) (simp add: WriteCheckpoints_def)
next
  case (executor p tm x tm' c)
  then show ?case by (auto simp: get_Executor_ok) (auto simp: get_Executor_def split: option.splits if_splits)
next
  case (process tm p t c u)
  then have "task_ok tm p t" by (auto simp: tm_ok_def dest: map_of_SomeD)
  then have "task_ok tm p (set_estate u t)" using task_ok_shell [OF shell_updates(1)] by blast
  then show ?case using process by (simp add: tm_ok_put)
qed simp

lemma tm_reachable_ok:
  assumes "tm_reachable kf tm0 s" "tm_ok tm0"
  shows "tm_ok (fst s) \<and> same_setup tm0 (fst s)"
  using assms
proof (induction rule: tm_reachable.induct)
  case (step s s')
  then show ?case using tm_step_ok [of kf s s'] by (meson same_setup_trans)
qed simp

lemma new_tm_ok: "tm_ok (with_globals gs (NewTaskManager bt cfg d))"
proof -
  have "tm_tasks (with_globals gs tm) = tm_tasks tm" for tm
    by (induction gs arbitrary: tm) (auto simp: with_globals_def RegisterGlobalStore_def)
  then show ?thesis by (simp add: tm_ok_def NewTaskManager_def)
qed

section \<open>The stores of a task are found\<close>

lemma merge_stores_other: "n \<notin> fst ` set gs \<Longrightarrow> go_get (merge_stores gs st) n = go_get st n"
  by (induction gs arbitrary: st) (auto simp: merge_stores_def)

lemma fold_set_get:
  "go_get (fold (\<lambda>(n, cl). go_set n (f n)) xs m) n = (if n \<in> fst ` set xs then Some (f n) else go_get m n)"
  by (induction xs arbitrary: m) auto

lemma fold_set_values: "(n, v) \<in> set (fold (\<lambda>(n, cl). go_set n (f n cl)) xs m) \<Longrightarrow> (\<exists>cl. (n, cl) \<in> set xs \<and> v = f n cl) \<or> (n, v) \<in> set m"
proof (induction xs arbitrary: m)
  case (Cons x xs)
  obtain n' cl where x: "x = (n', cl)" by fastforce
  have "(n, v) \<in> set (go_set n' (f n' cl) m) \<Longrightarrow> n = n' \<and> v = f n' cl \<or> (n, v) \<in> set m"
    by (induction m) (auto split: if_splits)
  then show ?case using Cons.IH [of "go_set n' (f n' cl) m"] Cons.prems by (auto simp: x)
qed simp

lemma producers_of_in:
  assumes "(n, producer) \<in> set (producers_of tm)"
  obtains cl where "(n, cl) \<in> set (store_changelogs (tm_bt tm))" "producer = \<lparr>cp_topic = changelog_topic (tm_appID tm) cl\<rparr>"
  using fold_set_values [of n producer "\<lambda>n cl. \<lparr>cp_topic = changelog_topic (tm_appID tm) cl\<rparr>" "store_changelogs (tm_bt tm)" "[]"] assms
  by (auto simp: producers_of_def)

lemma store_found:
  assumes "no_shadow tm" "n \<in> fst ` set (store_changelogs (tm_bt tm))" "tk_stores t = merge_stores (tm_globalStores tm) (stores_of tm be)"
  shows "stores_fn (tk_stores t) n = IsStore (lift_store (be_Store be n))"
proof -
  have "n \<notin> fst ` set (tm_globalStores tm)" using assms(1,2) by (auto simp: no_shadow_def)
  then have "go_get (tk_stores t) n = Some (IsStore (lift_store (be_Store be n)))"
    using assms(2) by (simp add: assms(3) merge_stores_other stores_of_def fold_set_get)
  then show ?thesis by (simp add: stores_fn_def)
qed

text \<open>A task with a back end: its stores are those of the back end.\<close>

lemma stateful_task:
  assumes "task_ok tm p t" "no_shadow tm" "tk_backend t = Some be"
  shows "tk_producers t = producers_of tm" "tk_partition t = p"
    "\<And>n producer. (n, producer) \<in> set (tk_producers t) \<Longrightarrow> stores_fn (tk_stores t) n = IsStore (lift_store (be_Store be n))"
    "\<And>n. n \<in> fst ` set (store_changelogs (tm_bt tm)) \<Longrightarrow> stores_fn (tk_stores t) n = IsStore (lift_store (be_Store be n))"
proof -
  have t: "tk_producers t = producers_of tm" "tk_stores t = merge_stores (tm_globalStores tm) (stores_of tm be)" "tk_partition t = p"
    using assms(1,3) by (auto simp: task_ok_def split: if_splits)
  then show "tk_producers t = producers_of tm" "tk_partition t = p" by simp_all
  show found: "stores_fn (tk_stores t) n = IsStore (lift_store (be_Store be n))" if "n \<in> fst ` set (store_changelogs (tm_bt tm))" for n
    using store_found [OF assms(2) that t(2)] .
  show "stores_fn (tk_stores t) n = IsStore (lift_store (be_Store be n))" if mem: "(n, producer) \<in> set (tk_producers t)" for n producer
    by (rule producers_of_in [OF mem [unfolded t(1)]]) (force intro: found)
qed

section \<open>Draining the changelogs\<close>

text \<open>What a task hands out: for each store the pending mutations, encoded for the task's partition.\<close>

fun task_records :: "('b, 'a) task \<Rightarrow> (string \<times> ChangelogProducer) list \<Rightarrow> OutRecord list \<times> ('b, 'a) task" where
  "task_records t [] = ([], t)"
| "task_records t ((n, producer) # ps) =
     (case stores_fn (tk_stores t) n of
        IsStore store \<Rightarrow> (case drain_store store t of (muts, t1) \<Rightarrow>
          (case task_records t1 ps of (out, t2) \<Rightarrow> (Encode producer (tk_partition t) muts @ out, t2)))
      | _ \<Rightarrow> ([], t))"

definition all_stores :: "('b, 'a) task \<Rightarrow> (string \<times> ChangelogProducer) list \<Rightarrow> bool" where
  "all_stores t ps \<longleftrightarrow> (\<forall>(n, producer) \<in> set ps. \<exists>store. stores_fn (tk_stores t) n = IsStore store)"

lemma all_stores_shell: "shell t' = shell t \<Longrightarrow> all_stores t' ps = all_stores t ps"
  by (simp add: all_stores_def shellD [of t' t])

lemma until_encode:
  "all_stores t ps \<Longrightarrow> until_error encode_store ps (t, out) = (None, snd (task_records t ps), out @ fst (task_records t ps))"
proof (induction t ps arbitrary: out rule: task_records.induct)
  case (2 t n producer ps)
  then obtain store where st: "stores_fn (tk_stores t) n = IsStore store" by (auto simp: all_stores_def)
  obtain muts t1 where d: "drain_store store t = (muts, t1)" by fastforce
  have "all_stores t1 ps" using 2(2) all_stores_shell [OF drain_store_shell [OF d]] by (simp add: all_stores_def)
  then show ?case using 2(1) [OF st d [symmetric]] st d by (simp add: encode_store_def Encode_def split: prod.split)
qed simp

lemma task_records_out:
  "r \<in> set (fst (task_records t ps)) \<Longrightarrow> \<exists>(n, producer) \<in> set ps. out_Topic r = cp_topic producer \<and> out_Partition r = NilOf (tk_partition t)"
proof (induction t ps rule: task_records.induct)
  case (2 t n producer ps)
  then obtain store where st: "stores_fn (tk_stores t) n = IsStore store" by (auto split: anystore.splits)
  obtain muts t1 where d: "drain_store store t = (muts, t1)" by fastforce
  have "tk_partition t1 = tk_partition t" using shellD(4) [OF drain_store_shell [OF d]] .
  then show ?case using 2(1) [OF st d [symmetric]] 2(2) st d by (auto simp: Encode_def split: prod.splits)
qed simp

definition pending_records :: "('b, 'a) task \<Rightarrow> OutRecord list" where
  "pending_records t = (case tk_backend t of None \<Rightarrow> [] | Some be \<Rightarrow> fst (task_records t (tk_producers t)))"

definition drained :: "('b, 'a) task \<Rightarrow> ('b, 'a) task" where
  "drained t = (case tk_backend t of None \<Rightarrow> t | Some be \<Rightarrow> snd (task_records t (tk_producers t)))"

definition can_drain :: "('b, 'a) task \<Rightarrow> bool" where
  "can_drain t \<longleftrightarrow> tk_backend t = None \<or> all_stores t (tk_producers t)"

lemma drain_task_records: "can_drain t \<Longrightarrow> drain_task p (t, out) = (None, drained t, out @ pending_records t)"
  by (auto simp: drain_task_def drained_def pending_records_def can_drain_def until_encode split: option.split)

lemma each_drain:
  "(\<And>p t. (p, t) \<in> set ts \<Longrightarrow> can_drain t) \<Longrightarrow>
   each_task drain_task ts out = (None, map (\<lambda>(p, t). (p, drained t)) ts, out @ concat (map (\<lambda>(p, t). pending_records t) ts))"
proof (induction ts arbitrary: out)
  case (Cons pt ts)
  obtain p t where pt: "pt = (p, t)" by fastforce
  have "can_drain t" using Cons.prems pt by (metis list.set_intros(1))
  moreover have "each_task drain_task ts (out @ pending_records t)
      = (None, map (\<lambda>(p, t). (p, drained t)) ts, (out @ pending_records t) @ concat (map (\<lambda>(p, t). pending_records t) ts))"
    by (rule Cons.IH) (use Cons.prems in \<open>metis list.set_intros(2)\<close>)
  ultimately show ?case by (simp add: pt drain_task_records)
qed simp

lemma task_can_drain: "task_ok tm p t \<Longrightarrow> no_shadow tm \<Longrightarrow> can_drain t"
  using stateful_task(3) [of tm p t] by (cases "tk_backend t") (auto simp: can_drain_def all_stores_def)

lemma drain_exact:
  assumes "tm_ok tm" "no_shadow tm"
  shows "DrainChangelogRecords tm = (Inr (concat (map (\<lambda>(p, t). pending_records t) (tm_tasks tm))),
    tm\<lparr>tm_tasks := map (\<lambda>(p, t). (p, drained t)) (tm_tasks tm)\<rparr>)"
proof -
  have "can_drain t" if "(p, t) \<in> set (tm_tasks tm)" for p t
    using that assms task_can_drain by (fastforce simp: tm_ok_def)
  from each_drain [OF this] show ?thesis by (simp add: DrainChangelogRecords_def)
qed

lemma pending_records_topics:
  assumes "task_ok tm p t" "no_shadow tm" "r \<in> set (pending_records t)"
  shows "out_Partition r = NilOf p \<and> (\<exists>(n, cl) \<in> set (store_changelogs (tm_bt tm)). out_Topic r = changelog_topic (tm_appID tm) cl)"
proof -
  obtain be where be: "tk_backend t = Some be" using assms(3) by (cases "tk_backend t") (auto simp: pending_records_def)
  note t = stateful_task [OF assms(1,2) be]
  obtain n producer where "(n, producer) \<in> set (producers_of tm)" "out_Topic r = cp_topic producer" "out_Partition r = NilOf p"
    using task_records_out [of r t "tk_producers t"] assms(3) t(1,2) by (auto simp: pending_records_def be)
  then show ?thesis by (elim producers_of_in) force
qed

text \<open>
  The specification of a drain: the stores of a back end drained one after the other, and the
  changelog of a task, in which every mutation of a store becomes one record for the topic of that
  store, pinned to the partition under which the task is registered.
\<close>

fun drain_stores :: "'b StoreBackend \<Rightarrow> string list \<Rightarrow> 'b \<Rightarrow> StoreMutation list list \<times> 'b" where
  "drain_stores be [] d = ([], d)"
| "drain_stores be (n # ns) d =
     (case DrainMutations (be_Store be n) d of (muts, d1) \<Rightarrow>
       (case drain_stores be ns d1 of (mutss, d2) \<Rightarrow> (muts # mutss, d2)))"

definition changelog_records :: "string \<Rightarrow> int \<Rightarrow> StoreMutation list \<Rightarrow> OutRecord list" where
  "changelog_records topic p muts =
     map (\<lambda>m. \<lparr>out_Topic = topic, out_Key = m_Key m, out_Value = m_Value m, out_Partition = NilOf p\<rparr>) muts"

definition task_changelog :: "('b, 'a) TaskManager \<Rightarrow> int \<Rightarrow> ('b, 'a) task \<Rightarrow> OutRecord list" where
  "task_changelog tm p t =
     (case tk_backend t of None \<Rightarrow> [] | Some be \<Rightarrow>
        concat (map (\<lambda>((n, producer), muts). changelog_records (cp_topic producer) p muts)
          (zip (producers_of tm) (fst (drain_stores be (map fst (producers_of tm)) (tk_data t))))))"

definition drained_data :: "('b, 'a) TaskManager \<Rightarrow> ('b, 'a) task \<Rightarrow> 'b" where
  "drained_data tm t =
     (case tk_backend t of None \<Rightarrow> tk_data t | Some be \<Rightarrow> snd (drain_stores be (map fst (producers_of tm)) (tk_data t)))"

lemma task_records_spec:
  assumes "\<And>n producer. (n, producer) \<in> set ps \<Longrightarrow> stores_fn (tk_stores t) n = IsStore (lift_store (be_Store be n))"
  shows "fst (task_records t ps) = concat (map (\<lambda>((n, producer), muts). changelog_records (cp_topic producer) (tk_partition t) muts)
          (zip ps (fst (drain_stores be (map fst ps) (tk_data t)))))
    \<and> tk_data (snd (task_records t ps)) = snd (drain_stores be (map fst ps) (tk_data t))"
  using assms
proof (induction ps arbitrary: t)
  case (Cons x ps)
  obtain n producer where x: "x = (n, producer)" by fastforce
  have st: "stores_fn (tk_stores t) n = IsStore (lift_store (be_Store be n))" by (rule Cons.prems [of n producer]) (simp add: x)
  obtain muts t1 where d: "drain_store (lift_store (be_Store be n)) t = (muts, t1)" by fastforce
  have t1: "tk_stores t1 = tk_stores t" "tk_partition t1 = tk_partition t"
    using shellD [OF drain_store_shell [OF d]] by simp_all
  have data: "DrainMutations (be_Store be n) (tk_data t) = (muts, tk_data t1)"
    using d by (auto simp: drain_store_def lift_store_def lift_update_def tk_data_def set_estate_def split: prod.splits)
  have "fst (task_records t1 ps) = concat (map (\<lambda>((n, producer), muts). changelog_records (cp_topic producer) (tk_partition t) muts)
          (zip ps (fst (drain_stores be (map fst ps) (tk_data t1)))))
      \<and> tk_data (snd (task_records t1 ps)) = snd (drain_stores be (map fst ps) (tk_data t1))"
    using Cons.IH [of t1] Cons.prems t1 by (metis list.set_intros(2))
  then show ?case
    using st d data x by (auto simp: Encode_def changelog_records_def split: prod.splits)
qed simp

lemma pending_records_spec:
  assumes "task_ok tm p t" "no_shadow tm"
  shows "pending_records t = task_changelog tm p t \<and> tk_data (drained t) = drained_data tm t"
proof (cases "tk_backend t")
  case None
  then show ?thesis by (simp add: pending_records_def task_changelog_def drained_def drained_data_def)
next
  case (Some be)
  note t = stateful_task [OF assms Some]
  show ?thesis
    using task_records_spec [of "tk_producers t" t be, OF t(3)] Some t(1,2)
    by (simp add: pending_records_def task_changelog_def drained_def drained_data_def)
qed

lemma producers_of_names: "fst ` set (producers_of tm) = fst ` set (store_changelogs (tm_bt tm))"
proof -
  have "fst ` set (fold (\<lambda>(n, cl). go_set n (f n cl)) xs m) = fst ` set xs \<union> fst ` set m"
    for f :: "string \<Rightarrow> string \<Rightarrow> ChangelogProducer" and xs m
    by (induction xs arbitrary: m) (simp_all add: keys_update case_prod_beta)
  then show ?thesis by (simp add: producers_of_def)
qed

section \<open>The two ways to the changelog\<close>

text \<open>Draining a store and persisting the stream-time do not interfere.\<close>

locale drain_backend =
  fixes be :: "'b StoreBackend"
  assumes drain_law: "DrainMutations (be_Store be n) b = (muts, b') \<Longrightarrow>
    DrainMutations (be_Store be n) (snd (be_WriteStreamTime be ts b)) = (muts, snd (be_WriteStreamTime be ts b'))"
begin

lemma drain_write:
  assumes "drain_store (lift_store (be_Store be n)) t = (muts, t')"
  shows "drain_store (lift_store (be_Store be n)) (write_stream_time bt be t) = (muts, write_stream_time bt be t')"
proof -
  let ?s = "x_state (tk_executor t)"
  obtain b' where d: "DrainMutations (be_Store be n) (es_data ?s) = (muts, b')" and t': "t' = set_data b' t"
    using assms by (auto simp: drain_store_def lift_store_def lift_update_def set_data_def set_estate_def split: prod.splits)
  show ?thesis
    using d drain_law [OF d]
    by (auto simp: t' write_stream_time_def drain_store_def lift_store_def lift_update_def set_data_def set_estate_def
        tk_streamTime_def tk_data_def ctx_StreamTime_def)
qed

lemma task_records_write:
  assumes "\<And>n producer. (n, producer) \<in> set ps \<Longrightarrow> stores_fn (tk_stores t) n = IsStore (lift_store (be_Store be n))"
  shows "task_records (write_stream_time bt be t) ps
    = (fst (task_records t ps), write_stream_time bt be (snd (task_records t ps)))"
  using assms
proof (induction t ps rule: task_records.induct)
  case (2 t n producer ps)
  obtain muts t1 where d: "drain_store (lift_store (be_Store be n)) t = (muts, t1)" by fastforce
  note sh = shellD [OF drain_store_shell [OF d]] shellD [OF write_stream_time_shell, of bt be t]
  have st: "stores_fn (tk_stores t) n = IsStore (lift_store (be_Store be n))" using 2(2) by (metis list.set_intros(1))
  have "task_records (write_stream_time bt be t1) ps = (fst (task_records t1 ps), write_stream_time bt be (snd (task_records t1 ps)))"
    using 2(1) [OF st d [symmetric]] 2(2) sh by (metis list.set_intros(2))
  then show ?case using st d drain_write [OF d, of bt] sh by (simp split: prod.split)
qed simp

end

interpretation mem_drain: drain_backend mem_backend
  by unfold_locales (auto simp: mem_backend_def mem_store_def on_db_def mb_update_def kv_DrainMutations_def DB_WriteStreamTime_def
      split: option.splits prod.splits)

interpretation peb_drain: drain_backend "peb_backend closeDB D" for closeDB D
  by unfold_locales (auto simp: peb_backend_def peb_store_def on_pdb_def peb_update_def pkv_DrainMutations_def Collector_Drain_def
      split: option.splits prod.splits)

lemma outRecordsToKgo_append [simp]: "outRecordsToKgo (a @ b) = outRecordsToKgo a @ outRecordsToKgo b"
  by (simp add: outRecordsToKgo_def)

text \<open>A cluster on which producing without an error appends the records to a log.\<close>

definition appends :: "'c Kafka \<Rightarrow> ('c \<Rightarrow> KRecord list) \<Rightarrow> bool" where
  "appends kf log \<longleftrightarrow> (\<forall>recs c res c'. kf_produce kf recs c = (res, c') \<longrightarrow> first_err res = None \<longrightarrow> log c' = log c @ recs)"

lemma Flush_appends:
  assumes "appends kf log" "Flush (kf_produce kf) producer p muts c = (None, c')"
  shows "log c' = log c @ outRecordsToKgo (Encode producer p muts)"
proof (cases "muts = []")
  case True
  then show ?thesis using assms(2) by (simp add: Flush_def Encode_def outRecordsToKgo_def)
next
  case False
  then show ?thesis using assms
    by (auto simp: Flush_def Let_def flush_records appends_def split: prod.splits option.splits)
qed

lemma until_flush:
  assumes "appends kf log"
  shows "until_error (flush_store kf (tk_partition t)) ps (t, c) = (None, t', c') \<Longrightarrow>
    t' = snd (task_records t ps) \<and> log c' = log c @ outRecordsToKgo (fst (task_records t ps))"
proof (induction t ps arbitrary: c rule: task_records.induct)
  case (1 t)
  then show ?case by (simp add: outRecordsToKgo_def)
next
  case (2 t n producer ps)
  then obtain store where st: "stores_fn (tk_stores t) n = IsStore store"
    by (cases "stores_fn (tk_stores t) n") (auto simp: flush_store_def)
  obtain muts t1 where d: "drain_store store t = (muts, t1)" by fastforce
  have part: "tk_partition t1 = tk_partition t" using shellD(4) [OF drain_store_shell [OF d]] .
  obtain e c1 where f: "Flush (kf_produce kf) producer (tk_partition t) muts c = (e, c1)" by fastforce
  have e: "e = None" and rest: "until_error (flush_store kf (tk_partition t1)) ps (t1, c1) = (None, t', c')"
    using 2(2) f st d part by (auto simp: flush_store_def Flush_def split: if_splits option.splits)
  show ?case using 2(1) [OF st d [symmetric] rest] Flush_appends [OF assms f [unfolded e]] st d
    by (simp split: prod.split)
qed

lemma post_batch_task_agrees:
  assumes app: "appends kf log" and t: "task_ok tm p t" "no_shadow tm" and be: "\<And>be. tk_backend t = Some be \<Longrightarrow> drain_backend be"
    and post: "post_batch_task kf (tm_bt tm) p (t, c) = (None, t', c')"
  shows "\<exists>t1. post_sweep_task (tm_bt tm) p (t, ()) = (None, t1, ()) \<and> shell t1 = shell t \<and> t' = drained t1
    \<and> log c' = log c @ outRecordsToKgo (pending_records t1)"
proof (cases "tk_backend t")
  case None
  then show ?thesis using post by (auto simp: post_batch_task_def post_sweep_task_def drained_def pending_records_def outRecordsToKgo_def)
next
  case (Some be)
  obtain e1 t1 where sw: "sweep_task (tm_bt tm) ''TaskManager.PostBatch: sweep'' t = (e1, t1)" by fastforce
  have e1: "e1 = None" using post sw Some by (cases e1) (auto simp: post_batch_task_def)
  have sh: "shell t1 = shell t" using sweep_task_shell [OF sw] .
  have t1: "task_ok tm p t1" "tk_backend t1 = Some be" using task_ok_shell [OF sh] t(1) shellD(1) [OF sh] Some by simp_all
  note st = stateful_task [OF t1(1) t(2) t1(2)]
  obtain t2 where fl: "until_error (flush_store kf p) (tk_producers t1) (t1, c) = (None, t2, c')" "t' = write_stream_time (tm_bt tm) be t2"
    using post sw e1 Some by (auto simp: post_batch_task_def split: prod.splits option.splits)
  have t2: "t2 = snd (task_records t1 (tk_producers t1))" "log c' = log c @ outRecordsToKgo (fst (task_records t1 (tk_producers t1)))"
    using until_flush [OF app, of t1 "tk_producers t1" c t2 c'] fl(1) st(2) by simp_all
  let ?w = "write_stream_time (tm_bt tm) be t1"
  note sw1 = shellD [OF write_stream_time_shell, of "tm_bt tm" be t1]
  have rec: "task_records ?w (tk_producers t1) = (fst (task_records t1 (tk_producers t1)), t')"
    using drain_backend.task_records_write [OF be [OF Some], of "tk_producers t1" t1 "tm_bt tm"] st(3) t2(1) fl(2) by simp
  have "sweep_task (tm_bt tm) ''TaskManager.PostBatchSweep: sweep'' t = (None, t1)"
    using sw e1 by (auto simp: sweep_task_def split: if_splits prod.splits option.splits)
  then have "post_sweep_task (tm_bt tm) p (t, ()) = (None, ?w, ())" using Some by (simp add: post_sweep_task_def)
  moreover have "drained ?w = t'" "pending_records ?w = fst (task_records t1 (tk_producers t1))"
    using rec t1(2) sw1 by (simp_all add: drained_def pending_records_def)
  ultimately show ?thesis using t2(2) sh by (intro exI [of _ ?w]) simp
qed

lemma post_batch_tasks_agree:
  assumes app: "appends kf log" and "no_shadow tm"
  shows "(\<And>p t. (p, t) \<in> set ts \<Longrightarrow> task_ok tm p t \<and> (\<forall>be. tk_backend t = Some be \<longrightarrow> drain_backend be)) \<Longrightarrow>
    each_task (post_batch_task kf (tm_bt tm)) ts c = (None, ts', c') \<Longrightarrow>
    \<exists>ts1. each_task (post_sweep_task (tm_bt tm)) ts () = (None, ts1, ()) \<and> ts' = map (\<lambda>(p, t). (p, drained t)) ts1
      \<and> log c' = log c @ outRecordsToKgo (concat (map (\<lambda>(p, t). pending_records t) ts1))"
proof (induction ts arbitrary: c ts')
  case Nil
  then show ?case by (simp add: outRecordsToKgo_def)
next
  case (Cons pt ts)
  obtain p t where pt: "pt = (p, t)" by fastforce
  obtain e1 t1 c1 where f: "post_batch_task kf (tm_bt tm) p (t, c) = (e1, t1, c1)" by (metis prod_cases3)
  obtain ts2 where r: "e1 = None" "each_task (post_batch_task kf (tm_bt tm)) ts c1 = (None, ts2, c')" "ts' = (p, t1) # ts2"
    using Cons.prems(2) f by (auto simp: pt split: option.splits prod.splits)
  have t: "task_ok tm p t" "\<And>be. tk_backend t = Some be \<Longrightarrow> drain_backend be" using Cons.prems(1) pt by (metis list.set_intros(1))+
  obtain u where u: "post_sweep_task (tm_bt tm) p (t, ()) = (None, u, ())" "t1 = drained u"
      "log c1 = log c @ outRecordsToKgo (pending_records u)"
    using post_batch_task_agrees [OF app t(1) assms(2) t(2)] f r(1) by blast
  obtain us where "each_task (post_sweep_task (tm_bt tm)) ts () = (None, us, ())" "ts2 = map (\<lambda>(p, t). (p, drained t)) us"
      "log c' = log c1 @ outRecordsToKgo (concat (map (\<lambda>(p, t). pending_records t) us))"
    using Cons.IH [OF _ r(2)] Cons.prems(1) by (metis list.set_intros(2))
  then show ?case using u r by (intro exI [of _ "(p, u) # us"]) (simp add: pt)
qed

section \<open>Assigning a partition restores its stores\<close>

text \<open>
  The cluster serves the changelog of a store for a back end in state \<open>b\<close>: from the first offset
  after the store's checkpoint, it delivers the records \<open>recs\<close>, all of them keys of the store.
\<close>

definition changelog_served :: "Cluster \<Rightarrow> string \<Rightarrow> int \<Rightarrow> (string \<rightharpoonup> int) \<Rightarrow> (string \<Rightarrow> KRecord list) \<Rightarrow> string \<times> string \<Rightarrow> bool" where
  "changelog_served cl appID part ckpt recs = (\<lambda>(n, name).
     let topic = changelog_topic appID name; cp = (case ckpt n of None \<Rightarrow> -1 | Some cp \<Rightarrow> cp) in
     store_name_ok n \<and> -1 \<le> cp \<and> cp < MaxInt64 \<and> (\<forall>r \<in> set (recs n). prefix (name_prefix n) (k_Key r))
     \<and> (\<exists>hw earliest. fetchHighWatermark cl topic part = Inr hw \<and> fetchEarliestOffset cl topic part = Inr earliest \<and> is_i64 hw
          \<and> (if max earliest (cp + 1) < hw then serves cl topic part (max earliest (cp + 1)) hw (recs n) else recs n = [])))"

definition replay :: "(string \<Rightarrow> KRecord list) \<Rightarrow> string \<Rightarrow> (bytes \<rightharpoonup> bytes) \<Rightarrow> bytes \<rightharpoonup> bytes" where
  "replay recs n m = fold mutate (map record_mutation (recs n)) m"

context open_backend
begin

lemma openStore_restores:
  assumes served: "changelog_served (kf_cluster kf c) (tm_appID tm) p (ckpt (op_data st)) recs (n, cl)"
    and ok: "okb (op_data st)" and cfg: "cf_Brokers (tm_cfg tm) \<noteq> []" "kf_newProducer kf (changelog_topic (tm_appID tm) cl) = None"
  shows "\<exists>st'. openStore kf c tm p be (n, cl) st = (None, st') \<and> okb (op_data st') \<and> stime (op_data st') = stime (op_data st)
    \<and> raw (op_data st') = replay recs n (raw (op_data st)) \<and> (\<forall>n'. n' \<noteq> n \<longrightarrow> ckpt (op_data st') n' = ckpt (op_data st) n')"
proof -
  let ?b = "op_data st" and ?topic = "changelog_topic (tm_appID tm) cl" and ?cl = "kf_cluster kf c"
  define cp where "cp = (case ckpt ?b n of None \<Rightarrow> -1 | Some cp \<Rightarrow> cp)"
  have n: "store_name_ok n" "n \<noteq> []" and cp: "-1 \<le> cp" "cp < MaxInt64" and keys: "\<forall>r \<in> set (recs n). prefix (name_prefix n) (k_Key r)"
    using served by (auto simp: changelog_served_def Let_def cp_def store_name_ok_def)
  obtain hw earliest where hw: "fetchHighWatermark ?cl ?topic p = Inr hw" "fetchEarliestOffset ?cl ?topic p = Inr earliest" "is_i64 hw"
    and sv: "if max earliest (cp + 1) < hw then serves ?cl ?topic p (max earliest (cp + 1)) hw (recs n) else recs n = []"
    using served by (auto simp: changelog_served_def Let_def cp_def)
  have topic: "?topic \<noteq> []" by (simp add: changelog_topic_def)
  have data: "\<forall>r \<in> set (recs n). data_key (k_Key r)"
    using keys data_key_store [OF n(1)] by (auto simp: prefix_def)
  obtain b' where b': "RestoreFromChangelog ?cl (cf_Brokers (tm_cfg tm)) ?topic p cp be n ?b = (Some (Inr hw), b')" "okb b'" "stime b' = stime ?b"
      "max earliest (cp + 1) < hw \<longrightarrow> raw b' = replay recs n (raw ?b) \<and> (\<exists>x. ckpt b' = (ckpt ?b)(n \<mapsto> x))"
      "hw \<le> max earliest (cp + 1) \<longrightarrow> b' = ?b"
    using restore_replays_changelog' [OF state_backend_axioms ok cfg(1) topic n(2) hw cp refl _ data] sv unfolding replay_def
    by (auto split: if_splits)
  have raw': "raw b' = replay recs n (raw ?b)" "\<forall>n'. n' \<noteq> n \<longrightarrow> ckpt b' n' = ckpt ?b n'"
    using b'(4,5) sv by (auto simp: replay_def not_less split: if_splits)
  obtain e b'' where o': "be_OpenStore be n True b' = (e, b'')" by fastforce
  note op = open_law [OF b'(2) n(2) o']
  have rc: "be_ReadCheckpoint be n ?b = Inr (ckpt ?b n)" using read_ckpt_law [OF ok] .
  have pr: "NewChangelogProducer None (cf_Brokers (tm_cfg tm)) ?topic = Inr \<lparr>cp_topic = ?topic\<rparr>"
    using cfg(1) topic by (simp add: NewChangelogProducer_def)
  show ?thesis
    using op o' rc pr b'(1) cfg(2) raw' b'(3)
    by (simp add: openStore_def Let_def restore_def cp_def [symmetric])
qed

lemma open_all_restores:
  assumes "distinct (map fst xs)" "okb (op_data st)" "cf_Brokers (tm_cfg tm) \<noteq> []"
    and "\<And>n cl. (n, cl) \<in> set xs \<Longrightarrow> changelog_served (kf_cluster kf c) (tm_appID tm) p (ckpt (op_data st)) recs (n, cl)
      \<and> kf_newProducer kf (changelog_topic (tm_appID tm) cl) = None"
  shows "\<exists>st'. until_error (openStore kf c tm p be) xs st = (None, st') \<and> okb (op_data st') \<and> stime (op_data st') = stime (op_data st)
    \<and> raw (op_data st') = fold (\<lambda>(n, cl). replay recs n) xs (raw (op_data st))"
  using assms
proof (induction xs arbitrary: st)
  case (Cons x xs)
  obtain n cl where x: "x = (n, cl)" by fastforce
  have sv: "changelog_served (kf_cluster kf c) (tm_appID tm) p (ckpt (op_data st)) recs (n, cl)"
    "kf_newProducer kf (changelog_topic (tm_appID tm) cl) = None"
    using Cons.prems(4) x by (metis list.set_intros(1))+
  obtain st1 where st1: "openStore kf c tm p be (n, cl) st = (None, st1)" "okb (op_data st1)" "stime (op_data st1) = stime (op_data st)"
    "raw (op_data st1) = replay recs n (raw (op_data st))" "\<forall>n'. n' \<noteq> n \<longrightarrow> ckpt (op_data st1) n' = ckpt (op_data st) n'"
    using openStore_restores [OF sv(1) Cons.prems(2,3) sv(2)] by blast
  have "changelog_served (kf_cluster kf c) (tm_appID tm) p (ckpt (op_data st1)) recs (n', cl')
      \<and> kf_newProducer kf (changelog_topic (tm_appID tm) cl') = None" if mem: "(n', cl') \<in> set xs" for n' cl'
  proof -
    have "n' \<noteq> n" using Cons.prems(1) mem x by force
    then have "ckpt (op_data st1) n' = ckpt (op_data st) n'" using st1(5) by blast
    then show ?thesis using Cons.prems(4) [of n' cl'] mem by (simp add: changelog_served_def)
  qed
  from Cons.IH [OF _ st1(2) Cons.prems(3) this] show ?case using Cons.prems(1) st1 by (auto simp: x)
qed simp

end

text \<open>The replays of different stores do not meet.\<close>

lemma replay_other:
  assumes "store_name_ok n" "store_name_ok n'" "n \<noteq> n'" "\<forall>r \<in> set (recs n'). prefix (name_prefix n') (k_Key r)"
  shows "replay recs n' m (name_prefix n @ k) = m (name_prefix n @ k)"
  unfolding replay_def
proof (rule fold_mutate_other, rule ballI)
  fix mu assume "mu \<in> set (map record_mutation (recs n'))"
  then have "prefix (name_prefix n') (m_Key mu)" using assms(4) by (auto simp: record_mutation_def)
  then obtain z where z: "m_Key mu = name_prefix n' @ z" by (auto simp: prefix_def)
  have nul: "0 \<notin> set (bytes_of n)" "0 \<notin> set (bytes_of n')" using assms(1,2) by (simp_all add: store_name_ok_def)
  show "m_Key mu \<noteq> name_prefix n @ k"
  proof
    assume "m_Key mu = name_prefix n @ k"
    then have "name_prefix n @ k = name_prefix n' @ z" using z by simp
    then show False using name_prefix_inject [OF nul] assms(3) bytes_of_inject by blast
  qed
qed

lemma replays_none:
  assumes "store_name_ok n" "n \<notin> fst ` set ys"
    and "\<And>n' cl. (n', cl) \<in> set ys \<Longrightarrow> store_name_ok n' \<and> (\<forall>r \<in> set (recs n'). prefix (name_prefix n') (k_Key r))"
  shows "fold (\<lambda>(n, cl). replay recs n) ys m (name_prefix n @ k) = m (name_prefix n @ k)"
  using assms(2,3)
proof (induction ys arbitrary: m)
  case (Cons y ys)
  obtain a b where y: "y = (a, b)" by fastforce
  have a: "store_name_ok a" "\<forall>r \<in> set (recs a). prefix (name_prefix a) (k_Key r)" "n \<noteq> a"
    using Cons.prems y by (metis list.set_intros(1), metis list.set_intros(1), auto)
  have "fold (\<lambda>(n, cl). replay recs n) ys (replay recs a m) (name_prefix n @ k) = replay recs a m (name_prefix n @ k)"
    by (rule Cons.IH) (use Cons.prems in auto)
  then show ?case using replay_other [OF assms(1) a(1,3), of recs] a(2) by (simp add: y)
qed simp

lemma replays_at:
  assumes "distinct (map fst xs)" "(n, cl) \<in> set xs"
    and "\<And>n cl. (n, cl) \<in> set xs \<Longrightarrow> store_name_ok n \<and> (\<forall>r \<in> set (recs n). prefix (name_prefix n) (k_Key r))"
  shows "fold (\<lambda>(n, cl). replay recs n) xs m (name_prefix n @ k) = replay recs n m (name_prefix n @ k)"
  using assms
proof (induction xs arbitrary: m)
  case (Cons x xs)
  obtain n' cl' where x: "x = (n', cl')" by fastforce
  have ok: "store_name_ok n'" "\<forall>r \<in> set (recs n'). prefix (name_prefix n') (k_Key r)"
    using Cons.prems(3) x by (metis list.set_intros(1))+
  have okx: "store_name_ok n'' \<and> (\<forall>r \<in> set (recs n''). prefix (name_prefix n'') (k_Key r))" if "(n'', cl'') \<in> set xs" for n'' cl''
    using Cons.prems(3) that by (metis list.set_intros(2))
  show ?case
  proof (cases "n = n'")
    case True
    have "fold (\<lambda>(n, cl). replay recs n) xs (replay recs n m) (name_prefix n @ k) = replay recs n m (name_prefix n @ k)"
      by (rule replays_none) (use Cons.prems(1) ok(1) okx True x in auto)
    then show ?thesis using True by (simp add: x)
  next
    case False
    then have mem: "(n, cl) \<in> set xs" using Cons.prems(2) x by simp
    have "fold (\<lambda>(n, cl). replay recs n) xs (replay recs n' m) (name_prefix n @ k) = replay recs n (replay recs n' m) (name_prefix n @ k)"
      using Cons.IH [OF _ mem, of "replay recs n' m"] Cons.prems(1) okx by simp
    also have "\<dots> = replay recs n m (name_prefix n @ k)"
      unfolding replay_def [of recs n] by (rule fold_mutate_cong) (rule replay_other; use okx [OF mem] ok False in simp)
    finally show ?thesis by (simp add: x)
  qed
qed simp

lemma changelog_served_names:
  "changelog_served cl appID p ck recs (n, name) \<Longrightarrow> store_name_ok n \<and> (\<forall>r \<in> set (recs n). prefix (name_prefix n) (k_Key r))"
  by (simp add: changelog_served_def Let_def)

section \<open>Assigned and revoked partitions\<close>

lemma collectPartitions_spec: "distinct (collectPartitions m)" "set (collectPartitions m) = (\<Union>(t, ps) \<in> set m. set ps)"
proof -
  have "distinct out \<Longrightarrow> distinct (fold (\<lambda>p out. if p \<in> set out then out else out @ [p]) ps out)
      \<and> set (fold (\<lambda>p out. if p \<in> set out then out else out @ [p]) ps out) = set out \<union> set ps" for ps out :: "int list"
    by (induction ps arbitrary: out) auto
  from this [of "[]" "concat (map snd m)"]
  show "distinct (collectPartitions m)" "set (collectPartitions m) = (\<Union>(t, ps) \<in> set m. set ps)"
    by (auto simp: collectPartitions_def)
qed

definition partitions_of :: "('b, 'a) TaskManager \<Rightarrow> int set" where
  "partitions_of tm = dom (go_get (tm_tasks tm))"

lemma partitions_put [simp]: "partitions_of (put_task p t tm) = insert p (partitions_of tm)"
  by (auto simp: partitions_of_def put_task_def)

lemma openTask_partitions:
  "openTask kf c p tm = (e, tm') \<Longrightarrow> (e = None \<longrightarrow> partitions_of tm' = insert p (partitions_of tm)) \<and> (e \<noteq> None \<longrightarrow> tm' = tm)"
  by (auto simp: openTask_def Let_def split: if_splits option.splits sum.splits prod.splits)

lemma OnAssigned_partitions:
  assumes "OnAssigned kf c m tm = (None, tm')"
  shows "partitions_of tm' = partitions_of tm \<union> set (collectPartitions m)"
proof -
  have "until_error (\<lambda>p tm. case openTask kf c p tm of
         (Some err, tm') \<Rightarrow> (Some (Wrap ''TaskManager.OnAssigned'' [err]), tm') | (None, tm') \<Rightarrow> (None, tm')) ps tm = (None, tm')
      \<Longrightarrow> partitions_of tm' = partitions_of tm \<union> set ps" for ps
  proof (induction ps arbitrary: tm)
    case (Cons p ps)
    obtain e1 tm1 where o1: "openTask kf c p tm = (e1, tm1)" by fastforce
    then show ?case using Cons openTask_partitions [OF o1] by (cases e1) auto
  qed simp
  then show ?thesis using assms by (simp add: OnAssigned_def)
qed

lemma closeTask_partitions: "partitions_of (fst (closeTask kf p s)) = partitions_of (fst s) - {p}"
  by (cases s) (auto simp: closeTask_def Let_def partitions_of_def split: option.split if_splits)

lemma OnRevoked_partitions: "partitions_of (fst (OnRevoked kf m s)) = partitions_of (fst s) - set (collectPartitions m)"
proof -
  have "partitions_of (fst (fold (closeTask kf) ps s)) = partitions_of (fst s) - set ps" for ps s
    by (induction ps arbitrary: s) (auto simp: closeTask_partitions)
  then show ?thesis by (simp add: OnRevoked_def)
qed

section \<open>Properties\<close>

text \<open>
  C5: A partition that is assigned resumes from its changelogs. For any back end that meets the
  contract of the stores' back ends, when the cluster serves the changelog of every store from its
  checkpoint on, opening the task succeeds, and each of its stores holds what the back end held
  with the records of its own changelog applied in order, whatever order the stores are opened
  in; the stream-time of a topology with windows or sessions is the persisted one.
\<close>

theorem assigned_task_restored:
  assumes "open_backend be raw ckpt stime okb" "okb b" "cf_Brokers (tm_cfg tm) \<noteq> []"
    and "store_changelogs (tm_bt tm) \<noteq> []" "distinct (map fst (store_changelogs (tm_bt tm)))"
    and "cf_StoreProvider (tm_cfg tm) = Some Open" "Open (task_dir tm p) = Inr (be, b)"
    and "\<forall>(n, cl) \<in> set (store_changelogs (tm_bt tm)). changelog_served (kf_cluster kf c) (tm_appID tm) p (ckpt b) recs (n, cl)
      \<and> kf_newProducer kf (changelog_topic (tm_appID tm) cl) = None"
  shows "\<exists>t. openTask kf c p tm = (None, put_task p t tm)
    \<and> (\<forall>(n, cl) \<in> set (store_changelogs (tm_bt tm)). \<forall>k.
         raw (tk_data t) (name_prefix n @ k) = replay recs n (raw b) (name_prefix n @ k))
    \<and> (timed (tm_bt tm) \<longrightarrow> tk_streamTime t = (case stime b of None \<Rightarrow> 0 | Some ts \<Rightarrow> ts))"
proof -
  let ?xs = "store_changelogs (tm_bt tm)" and ?st = "\<lparr>op_data = b, op_stores = [], op_producers = []\<rparr>"
  obtain st where st: "until_error (openStore kf c tm p be) ?xs ?st = (None, st)" "okb (op_data st)" "stime (op_data st) = stime b"
      "raw (op_data st) = fold (\<lambda>(n, cl). replay recs n) ?xs (raw b)"
    using open_backend.open_all_restores [OF assms(1,5), of ?st tm kf c p recs] assms(2,3,8) by auto
  have at: "raw (op_data st) (name_prefix n @ k) = replay recs n (raw b) (name_prefix n @ k)" if mem: "(n, cl) \<in> set ?xs" for n cl k
    unfolding st(4) by (rule replays_at [OF assms(5) mem]) (use assms(8) changelog_served_names in blast)
  have rs: "be_ReadStreamTime be (op_data st) = Inr (stime b)"
    using state_backend.read_stime_law [OF open_backend.axioms(1) [OF assms(1)] st(2)] st(3) by simp
  show ?thesis
    using assms(4,6,7) st(1) rs at
    by (auto simp: openTask_def Let_def tk_data_def tk_streamTime_def ctx_StreamTime_def NewExecutor_def NewExecutorWithStreamTime_def
        intro!: exI [of _ "_ :: (_, _) task"] split: prod.splits)
qed

text \<open>
  C9: The two ways to the changelog agree. In any state the manager can reach, if the post-batch hook
  of the at-least-once loop succeeds, then the exactly-once loop, which sweeps first and drains the
  collected mutations into its transaction, would have reached the same task manager, and the
  records the hook appended to the changelogs are exactly, in order, those the drain hands out.
\<close>

theorem changelog_paths_agree:
  assumes "tm_reachable kf (with_globals gs (NewTaskManager bt cfg d)) (tm, c)" "no_shadow (with_globals gs (NewTaskManager bt cfg d))"
    and "\<forall>(p, t) \<in> set (tm_tasks tm). \<forall>be. tk_backend t = Some be \<longrightarrow> drain_backend be" "appends kf log"
    and "PostBatch kf (tm, c) = (None, tm', c')"
  shows "\<exists>tm1 out. PostBatchSweep tm = (None, tm1) \<and> DrainChangelogRecords tm1 = (Inr out, tm')
    \<and> log c' = log c @ outRecordsToKgo out"
proof -
  have tm: "tm_ok tm" "no_shadow tm"
    using tm_reachable_ok [OF assms(1) new_tm_ok] assms(2) by (auto simp: same_setup_def no_shadow_def)
  have ts: "task_ok tm p t \<and> (\<forall>be. tk_backend t = Some be \<longrightarrow> drain_backend be)" if "(p, t) \<in> set (tm_tasks tm)" for p t
    using that tm(1) assms(3) unfolding tm_ok_def by blast
  obtain tasks where e: "each_task (post_batch_task kf (tm_bt tm)) (tm_tasks tm) c = (None, tasks, c')" "tm' = tm\<lparr>tm_tasks := tasks\<rparr>"
    using assms(5) by (auto simp: PostBatch_def split: prod.splits)
  obtain ts1 where ts1: "each_task (post_sweep_task (tm_bt tm)) (tm_tasks tm) () = (None, ts1, ())"
      "tasks = map (\<lambda>(p, t). (p, drained t)) ts1" "log c' = log c @ outRecordsToKgo (concat (map (\<lambda>(p, t). pending_records t) ts1))"
    using post_batch_tasks_agree [OF assms(4) tm(2) ts e(1)] by blast
  let ?tm1 = "tm\<lparr>tm_tasks := ts1\<rparr>"
  have sweep: "PostBatchSweep tm = (None, ?tm1)" using ts1(1) by (simp add: PostBatchSweep_def)
  have "no_shadow ?tm1" using tm(2) by (simp add: no_shadow_def)
  from drain_exact [OF PostBatchSweep_ok [OF tm(1) sweep] this] show ?thesis
    using sweep ts1 e(2) by (intro exI [of _ ?tm1]) simp
qed

text \<open>
  C8: Every reachable task manager can drain its changelogs. From a new manager, with global stores
  under names of their own, whatever sequence of assignments, revocations, batches, sweeps,
  checkpoints and drains has happened, with whatever errors: every task is registered under its own
  partition and has exactly the stores and producers of the topology, no type assertion on a store
  can fail, so draining never reports an error. It hands out, task after task and store after store,
  the collected mutations of each store, each as one record with the mutation's key and value, for
  the changelog topic of that store and pinned to the partition of that task, and leaves each task
  with the drained data. There is one producer for each store of the topology, with a changelog
  topic that the topology names for it.
\<close>

theorem reachable_manager_drains:
  assumes "tm_reachable kf (with_globals gs (NewTaskManager bt cfg d)) (tm, c)" "no_shadow (with_globals gs (NewTaskManager bt cfg d))"
  shows "tm_ok tm \<and> (\<exists>tm'. DrainChangelogRecords tm = (Inr (concat (map (\<lambda>(p, t). task_changelog tm p t) (tm_tasks tm))), tm')
      \<and> map (\<lambda>(p, t). (p, tk_data t)) (tm_tasks tm') = map (\<lambda>(p, t). (p, drained_data tm t)) (tm_tasks tm))
    \<and> fst ` set (producers_of tm) = fst ` set (store_changelogs (tm_bt tm))
    \<and> (\<forall>(n, producer) \<in> set (producers_of tm). \<exists>cl. (n, cl) \<in> set (store_changelogs (tm_bt tm))
        \<and> cp_topic producer = changelog_topic (tm_appID tm) cl)"
proof -
  have tm: "tm_ok tm" "no_shadow tm"
    using tm_reachable_ok [OF assms(1) new_tm_ok] assms(2) by (auto simp: same_setup_def no_shadow_def)
  have spec: "pending_records t = task_changelog tm p t" "tk_data (drained t) = drained_data tm t"
    if "(p, t) \<in> set (tm_tasks tm)" for p t
    using that tm(1) pending_records_spec [OF _ tm(2), of p t] by (auto simp: tm_ok_def)
  have eq: "map (\<lambda>(p, t). pending_records t) (tm_tasks tm) = map (\<lambda>(p, t). task_changelog tm p t) (tm_tasks tm)"
    "map (\<lambda>(p, t). (p, tk_data (drained t))) (tm_tasks tm) = map (\<lambda>(p, t). (p, drained_data tm t)) (tm_tasks tm)"
    using spec by auto
  have "DrainChangelogRecords tm = (Inr (concat (map (\<lambda>(p, t). task_changelog tm p t) (tm_tasks tm))),
      tm\<lparr>tm_tasks := map (\<lambda>(p, t). (p, drained t)) (tm_tasks tm)\<rparr>)"
    "map (\<lambda>(p, t). (p, tk_data t)) (map (\<lambda>(p, t). (p, drained t)) (tm_tasks tm)) = map (\<lambda>(p, t). (p, drained_data tm t)) (tm_tasks tm)"
    using eq(2) by (simp_all only: drain_exact [OF tm] eq(1)) (simp add: comp_def case_prod_beta)
  moreover have "\<forall>(n, producer) \<in> set (producers_of tm). \<exists>cl. (n, cl) \<in> set (store_changelogs (tm_bt tm))
        \<and> cp_topic producer = changelog_topic (tm_appID tm) cl"
    by (auto elim!: producers_of_in)
  ultimately show ?thesis
    using tm(1) producers_of_names [of tm]
    by (intro conjI exI [of _ "tm\<lparr>tm_tasks := map (\<lambda>(p, t). (p, drained t)) (tm_tasks tm)\<rparr>"]) simp_all
qed

text \<open>
  C26: Tasks follow the assignment. The partitions of a rebalance are collected without repetition
  from all topics; a successful assignment leaves exactly the earlier partitions and the assigned
  ones with a task, one that fails adds no task for the partition that failed, and a revocation
  removes exactly the revoked ones.
\<close>

theorem tasks_follow_assignment:
  "distinct (collectPartitions m) \<and> set (collectPartitions m) = (\<Union>(t, ps) \<in> set m. set ps)
   \<and> (OnAssigned kf c m tm = (None, tm') \<longrightarrow> partitions_of tm' = partitions_of tm \<union> set (collectPartitions m))
   \<and> (openTask kf c p tm = (Some err, tm'') \<longrightarrow> tm'' = tm)
   \<and> partitions_of (fst (OnRevoked kf m (tm, c))) = partitions_of tm - set (collectPartitions m)"
  using collectPartitions_spec OnAssigned_partitions openTask_partitions [of kf c p tm "Some err" tm''] OnRevoked_partitions [of kf m "(tm, c)"]
  by (metis fst_conv option.distinct(1))

section \<open>Witnesses\<close>

text \<open>A topology with one store over in-memory back ends, and a cluster that keeps what is produced.\<close>

definition demo_bt :: "(MemBackend, goval) BuiltTopology" where
  "demo_bt = \<lparr>bt_Topology = \<lparr>t_sources = [], t_sinks = [], t_nodes = []\<rparr>, bt_Sources = [], bt_Sinks = [], bt_RepartitionBindings = [],
     bt_StoreBindings = [(''a'', \<lparr>sb_StoreName = ''a'', sb_ChangelogTopic = ''a'', sb_EncodeKey = (\<lambda>_. Inr []), sb_DecodeKey = (\<lambda>_. Inr GoNil),
       sb_EncodeVal = (\<lambda>_. Inr []), sb_DecodeVal = (\<lambda>_. Inr GoNil)\<rparr>)],
     bt_WindowStoreBindings = [], bt_SessionStoreBindings = [], bt_GlobalTableBindings = []\<rparr>"

definition demo_cfg :: "MemBackend Config" where
  "demo_cfg = zero_Config\<lparr>cf_ApplicationID := ''app'', cf_Brokers := [''broker''],
     cf_StoreProvider := Some (\<lambda>_. Inr (mem_backend, \<lparr>mb_db = OpenMemDB, mb_stores = []\<rparr>))\<rparr>"

definition demo_kafka :: "KRecord list \<Rightarrow> KRecord list Kafka" where
  "demo_kafka recs = \<lparr>kf_cluster = (\<lambda>_. one_partition (int (length recs)) [poll_of recs]),
     kf_produce = (\<lambda>rs c. (map (\<lambda>_. None) rs, c @ rs)), kf_newProducer = (\<lambda>_. None)\<rparr>"

definition demo_tm :: "(MemBackend, goval) TaskManager" where
  "demo_tm = NewTaskManager demo_bt demo_cfg \<lparr>mb_db = OpenMemDB, mb_stores = []\<rparr>"

lemma demo_stores: "store_changelogs (tm_bt demo_tm) = [(''a'', ''a'')]" "tm_appID demo_tm = ''app''"
  by (simp_all add: demo_tm_def NewTaskManager_def demo_bt_def store_changelogs_def demo_cfg_def)

lemma demo_no_shadow: "no_shadow (with_globals [] demo_tm)"
  by (simp add: no_shadow_def with_globals_def demo_tm_def NewTaskManager_def)

lemma demo_appends: "appends (demo_kafka recs) id"
  by (auto simp: appends_def demo_kafka_def)

theorem assigned_task_restored_witness:
  "\<exists>t. openTask (demo_kafka [log_record 0 (name_prefix ''a'' @ [1]) (Some [5])]) [] 0 demo_tm = (None, put_task 0 t demo_tm)
     \<and> mem_raw (tk_data t) (name_prefix ''a'' @ [1]) = Some [5]"
proof -
  let ?r = "log_record 0 (name_prefix ''a'' @ [1]) (Some [5])"
  let ?b = "\<lparr>mb_db = OpenMemDB, mb_stores = []\<rparr> :: MemBackend" and ?kf = "demo_kafka [?r]"
  have "serves (one_partition 1 [poll_of [?r]]) (changelog_topic ''app'' ''a'') 0 0 1 [?r]"
    by (rule one_partition_serves) (simp_all add: log_record_def)
  then have sv: "changelog_served (kf_cluster ?kf []) ''app'' 0 (mem_ckpt ?b) (\<lambda>_. [?r]) (''a'', ''a'')"
    by (simp add: changelog_served_def demo_kafka_def one_partition_answers store_name_ok_def bytes_of_def mem_ckpt_def OpenMemDB_def
        log_record_def is_i64_def MinInt64_def MaxInt64_def)
  have ok: "mem_open ?b" by (simp add: mem_open_def OpenMemDB_def)
  have cfg: "cf_Brokers (tm_cfg demo_tm) \<noteq> []" "cf_StoreProvider (tm_cfg demo_tm) = Some (\<lambda>_. Inr (mem_backend, ?b))"
    by (simp_all add: demo_tm_def NewTaskManager_def demo_cfg_def)
  from assigned_task_restored [OF mem_obe.open_backend_axioms ok cfg(1) _ _ cfg(2) refl, of ?kf "[]" 0 "\<lambda>_. [?r]"] sv
  show ?thesis
    by (fastforce simp: demo_stores demo_kafka_def replay_def log_record_def record_mutation_def mutate_def)
qed

lemma demo_reachable:
  "tm_reachable (demo_kafka []) (with_globals [] demo_tm) (snd (OnAssigned (demo_kafka []) [] [(''in'', [0])] demo_tm), [])"
proof -
  have "tm_reachable (demo_kafka []) demo_tm (demo_tm, [])" by (rule tm_reachable.start)
  moreover have "tm_step (demo_kafka []) (demo_tm, []) (snd (OnAssigned (demo_kafka []) [] [(''in'', [0])] demo_tm), [])"
    by (rule tm_step.assign) (rule prod.collapse [symmetric])
  ultimately show ?thesis by (simp add: with_globals_def) (rule tm_reachable.step)
qed

theorem reachable_manager_drains_witness:
  "\<exists>out tm'. DrainChangelogRecords (snd (OnAssigned (demo_kafka []) [] [(''in'', [0])] demo_tm)) = (Inr out, tm')"
  using reachable_manager_drains [OF demo_reachable [unfolded demo_tm_def] demo_no_shadow [unfolded demo_tm_def]]
  by (auto simp: demo_tm_def)

text \<open>The task after a record has written to its store.\<close>

definition demo_written :: "(MemBackend, goval) TaskManager" where
  "demo_written =
     (let tm = snd (OnAssigned (demo_kafka []) [] [(''in'', [0])] demo_tm); t = the (go_get (tm_tasks tm) 0)
      in put_task 0 (set_estate (snd (Put (lift_store (mem_store ''a'')) [1] [7] (x_state (tk_executor t)))) t) tm)"

lemma openTask_backend:
  assumes "openTask kf c p tm = (None, tm')" "store_changelogs (tm_bt tm) \<noteq> []"
    and "cf_StoreProvider (tm_cfg tm) = Some Open" "Open (task_dir tm p) = Inr (be, b)"
  shows "\<exists>t. tm' = put_task p t tm \<and> tk_backend t = Some be"
  using assms by (auto simp: openTask_def Let_def split: option.splits sum.splits prod.splits)

lemma demo_opened:
  "\<exists>t. OnAssigned (demo_kafka []) [] [(''in'', [0])] demo_tm = (None, put_task 0 t demo_tm) \<and> tk_backend t = Some mem_backend"
proof -
  have ok: "fst (openTask (demo_kafka []) [] 0 demo_tm) = None" by code_simp
  then have o': "openTask (demo_kafka []) [] 0 demo_tm = (None, snd (openTask (demo_kafka []) [] 0 demo_tm))" by (metis prod.collapse)
  have "cf_StoreProvider (tm_cfg demo_tm) = Some (\<lambda>_. Inr (mem_backend, \<lparr>mb_db = OpenMemDB, mb_stores = []\<rparr>))"
    by (simp add: demo_tm_def NewTaskManager_def demo_cfg_def)
  from openTask_backend [OF o' _ this refl]
  obtain t where "snd (openTask (demo_kafka []) [] 0 demo_tm) = put_task 0 t demo_tm" "tk_backend t = Some mem_backend"
    by (auto simp: demo_stores)
  then show ?thesis using o' by (auto simp: OnAssigned_def collectPartitions_def)
qed

theorem tasks_follow_assignment_witness:
  "\<exists>tm'. OnAssigned (demo_kafka []) [] [(''in'', [0])] demo_tm = (None, tm') \<and> partitions_of tm' = {0}"
proof -
  obtain t where o': "OnAssigned (demo_kafka []) [] [(''in'', [0])] demo_tm = (None, put_task 0 t demo_tm)" using demo_opened by blast
  have "partitions_of demo_tm = {}" by (simp add: partitions_of_def demo_tm_def NewTaskManager_def)
  then show ?thesis
    using tasks_follow_assignment [of "[(''in'', [0])]" "demo_kafka []" "[]" demo_tm "put_task 0 t demo_tm" 0 Diverges demo_tm] o'
    by (simp add: collectPartitions_def)
qed

theorem changelog_paths_agree_witness:
  "\<exists>tm1 out tm'. PostBatchSweep demo_written = (None, tm1) \<and> DrainChangelogRecords tm1 = (Inr out, tm') \<and> length out = 1"
proof -
  let ?kf = "demo_kafka []" and ?post = "PostBatch (demo_kafka []) (demo_written, [])"
  obtain t where t: "snd (OnAssigned ?kf [] [(''in'', [0])] demo_tm) = put_task 0 t demo_tm" "tk_backend t = Some mem_backend"
    using demo_opened by force
  define u where "u = snd (Put (lift_store (mem_store ''a'')) [1] [7] (x_state (tk_executor t)))"
  have w: "demo_written = put_task 0 (set_estate u t) (put_task 0 t demo_tm)"
    using t(1) by (simp add: demo_written_def Let_def u_def put_task_def)
  have "tm_step ?kf (put_task 0 t demo_tm, []) (demo_written, [])"
    unfolding w by (rule tm_step.process) (simp add: put_task_def)
  then have reach: "tm_reachable ?kf (with_globals [] demo_tm) (demo_written, [])"
    using tm_reachable.step [OF demo_reachable] t(1) by simp
  have be: "\<forall>(p, t) \<in> set (tm_tasks demo_written). \<forall>be. tk_backend t = Some be \<longrightarrow> drain_backend be"
    using t(2) mem_drain.drain_backend_axioms by (simp add: w put_task_def set_estate_def demo_tm_def NewTaskManager_def)
  have ok: "fst ?post = None" and len: "length (snd (snd ?post)) = 1" by code_simp+
  have post: "?post = (None, fst (snd ?post), snd (snd ?post))" using ok by (metis prod.collapse)
  obtain tm1 out where "PostBatchSweep demo_written = (None, tm1)" "DrainChangelogRecords tm1 = (Inr out, fst (snd ?post))"
      "snd (snd ?post) = outRecordsToKgo out"
    using changelog_paths_agree [OF reach [unfolded demo_tm_def] demo_no_shadow [unfolded demo_tm_def] be demo_appends post] by auto
  then show ?thesis using len by (metis length_outRecordsToKgo)
qed

end
