(* ===== verification/Admin.thy ===== *)
theory Admin
  imports TaskManager
begin

text \<open>
  \<open>internal/kafka/admin.go\<close>: the topics an application needs. \<open>PrepareTopology\<close> checks the topics its
  user owns and creates the internal ones, changelogs and repartition topics, with the partition
  count of the sources, so that keys meet in the same partition. The brokers' administrative
  answers are the record \<open>AdminApi\<close> over a state of the cluster.
\<close>

section \<open>Definitions\<close>

record TopicSpec =
  ts_Name :: string
  ts_Partitions :: int
  ts_ReplicationFactor :: int
  ts_Configs :: "(string, string) gomap"

text \<open>What \<open>kerr.ErrorForCode\<close> makes of the code in a response, as far as the code tells it apart.\<close>

datatype TopicError =
    NoTopicError
  | UnknownTopicOrPartition
  | TopicAlreadyExists
  | TopicAuthorizationFailed
  | ClusterAuthorizationFailed
  | OtherTopicError error

text \<open>
  A metadata request for a list of names, a create request, and what becomes of the cluster while a
  ticker runs. A topic of a metadata response has a name, an error and the number of its partitions.
\<close>

record 'k AdminApi =
  am_NewClient :: "error option"
  am_Metadata :: "string list \<Rightarrow> 'k \<Rightarrow> error + (string option \<times> TopicError \<times> int) list"
  am_CreateTopics :: "TopicSpec list \<Rightarrow> 'k \<Rightarrow> (error + (string \<times> TopicError) list) \<times> 'k"
  am_Tick :: "'k \<Rightarrow> 'k"

fun metadata_loop :: "(string option \<times> TopicError \<times> int) list \<Rightarrow> (string, int) gomap \<Rightarrow> error + (string, int) gomap" where
  "metadata_loop [] result = Inr result"
| "metadata_loop ((None, topicErr, partitions) # ts) result = metadata_loop ts result"
| "metadata_loop ((Some name, NoTopicError, partitions) # ts) result = metadata_loop ts (go_set name partitions result)"
| "metadata_loop ((Some name, UnknownTopicOrPartition, partitions) # ts) result = metadata_loop ts result"
| "metadata_loop ((Some name, topicErr, partitions) # ts) result = Inl (Err ''metadata for topic'')"

definition fetchTopicMetadata :: "'k AdminApi \<Rightarrow> string list \<Rightarrow> 'k \<Rightarrow> error + (string, int) gomap" where
  "fetchTopicMetadata api names k =
     (case am_Metadata api names k of
        Inl err \<Rightarrow> Inl (Wrap ''metadata request'' [err])
      | Inr topics \<Rightarrow> metadata_loop topics [])"

text \<open>The loop over the response of a create request; the denied topics are reported together.\<close>

fun create_loop :: "(string \<times> TopicError) list \<Rightarrow> string list \<Rightarrow> error option" where
  "create_loop [] authDenied = (if authDenied = [] then None else Some (Err ''kafka.EnsureTopics: not authorized to create topics''))"
| "create_loop ((name, NoTopicError) # ts) authDenied = create_loop ts authDenied"
| "create_loop ((name, TopicAlreadyExists) # ts) authDenied = create_loop ts authDenied"
| "create_loop ((name, TopicAuthorizationFailed) # ts) authDenied = create_loop ts (authDenied @ [name])"
| "create_loop ((name, ClusterAuthorizationFailed) # ts) authDenied = create_loop ts (authDenied @ [name])"
| "create_loop ((name, topicErr) # ts) authDenied = Some (Err ''create topic'')"

definition createTopicSpecs :: "'k AdminApi \<Rightarrow> TopicSpec list \<Rightarrow> 'k \<Rightarrow> error option \<times> 'k" where
  "createTopicSpecs api specs k =
     (case am_CreateTopics api specs k of
        (Inl err, k') \<Rightarrow> (Some (Wrap ''create topics request'' [err]), k')
      | (Inr topics, k') \<Rightarrow> (create_loop topics [], k'))"

text \<open>The loop over the specs inside \<open>waitForTopicMetadata\<close>: ready, or the count that does not fit.\<close>

fun topics_ready :: "(string, int) gomap \<Rightarrow> TopicSpec list \<Rightarrow> error + bool" where
  "topics_ready metadata [] = Inr True"
| "topics_ready metadata (spec # specs) =
     (case go_get metadata (ts_Name spec) of
        None \<Rightarrow> Inr False
      | Some partitions \<Rightarrow>
        if partitions \<noteq> ts_Partitions spec then Inl (Err ''kafka.EnsureTopics: topic became visible with other partitions'')
        else topics_ready metadata specs)"

text \<open>The wait is bounded by its deadline: \<open>ticks\<close> is the number of ticks before it (15 s at 100 ms).\<close>

fun waitForTopicMetadata :: "nat \<Rightarrow> 'k AdminApi \<Rightarrow> TopicSpec list \<Rightarrow> 'k \<Rightarrow> error option \<times> 'k" where
  "waitForTopicMetadata ticks api specs k =
     (case fetchTopicMetadata api (map ts_Name specs) k of
        Inl err \<Rightarrow> (Some (Wrap ''kafka.EnsureTopics: wait for metadata'' [err]), k)
      | Inr metadata \<Rightarrow>
        (case topics_ready metadata specs of
           Inl err \<Rightarrow> (Some err, k)
         | Inr True \<Rightarrow> (None, k)
         | Inr False \<Rightarrow>
           (case ticks of
              0 \<Rightarrow> (Some (Err ''kafka.EnsureTopics: topics not visible before deadline''), k)
            | Suc n \<Rightarrow> waitForTopicMetadata n api specs (am_Tick api k))))"

declare waitForTopicMetadata.simps [simp del]

definition counts_fit :: "(string, int) gomap \<Rightarrow> TopicSpec list \<Rightarrow> bool" where
  "counts_fit existing specs \<longleftrightarrow> (\<forall>spec \<in> set specs. case go_get existing (ts_Name spec) of None \<Rightarrow> True | Some n \<Rightarrow> n = ts_Partitions spec)"

definition missing_specs :: "(string, int) gomap \<Rightarrow> TopicSpec list \<Rightarrow> TopicSpec list" where
  "missing_specs existing specs = filter (\<lambda>spec. go_get existing (ts_Name spec) = None) specs"

definition EnsureTopics :: "nat \<Rightarrow> 'k AdminApi \<Rightarrow> TopicSpec list \<Rightarrow> 'k \<Rightarrow> error option \<times> 'k" where
  "EnsureTopics ticks api specs k =
     (if specs = [] then (None, k)
      else case am_NewClient api of
        Some err \<Rightarrow> (Some (Wrap ''kafka.EnsureTopics: create client'' [err]), k)
      | None \<Rightarrow> (case fetchTopicMetadata api (map ts_Name specs) k of
        Inl err \<Rightarrow> (Some (Wrap ''kafka.EnsureTopics: metadata'' [err]), k)
      | Inr existing \<Rightarrow>
        if \<not> counts_fit existing specs then (Some (Err ''kafka.EnsureTopics: topic exists with other partitions''), k)
        else let missing = missing_specs existing specs in
          if missing = [] then (None, k)
          else (case createTopicSpecs api missing k of
             (Some err, k') \<Rightarrow> (Some err, k')
           | (None, k') \<Rightarrow> waitForTopicMetadata ticks api missing k')))"

definition repartition_topic :: "string \<Rightarrow> string \<Rightarrow> string" where
  "repartition_topic appID name = appID @ ''-'' @ name @ ''-repartition''"

definition repartition_spec :: "string \<Rightarrow> int \<Rightarrow> TopicSpec" where
  "repartition_spec name partitions =
     \<lparr>ts_Name = name, ts_Partitions = partitions, ts_ReplicationFactor = 1, ts_Configs = [(''cleanup.policy'', ''delete'')]\<rparr>"

definition EnsureRepartitionTopics :: "nat \<Rightarrow> 'k AdminApi \<Rightarrow> 'b Config \<Rightarrow> ('b, 'a) BuiltTopology \<Rightarrow> 'k \<Rightarrow> error option \<times> 'k" where
  "EnsureRepartitionTopics ticks api cfg bt k =
     (if bt_RepartitionBindings bt = [] then (None, k)
      else EnsureTopics ticks api
        (map (\<lambda>(_, rb). repartition_spec (repartition_topic (cf_ApplicationID cfg) (rb_Name rb)) (rb_Partitions rb)) (bt_RepartitionBindings bt)) k)"

definition FetchPartitionCount :: "'k AdminApi \<Rightarrow> string \<Rightarrow> 'k \<Rightarrow> error + int" where
  "FetchPartitionCount api topic k =
     (case am_NewClient api of
        Some err \<Rightarrow> Inl (Wrap ''kafka.FetchPartitionCount: create client'' [err])
      | None \<Rightarrow> (case fetchTopicMetadata api [topic] k of
        Inl err \<Rightarrow> Inl (Wrap ''kafka.FetchPartitionCount'' [err])
      | Inr meta \<Rightarrow> (case go_get meta topic of
          None \<Rightarrow> Inl (Err ''kafka.FetchPartitionCount: topic does not exist'')
        | Some n \<Rightarrow> Inr n)))"

definition EnsureGlobalTopics :: "'k AdminApi \<Rightarrow> ('b, 'a) BuiltTopology \<Rightarrow> 'k \<Rightarrow> error option \<times> 'k" where
  "EnsureGlobalTopics api bt k =
     (if bt_GlobalTableBindings bt = [] then (None, k)
      else let specs = map (\<lambda>(_, b). \<lparr>ts_Name = gb_Topic b, ts_Partitions = 1, ts_ReplicationFactor = 1,
                 ts_Configs = [(''cleanup.policy'', ''compact'')]\<rparr>) (bt_GlobalTableBindings bt) in
        case am_NewClient api of
          Some err \<Rightarrow> (Some (Wrap ''kafka.EnsureGlobalTopics: create client'' [err]), k)
        | None \<Rightarrow> (case fetchTopicMetadata api (map ts_Name specs) k of
          Inl err \<Rightarrow> (Some (Wrap ''kafka.EnsureGlobalTopics: metadata'' [err]), k)
        | Inr existing \<Rightarrow>
          let missing = missing_specs existing specs in
          if missing = [] then (None, k) else createTopicSpecs api missing k))"

text \<open>The two loops of \<open>ValidateCoPartitioned\<close>.\<close>

definition co_partitioned :: "(string, int) gomap \<Rightarrow> string list \<Rightarrow> error option" where
  "co_partitioned meta topics =
     (if \<exists>t \<in> set topics. go_get meta t = None \<or> go_get meta t = Some 0
      then Some (Err ''kafka.ValidateCoPartitioned: topic not found or has 0 partitions'')
      else if \<exists>t \<in> set (tl topics). go_get meta (hd topics) \<noteq> go_get meta t
      then Some (Err ''co-partitioning violation'')
      else None)"

definition ValidateCoPartitioned :: "'k AdminApi \<Rightarrow> string list \<Rightarrow> 'k \<Rightarrow> error option" where
  "ValidateCoPartitioned api topics k =
     (if length topics < 2 then None
      else case am_NewClient api of
        Some err \<Rightarrow> Some (Wrap ''kafka.ValidateCoPartitioned: create client'' [err])
      | None \<Rightarrow> (case fetchTopicMetadata api topics k of
        Inl err \<Rightarrow> Some (Wrap ''kafka.ValidateCoPartitioned: metadata'' [err])
      | Inr meta \<Rightarrow> co_partitioned meta topics))"

section \<open>Preparing a topology\<close>

text \<open>\<open>sort.Strings\<close> orders by bytes.\<close>

definition sort_by_name :: "('x \<Rightarrow> string) \<Rightarrow> 'x list \<Rightarrow> 'x list" where
  "sort_by_name f xs = sort_key (\<lambda>x. map of_char (f x) :: nat list) xs"

definition external_names :: "('b, 'a) BuiltTopology \<Rightarrow> string list" where
  "external_names bt = sort_by_name id (remdups (map (\<lambda>(_, b). so_Topic b) (bt_Sources bt) @ map (\<lambda>(_, b). si_Topic b) (bt_Sinks bt)
     @ map (\<lambda>(_, b). gb_Topic b) (bt_GlobalTableBindings bt)))"

fun sourcePartitionCount :: "'a SourceBinding list \<Rightarrow> (string, int) gomap \<Rightarrow> int \<Rightarrow> error + int" where
  "sourcePartitionCount [] metadata count =
     (if count = 0 then Inl (Err ''kafka.PrepareTopology: topology has no source topics'') else Inr count)"
| "sourcePartitionCount (binding # bs) metadata count =
     (case go_get metadata (so_Topic binding) of
        None \<Rightarrow> Inl (Err ''kafka.PrepareTopology: source topic is missing from metadata'')
      | Some got \<Rightarrow>
        if got \<le> 0 then Inl (Err ''kafka.PrepareTopology: source topic has invalid partition count'')
        else if count = 0 then sourcePartitionCount bs metadata got
        else if got \<noteq> count then Inl (Err ''kafka.PrepareTopology: source topics have different partition counts'')
        else sourcePartitionCount bs metadata count)"

definition changelog_spec :: "string \<Rightarrow> int \<Rightarrow> string \<Rightarrow> int \<Rightarrow> TopicSpec" where
  "changelog_spec appID partitions name retentionMs =
     \<lparr>ts_Name = changelog_topic appID name, ts_Partitions = partitions, ts_ReplicationFactor = 1,
      ts_Configs = (if retentionMs > 0 then [(''cleanup.policy'', ''compact,delete''), (''retention.ms'', show_int retentionMs)]
                    else [(''cleanup.policy'', ''compact'')])\<rparr>"

text \<open>The specs in the order in which the four loops put them into the map \<open>byName\<close>.\<close>

definition specs_in_order :: "'b Config \<Rightarrow> ('b, 'a) BuiltTopology \<Rightarrow> int \<Rightarrow> TopicSpec list" where
  "specs_in_order cfg bt partitions =
     (let addChangelog = changelog_spec (cf_ApplicationID cfg) partitions in
      map (\<lambda>(_, b). addChangelog (sb_ChangelogTopic b) 0) (bt_StoreBindings bt)
      @ map (\<lambda>(_, b). addChangelog (sb_ChangelogTopic (wb_StoreBinding b)) (i64 (MaxSizeMs (wb_WindowDef b) + wb_GraceMs b))) (bt_WindowStoreBindings bt)
      @ map (\<lambda>(_, b). addChangelog (sb_ChangelogTopic (xb_StoreBinding b)) (i64 (xb_GapMs b + xb_GraceMs b))) (bt_SessionStoreBindings bt)
      @ map (\<lambda>(_, b). repartition_spec (repartition_topic (cf_ApplicationID cfg) (rb_Name b))
           (if rb_Partitions b = 0 then partitions else rb_Partitions b)) (bt_RepartitionBindings bt))"

definition internalTopicSpecs :: "'b Config \<Rightarrow> ('b, 'a) BuiltTopology \<Rightarrow> int \<Rightarrow> TopicSpec list" where
  "internalTopicSpecs cfg bt partitions =
     sort_by_name ts_Name (map snd (fold (\<lambda>s. go_set (ts_Name s) s) (specs_in_order cfg bt partitions) []))"

definition PrepareTopology :: "nat \<Rightarrow> 'k AdminApi \<Rightarrow> 'b Config \<Rightarrow> ('b, 'a) BuiltTopology \<Rightarrow> 'k \<Rightarrow> error option \<times> 'k" where
  "PrepareTopology ticks api cfg bt k =
     (case am_NewClient api of
        Some err \<Rightarrow> (Some (Wrap ''kafka.PrepareTopology: create client'' [err]), k)
      | None \<Rightarrow> (case fetchTopicMetadata api (external_names bt) k of
        Inl err \<Rightarrow> (Some (Wrap ''kafka.PrepareTopology: metadata'' [err]), k)
      | Inr metadata \<Rightarrow>
        if \<exists>name \<in> set (external_names bt). go_get metadata name = None
        then (Some (Err ''kafka.PrepareTopology: caller-managed topics do not exist''), k)
        else case sourcePartitionCount (map snd (bt_Sources bt)) metadata 0 of
          Inl err \<Rightarrow> (Some err, k)
        | Inr partitionCount \<Rightarrow>
          if \<exists>(_, b) \<in> set (bt_RepartitionBindings bt). rb_Partitions b \<noteq> 0 \<and> rb_Partitions b \<noteq> partitionCount
          then (Some (Err ''kafka.PrepareTopology: repartition requests other partitions''), k)
          else (case EnsureTopics ticks api (internalTopicSpecs cfg bt partitionCount) k of
             (Some err, k') \<Rightarrow> (Some (Wrap ''kafka.PrepareTopology: internal topics'' [err]), k')
           | (None, k') \<Rightarrow> (None, k'))))"

section \<open>Clusters that tell the truth\<close>

text \<open>
  \<open>parts k\<close> are the topics of the cluster with their partition counts. Metadata responses report
  exactly the requested topics that exist, and neither creating topics nor waiting removes or
  repartitions one.
\<close>

definition honest :: "'k AdminApi \<Rightarrow> ('k \<Rightarrow> string \<rightharpoonup> int) \<Rightarrow> bool" where
  "honest api parts \<longleftrightarrow>
     (\<forall>names k ts name n. am_Metadata api names k = Inr ts \<longrightarrow>
        ((Some name, NoTopicError, n) \<in> set ts \<longrightarrow> parts k name = Some n)
        \<and> (name \<in> set names \<longrightarrow> parts k name = Some n \<longrightarrow> (Some name, NoTopicError, n) \<in> set ts))
     \<and> (\<forall>specs k r k'. am_CreateTopics api specs k = (r, k') \<longrightarrow> parts k \<subseteq>\<^sub>m parts k')
     \<and> (\<forall>k. parts k \<subseteq>\<^sub>m parts (am_Tick api k))"

fun known_topic :: "string option \<times> TopicError \<times> int \<Rightarrow> (string \<times> int) list" where
  "known_topic (Some name, NoTopicError, n) = [(name, n)]"
| "known_topic _ = []"

lemma metadata_loop_fold:
  "metadata_loop ts result = Inr m \<Longrightarrow> m = fold (\<lambda>(name, n). go_set name n) (concat (map known_topic ts)) result"
  by (induction ts result rule: metadata_loop.induct) simp_all

lemma fold_set_get_in:
  "go_get (fold (\<lambda>(name, n). go_set name n) es r) name = Some n \<Longrightarrow> (name, n) \<in> set es \<or> go_get r name = Some n"
  by (induction es arbitrary: r) (fastforce split: if_splits)+

lemma fold_set_get_dom:
  "name \<in> fst ` set es \<or> go_get r name \<noteq> None \<Longrightarrow> go_get (fold (\<lambda>(name, n). go_set name n) es r) name \<noteq> None"
proof (induction es arbitrary: r)
  case (Cons e es)
  then show ?case using Cons.IH [of "go_set (fst e) (snd e) r"] by (cases e) auto
qed simp

lemma known_topic_in: "(name, n) \<in> set (concat (map known_topic ts)) \<longleftrightarrow> (Some name, NoTopicError, n) \<in> set ts"
proof -
  have "(name, n) \<in> set (known_topic t) \<longleftrightarrow> t = (Some name, NoTopicError, n)" for t
    by (cases t rule: known_topic.cases) auto
  then show ?thesis by auto
qed

lemma fetch_sound:
  assumes "honest api parts" "fetchTopicMetadata api names k = Inr m"
  shows "go_get m name = Some n \<Longrightarrow> parts k name = Some n"
    and "name \<in> set names \<Longrightarrow> go_get m name = parts k name"
proof -
  obtain ts where ts: "am_Metadata api names k = Inr ts" "metadata_loop ts [] = Inr m"
    using assms(2) by (auto simp: fetchTopicMetadata_def split: sum.splits)
  let ?es = "concat (map known_topic ts)"
  have h: "(name, n) \<in> set ?es \<Longrightarrow> parts k name = Some n"
    "name \<in> set names \<Longrightarrow> parts k name = Some n \<Longrightarrow> (name, n) \<in> set ?es" for name n
    using assms(1) ts(1) unfolding honest_def known_topic_in by blast+
  have m: "m = fold (\<lambda>(name, n). go_set name n) ?es []" by (rule metadata_loop_fold [OF ts(2)])
  show sound: "parts k name = Some n" if "go_get m name = Some n" for name n
    using fold_set_get_in [of ?es "[]" name n] that h(1) by (simp add: m)
  show "go_get m name = parts k name" if "name \<in> set names"
  proof (cases "parts k name")
    case None
    then show ?thesis using sound [of name] by (cases "go_get m name") auto
  next
    case (Some n)
    then have "name \<in> fst ` set ?es" using h(2) [OF that Some] by force
    then have "go_get m name \<noteq> None" unfolding m by (intro fold_set_get_dom) simp
    then show ?thesis using sound [of name] Some by auto
  qed
qed

lemma topics_ready_ok:
  "topics_ready m specs = Inr True \<Longrightarrow> spec \<in> set specs \<Longrightarrow> go_get m (ts_Name spec) = Some (ts_Partitions spec)"
  by (induction specs) (auto split: option.splits if_splits)

lemma wait_ok:
  assumes "honest api parts"
  shows "waitForTopicMetadata ticks api specs k = (None, k') \<Longrightarrow>
    (\<forall>spec \<in> set specs. parts k' (ts_Name spec) = Some (ts_Partitions spec)) \<and> parts k \<subseteq>\<^sub>m parts k'"
proof (induction ticks arbitrary: k)
  case (0 k)
  then obtain m where "fetchTopicMetadata api (map ts_Name specs) k = Inr m" "topics_ready m specs = Inr True" "k' = k"
    by (subst (asm) waitForTopicMetadata.simps) (auto split: sum.splits bool.splits)
  then show ?case using topics_ready_ok [of m specs] fetch_sound(1) [OF assms] by auto
next
  case (Suc n k)
  then obtain m rdy where m: "fetchTopicMetadata api (map ts_Name specs) k = Inr m" "topics_ready m specs = Inr rdy"
    "if rdy then k' = k else waitForTopicMetadata n api specs (am_Tick api k) = (None, k')"
    by (subst (asm) (2) waitForTopicMetadata.simps) (auto split: sum.splits bool.splits)
  have "parts k \<subseteq>\<^sub>m parts (am_Tick api k)" using assms by (simp add: honest_def)
  then show ?case
    using topics_ready_ok [of m specs] fetch_sound(1) [OF assms m(1)] m(2,3) Suc.IH [of "am_Tick api k"] map_le_trans
    by (auto split: if_splits)
qed

lemma EnsureTopics_ok:
  assumes h: "honest api parts" and "EnsureTopics ticks api specs k = (None, k')"
  shows "(\<forall>spec \<in> set specs. parts k' (ts_Name spec) = Some (ts_Partitions spec)) \<and> parts k \<subseteq>\<^sub>m parts k'"
proof (cases "specs = []")
  case False
  then obtain existing where e: "fetchTopicMetadata api (map ts_Name specs) k = Inr existing" "counts_fit existing specs"
    using assms(2) by (auto simp: EnsureTopics_def split: option.splits sum.splits if_splits)
  define missing where "missing = missing_specs existing specs"
  have k': "parts k \<subseteq>\<^sub>m parts k' \<and> (\<forall>spec \<in> set missing. parts k' (ts_Name spec) = Some (ts_Partitions spec))"
  proof (cases "missing = []")
    case True
    then show ?thesis using assms(2) False e by (auto simp: EnsureTopics_def Let_def missing_def split: option.splits)
  next
    case miss: False
    then obtain k1 where k1: "createTopicSpecs api missing k = (None, k1)" "waitForTopicMetadata ticks api missing k1 = (None, k')"
      using assms(2) False e by (auto simp: EnsureTopics_def Let_def missing_def split: option.splits prod.splits)
    have "parts k \<subseteq>\<^sub>m parts k1" using h k1(1) by (auto simp: createTopicSpecs_def honest_def split: prod.splits sum.splits)
    then show ?thesis using wait_ok [OF h k1(2)] map_le_trans by blast
  qed
  have "parts k' (ts_Name spec) = Some (ts_Partitions spec)" if mem: "spec \<in> set specs" for spec
  proof (cases "go_get existing (ts_Name spec)")
    case None
    then show ?thesis using k' mem by (simp add: missing_def missing_specs_def)
  next
    case (Some n)
    then have "n = ts_Partitions spec" using e(2) mem by (auto simp: counts_fit_def split: option.splits)
    then show ?thesis using fetch_sound(1) [OF h e(1) Some] k' by (metis domI map_le_def)
  qed
  then show ?thesis using k' by blast
qed (use assms in \<open>simp add: EnsureTopics_def\<close>)

section \<open>The specs of a topology\<close>

lemma fold_specs_get: "name \<in> ts_Name ` set specs \<or> go_get m name \<noteq> None \<Longrightarrow> go_get (fold (\<lambda>s. go_set (ts_Name s) s) specs m) name \<noteq> None"
proof (induction specs arbitrary: m)
  case (Cons s specs)
  then show ?case using Cons.IH [of "go_set (ts_Name s) s m"] by auto
qed simp

lemma fold_specs_in: "go_get (fold (\<lambda>s. go_set (ts_Name s) s) specs m) name = Some s \<Longrightarrow> s \<in> set specs \<and> ts_Name s = name \<or> go_get m name = Some s"
  by (induction specs arbitrary: m) (fastforce split: if_splits)+

text \<open>Every topic of the list has a spec, with the partition count that all of them share.\<close>

lemma specs_by_name:
  assumes "spec \<in> set specs" "\<forall>s \<in> set specs. ts_Partitions s = P"
  shows "\<exists>s \<in> set (sort_by_name ts_Name (map snd (fold (\<lambda>s. go_set (ts_Name s) s) specs []))). ts_Name s = ts_Name spec \<and> ts_Partitions s = P"
proof -
  obtain s where s: "go_get (fold (\<lambda>s. go_set (ts_Name s) s) specs []) (ts_Name spec) = Some s"
    using fold_specs_get [of "ts_Name spec" specs "[]"] assms(1) by auto
  then have "s \<in> set specs" "ts_Name s = ts_Name spec" using fold_specs_in [OF s] by auto
  moreover have "s \<in> set (map snd (fold (\<lambda>s. go_set (ts_Name s) s) specs []))" using map_of_SomeD [OF s] by force
  ultimately show ?thesis using assms(2) by (auto simp: sort_by_name_def)
qed

lemma specs_in_order_names:
  "ts_Name ` set (specs_in_order cfg bt P) = changelog_topic (cf_ApplicationID cfg) ` snd ` set (store_changelogs bt)
      \<union> (\<lambda>(_, b). repartition_topic (cf_ApplicationID cfg) (rb_Name b)) ` set (bt_RepartitionBindings bt)"
  by (simp add: store_changelogs_def specs_in_order_def changelog_spec_def repartition_spec_def Let_def image_Un image_image case_prod_beta Un_assoc)

lemma specs_in_order_count:
  "\<forall>(_, b) \<in> set (bt_RepartitionBindings bt). rb_Partitions b = 0 \<or> rb_Partitions b = P \<Longrightarrow> \<forall>s \<in> set (specs_in_order cfg bt P). ts_Partitions s = P"
  by (auto simp: specs_in_order_def Let_def changelog_spec_def repartition_spec_def)

lemma sourcePartitionCount_ok:
  "sourcePartitionCount bs m count = Inr P \<Longrightarrow> 0 \<le> count \<Longrightarrow>
    0 < P \<and> (count = 0 \<or> P = count) \<and> (\<forall>b \<in> set bs. go_get m (so_Topic b) = Some P)"
  by (induction bs arbitrary: count) (fastforce split: option.splits if_splits)+

section \<open>Property\<close>

text \<open>
  C24: A prepared topology is co-partitioned. On a cluster that tells the truth about its topics and
  keeps them, when \<open>PrepareTopology\<close> succeeds every topic the user owns exists, all source topics
  have the same positive number of partitions, and every changelog and every repartition topic of
  the topology exists with that number; topics that existed before are untouched.
\<close>

theorem prepared_topology_copartitioned:
  assumes "honest api parts" "PrepareTopology ticks api cfg bt k = (None, k')"
  shows "\<exists>P > 0. (\<forall>(_, b) \<in> set (bt_Sources bt). parts k' (so_Topic b) = Some P)
    \<and> (\<forall>(_, b) \<in> set (bt_Sinks bt). parts k' (si_Topic b) \<noteq> None) \<and> (\<forall>(_, b) \<in> set (bt_GlobalTableBindings bt). parts k' (gb_Topic b) \<noteq> None)
    \<and> (\<forall>(n, cl) \<in> set (store_changelogs bt). parts k' (changelog_topic (cf_ApplicationID cfg) cl) = Some P)
    \<and> (\<forall>(_, b) \<in> set (bt_RepartitionBindings bt). parts k' (repartition_topic (cf_ApplicationID cfg) (rb_Name b)) = Some P)
    \<and> parts k \<subseteq>\<^sub>m parts k'"
proof -
  obtain meta P where p: "fetchTopicMetadata api (external_names bt) k = Inr meta" "\<forall>name \<in> set (external_names bt). go_get meta name \<noteq> None"
      "sourcePartitionCount (map snd (bt_Sources bt)) meta 0 = Inr P"
      "\<forall>(_, b) \<in> set (bt_RepartitionBindings bt). rb_Partitions b = 0 \<or> rb_Partitions b = P"
      "EnsureTopics ticks api (internalTopicSpecs cfg bt P) k = (None, k')"
    using assms(2) by (auto simp: PrepareTopology_def split: option.splits sum.splits if_splits prod.splits)
  note src = sourcePartitionCount_ok [OF p(3)]
  have ens: "\<forall>spec \<in> set (internalTopicSpecs cfg bt P). parts k' (ts_Name spec) = Some (ts_Partitions spec)" "parts k \<subseteq>\<^sub>m parts k'"
    using EnsureTopics_ok [OF assms(1) p(5)] by simp_all
  have keep: "parts k name = Some n \<Longrightarrow> parts k' name = Some n" for name n
    using ens(2) by (metis domI map_le_def)
  have ext: "parts k' name \<noteq> None" if mem: "name \<in> set (external_names bt)" for name
  proof -
    obtain n where "go_get meta name = Some n" using p(2) mem by auto
    then show ?thesis using keep [OF fetch_sound(1) [OF assms(1) p(1)]] by simp
  qed
  have named: "parts k' name = Some P" if "name \<in> ts_Name ` set (specs_in_order cfg bt P)" for name
    using specs_by_name [OF _ specs_in_order_count [OF p(4)]] ens(1) that unfolding internalTopicSpecs_def by fastforce
  have "parts k' (changelog_topic (cf_ApplicationID cfg) cl) = Some P" if "(n, cl) \<in> set (store_changelogs bt)" for n cl
    by (rule named) (use that in \<open>force simp: specs_in_order_names\<close>)
  moreover have "parts k' (repartition_topic (cf_ApplicationID cfg) (rb_Name b)) = Some P" if "(x, b) \<in> set (bt_RepartitionBindings bt)" for x b
    by (rule named) (use that in \<open>force simp: specs_in_order_names\<close>)
  moreover have "\<forall>(_, b) \<in> set (bt_Sources bt). parts k' (so_Topic b) = Some P"
    using src keep fetch_sound(1) [OF assms(1) p(1)] by fastforce
  moreover have "\<forall>(_, b) \<in> set (bt_Sinks bt). parts k' (si_Topic b) \<noteq> None" "\<forall>(_, b) \<in> set (bt_GlobalTableBindings bt). parts k' (gb_Topic b) \<noteq> None"
    using ext by (force simp: external_names_def sort_by_name_def)+
  ultimately show ?thesis using src ens(2) by auto
qed

text \<open>A cluster as a list of topics, which creates what it is asked to at once.\<close>

definition list_admin :: "(string, int) gomap AdminApi" where
  "list_admin = \<lparr>am_NewClient = None,
     am_Metadata = (\<lambda>names k. Inr (map (\<lambda>name. case go_get k name of None \<Rightarrow> (Some name, UnknownTopicOrPartition, 0)
       | Some n \<Rightarrow> (Some name, NoTopicError, n)) names)),
     am_CreateTopics = (\<lambda>specs k. (Inr (map (\<lambda>s. (ts_Name s, if go_get k (ts_Name s) = None then NoTopicError else TopicAlreadyExists)) specs),
       k @ map (\<lambda>s. (ts_Name s, ts_Partitions s)) specs)), am_Tick = id\<rparr>"

lemma list_admin_honest: "honest list_admin map_of"
  by (auto simp: honest_def list_admin_def map_le_def split: option.splits)
    (auto simp: image_iff split: option.splits)

theorem prepared_topology_copartitioned_witness:
  "\<exists>k' P. PrepareTopology 150 list_admin demo_cfg (demo_bt\<lparr>bt_Sources := [(''src'', \<lparr>so_Topic = ''in'', so_DecodeKey = Inr \<circ> GoBytes, so_DecodeVal = Inr \<circ> GoBytes\<rparr>)]\<rparr>)
      [(''in'', 4)] = (None, k') \<and> 0 < P \<and> map_of k' ''in'' = Some P \<and> map_of k' ''app-a-changelog'' = Some P"
proof -
  let ?bt = "demo_bt\<lparr>bt_Sources := [(''src'', \<lparr>so_Topic = ''in'', so_DecodeKey = Inr \<circ> GoBytes, so_DecodeVal = Inr \<circ> GoBytes\<rparr>)]\<rparr>"
  let ?r = "PrepareTopology 150 list_admin demo_cfg ?bt [(''in'', 4)]"
  have "fst ?r = None" by code_simp
  then have "?r = (None, snd ?r)" by (metis prod.collapse)
  from prepared_topology_copartitioned [OF list_admin_honest this] this show ?thesis
    by (auto simp: store_changelogs_def demo_bt_def demo_cfg_def changelog_topic_def)
qed

end
