(* ===== verification/GlobalConsumer.thy ===== *)
theory GlobalConsumer
  imports Admin
begin

text \<open>
  \<open>internal/runtime/health.go\<close> and \<open>internal/runtime/global_consumer.go\<close>: the fatal-error signal of a
  pipeline, and the consumer of a global table. \<open>Bootstrap\<close> copies the topic into a store until every
  partition has reached the high watermark it had at the start; \<open>TailConsume\<close> applies what comes
  after. A poll is one event; the library's client keeps its position, so successive polls
  continue the topic.
\<close>

section \<open>Pipeline health\<close>

text \<open>\<open>atomic.Pointer[fatalErr]\<close>: nil or the first fatal error; \<open>CompareAndSwap(nil, err)\<close> writes once.\<close>

type_synonym PipelineHealth = "error option"

definition Fail :: "error \<Rightarrow> PipelineHealth \<Rightarrow> PipelineHealth" where
  "Fail err h = (case h of None \<Rightarrow> Some err | Some e \<Rightarrow> Some e)"

definition health_Err :: "PipelineHealth \<Rightarrow> error option" where
  "health_Err h = h"

definition Healthy :: "PipelineHealth \<Rightarrow> bool" where
  "Healthy h \<longleftrightarrow> h = None"

section \<open>The consumer\<close>

record 'b GlobalConsumer =
  gc_backend :: "'b StoreBackend"
  gc_data :: 'b
  gc_storeName :: string
  gc_topic :: string
  gc_hasClient :: bool
  gc_tailing :: bool
  gc_hasHealth :: bool

definition NewGlobalConsumer :: "'b Config \<Rightarrow> 'a GlobalTableBinding \<Rightarrow> error + 'b GlobalConsumer" where
  "NewGlobalConsumer cfg binding =
     (case cf_StoreProvider cfg of
        None \<Rightarrow> Inl (Err ''runtime.NewGlobalConsumer: StoreProvider is required'')
      | Some Open \<Rightarrow>
        (case Open (filepath_Join [cf_StateDir cfg, cf_ApplicationID cfg, ''global-'' @ gb_StoreName binding]) of
           Inl err \<Rightarrow> Inl (Wrap ''runtime.NewGlobalConsumer: open store backend'' [err])
         | Inr (be, b) \<Rightarrow>
           (case be_OpenStore be (gb_StoreName binding) False b of
              (Some err, _) \<Rightarrow> Inl (Wrap ''runtime.NewGlobalConsumer: open store'' [err])
            | (None, b') \<Rightarrow> Inr \<lparr>gc_backend = be, gc_data = b', gc_storeName = gb_StoreName binding, gc_topic = gb_Topic binding,
                gc_hasClient = False, gc_tailing = False, gc_hasHealth = False\<rparr>)))"

definition gc_store :: "'b GlobalConsumer \<Rightarrow> 'b Store" where
  "gc_store gc = be_Store (gc_backend gc) (gc_storeName gc)"

definition applyKV :: "bytes \<Rightarrow> bytes option \<Rightarrow> 'b GlobalConsumer \<Rightarrow> error option \<times> 'b GlobalConsumer" where
  "applyKV key value gc =
     (case value of
        Some (v # vs) \<Rightarrow>
          (case Put (gc_store gc) key (v # vs) (gc_data gc) of
             (Some err, b) \<Rightarrow> (Some (Wrap ''applyKV: Put'' [err]), gc\<lparr>gc_data := b\<rparr>)
           | (None, b) \<Rightarrow> (None, gc\<lparr>gc_data := b\<rparr>))
      | _ \<Rightarrow>
          (case Delete (gc_store gc) key (gc_data gc) of
             (Some err, b) \<Rightarrow> (Some (Wrap ''applyKV: Delete'' [err]), gc\<lparr>gc_data := b\<rparr>)
           | (None, b) \<Rightarrow> (None, gc\<lparr>gc_data := b\<rparr>)))"

definition gc_applyRecord :: "KRecord \<Rightarrow> 'b GlobalConsumer \<Rightarrow> error option \<times> 'b GlobalConsumer" where
  "gc_applyRecord r gc = applyKV (k_Key r) (k_Value r) gc"

subsection \<open>High watermarks of all partitions\<close>

text \<open>
  The response of \<open>ListOffsets\<close>: per topic the partitions with their error and offset. Creating the
  client is the first argument of \<open>fetchAllPartitionHWMs\<close>, the request the second.
\<close>

fun hwm_partitions :: "(int \<times> error option \<times> int) list \<Rightarrow> (int, int) gomap \<Rightarrow> error + (int, int) gomap" where
  "hwm_partitions [] result = Inr result"
| "hwm_partitions ((p, Some err, off) # ps) result = Inl (Wrap ''fetchAllPartitionHWMs: topic partition'' [err])"
| "hwm_partitions ((p, None, off) # ps) result = hwm_partitions ps (go_set p (if off < 0 then 0 else off) result)"

fun hwm_topics :: "string \<Rightarrow> (string \<times> (int \<times> error option \<times> int) list) list \<Rightarrow> (int, int) gomap \<Rightarrow> error + (int, int) gomap" where
  "hwm_topics topic [] result = Inr result"
| "hwm_topics topic ((t, ps) # ts) result =
     (if t \<noteq> topic then hwm_topics topic ts result
      else case hwm_partitions ps result of Inl err \<Rightarrow> Inl err | Inr result' \<Rightarrow> hwm_topics topic ts result')"

definition fetchAllPartitionHWMs :: "error option \<Rightarrow> (string \<Rightarrow> int list \<Rightarrow> error + (string \<times> (int \<times> error option \<times> int) list) list)
    \<Rightarrow> string \<Rightarrow> int \<Rightarrow> error + (int, int) gomap" where
  "fetchAllPartitionHWMs newClient ListOffsets topic numPartitions =
     (case newClient of
        Some err \<Rightarrow> Inl (Wrap ''fetchAllPartitionHWMs: create client'' [err])
      | None \<Rightarrow> (case ListOffsets topic [0..numPartitions - 1] of
        Inl err \<Rightarrow> Inl (Wrap ''fetchAllPartitionHWMs: ListOffsets request'' [err])
      | Inr resp \<Rightarrow> (case hwm_topics topic resp [] of
        Inl err \<Rightarrow> Inl err
      | Inr result \<Rightarrow>
        if \<exists>i \<in> set [0..numPartitions - 1]. go_get result i = None
        then Inl (Err ''fetchAllPartitionHWMs: partition not found in response'') else Inr result)))"

subsection \<open>Bootstrap\<close>

text \<open>\<open>pstates\<close>: per partition the high watermark and whether it was reached.\<close>

type_synonym pStates = "(int, int \<times> bool) gomap"

definition mark_done :: "KRecord \<Rightarrow> pStates \<Rightarrow> pStates" where
  "mark_done r pstates =
     (case go_get pstates (k_Partition r) of
        Some (hwm, fin) \<Rightarrow> if k_Offset r \<ge> i64 (hwm - 1) then go_set (k_Partition r) (hwm, True) pstates else pstates
      | None \<Rightarrow> pstates)"

text \<open>\<open>EachRecord\<close>: after the first error the remaining records are skipped.\<close>

fun bootstrap_records :: "KRecord list \<Rightarrow> 'b GlobalConsumer \<Rightarrow> pStates \<Rightarrow> error option \<times> 'b GlobalConsumer \<times> pStates" where
  "bootstrap_records [] gc pstates = (None, gc, pstates)"
| "bootstrap_records (r # rs) gc pstates =
     (case gc_applyRecord r gc of
        (Some err, gc') \<Rightarrow> (Some err, gc', pstates)
      | (None, gc') \<Rightarrow> bootstrap_records rs gc' (mark_done r pstates))"

definition all_reached :: "pStates \<Rightarrow> bool" where
  "all_reached pstates \<longleftrightarrow> (\<forall>(p, hwm, fin) \<in> set pstates. fin)"

text \<open>The poll loop; \<open>None\<close>: it is still waiting when the polls are used up.\<close>

fun bootstrap_loop :: "Poll list \<Rightarrow> 'b GlobalConsumer \<Rightarrow> pStates \<Rightarrow> (error option) option \<times> 'b GlobalConsumer" where
  "bootstrap_loop [] gc pstates = ((if all_reached pstates then Some None else None), gc)"
| "bootstrap_loop (p # ps) gc pstates =
     (if all_reached pstates then (Some None, gc)
      else case p_ctxBefore p of
        Some err \<Rightarrow> (Some (Some (Wrap ''runtime.GlobalConsumer.Bootstrap: context done during consume'' [err])), gc)
      | None \<Rightarrow>
        if f_Closed (p_fetches p) then (Some None, gc)
        else case f_Err (p_fetches p) of
          Some err \<Rightarrow> (Some (Some (Wrap ''runtime.GlobalConsumer.Bootstrap: poll fetches'' [err])), gc)
        | None \<Rightarrow> (case bootstrap_records (f_Records (p_fetches p)) gc pstates of
            (Some err, gc', _) \<Rightarrow> (Some (Some (Wrap ''runtime.GlobalConsumer.Bootstrap: apply record'' [err])), gc')
          | (None, gc', pstates') \<Rightarrow> bootstrap_loop ps gc' pstates'))"

definition start_states :: "int \<Rightarrow> (int, int) gomap \<Rightarrow> pStates" where
  "start_states nPartitions hwms = map (\<lambda>i. let hw = the (go_get hwms i) in (i, hw, hw = 0)) [0..nPartitions - 1]"

record 'k BootEnv =
  bo_admin :: "'k AdminApi"
  bo_cluster :: 'k
  bo_offsetsClient :: "error option"
  bo_ListOffsets :: "string \<Rightarrow> int list \<Rightarrow> error + (string \<times> (int \<times> error option \<times> int) list) list"
  bo_client :: "error option"
  bo_polls :: "Poll list"

definition Bootstrap :: "'k BootEnv \<Rightarrow> 'b GlobalConsumer \<Rightarrow> (error option) option \<times> 'b GlobalConsumer" where
  "Bootstrap ev gc =
     (case FetchPartitionCount (bo_admin ev) (gc_topic gc) (bo_cluster ev) of
        Inl err \<Rightarrow> (Some (Some (Wrap ''runtime.GlobalConsumer.Bootstrap: fetch partition count'' [err])), gc)
      | Inr nPartitions \<Rightarrow>
        if nPartitions = 0 then (Some (Some (Err ''runtime.GlobalConsumer.Bootstrap: topic has 0 partitions'')), gc)
        else case fetchAllPartitionHWMs (bo_offsetsClient ev) (bo_ListOffsets ev) (gc_topic gc) nPartitions of
          Inl err \<Rightarrow> (Some (Some (Wrap ''runtime.GlobalConsumer.Bootstrap: fetch HWMs'' [err])), gc)
        | Inr hwms \<Rightarrow> (case bo_client ev of
          Some err \<Rightarrow> (Some (Some (Wrap ''runtime.GlobalConsumer.Bootstrap: create client'' [err])), gc)
        | None \<Rightarrow> (case bootstrap_loop (bo_polls ev) gc (start_states nPartitions hwms) of
            (Some None, gc') \<Rightarrow> (Some None, gc'\<lparr>gc_hasClient := True\<rparr>)
          | (r, gc') \<Rightarrow> (r, gc'))))"

subsection \<open>The tail\<close>

text \<open>The health is shared with the adapter; the consumer only knows whether it was wired.\<close>

definition SetHealth :: "'b GlobalConsumer \<Rightarrow> 'b GlobalConsumer" where
  "SetHealth gc = gc\<lparr>gc_hasHealth := True\<rparr>"

text \<open>A store-write error ends the batch; any other error is logged and its record skipped.\<close>

fun tail_records :: "KRecord list \<Rightarrow> 'b GlobalConsumer \<Rightarrow> error option \<times> 'b GlobalConsumer" where
  "tail_records [] gc = (None, gc)"
| "tail_records (r # rs) gc =
     (case gc_applyRecord r gc of
        (None, gc') \<Rightarrow> tail_records rs gc'
      | (Some err, gc') \<Rightarrow> if is_store_write err then (Some err, gc') else tail_records rs gc')"

text \<open>
  The goroutine over the polls it has seen so far; its result is whether it is still running. Each
  event has the state of \<open>tailCtx\<close> before and after the poll.
\<close>

fun tail_loop :: "Poll list \<Rightarrow> 'b GlobalConsumer \<Rightarrow> PipelineHealth \<Rightarrow> bool \<times> 'b GlobalConsumer \<times> PipelineHealth" where
  "tail_loop [] gc health = (True, gc, health)"
| "tail_loop (p # ps) gc health =
     (if p_ctxBefore p \<noteq> None then (False, gc, health)
      else if f_Closed (p_fetches p) then (False, gc, health)
      else if p_ctxAfter p \<noteq> None then (False, gc, health)
      else case tail_records (f_Records (p_fetches p)) gc of
        (None, gc') \<Rightarrow> tail_loop ps gc' health
      | (Some err, gc') \<Rightarrow> (False, gc', if gc_hasHealth gc' then Fail err health else health))"

definition TailConsume :: "'b GlobalConsumer \<Rightarrow> error option \<times> 'b GlobalConsumer" where
  "TailConsume gc =
     (if \<not> gc_hasClient gc then (Some (Err ''runtime.GlobalConsumer.TailConsume: Bootstrap must be called first''), gc)
      else (None, gc\<lparr>gc_tailing := True\<rparr>))"

text \<open>\<open>Close\<close>, after the goroutine has ended: the store, then the back end.\<close>

definition gc_Close :: "'b GlobalConsumer \<Rightarrow> error option \<times> 'b GlobalConsumer" where
  "gc_Close gc =
     (let b = snd (Close (gc_store gc) (gc_data gc)) in
      case be_Close (gc_backend gc) b of (err, b') \<Rightarrow> (err, gc\<lparr>gc_data := b', gc_tailing := False, gc_hasClient := False\<rparr>))"

section \<open>What a bootstrap applies\<close>

lemma gc_store_data [simp]: "gc_store (gc\<lparr>gc_data := b\<rparr>) = gc_store gc"
  by (simp add: gc_store_def)

lemma mark_done_get:
  "go_get (mark_done r pst) p = map_option (\<lambda>(h, fin). (h, fin \<or> k_Partition r = p \<and> i64 (h - 1) \<le> k_Offset r)) (go_get pst p)"
  by (cases "go_get pst p"; cases "p = k_Partition r") (auto simp: mark_done_def split: option.split)

lemma mark_done_ok: "go_map_ok pst \<Longrightarrow> go_map_ok (mark_done r pst)"
  by (auto simp: mark_done_def split: option.split)

lemma fold_mark_done_get:
  "go_get (fold mark_done rs pst) p
    = map_option (\<lambda>(h, fin). (h, fin \<or> (\<exists>r \<in> set rs. k_Partition r = p \<and> i64 (h - 1) \<le> k_Offset r))) (go_get pst p)"
proof (induction rs arbitrary: pst)
  case Nil
  then show ?case by (cases "go_get pst p") auto
next
  case (Cons r rs)
  then show ?case by (cases "go_get pst p") (auto simp: mark_done_get split: prod.split)
qed

lemma fold_mark_done_ok: "go_map_ok pst \<Longrightarrow> go_map_ok (fold mark_done rs pst)"
  by (induction rs arbitrary: pst) (simp_all add: mark_done_ok)

lemma all_reached_get: "go_map_ok pst \<Longrightarrow> all_reached pst \<longleftrightarrow> (\<forall>p h fin. go_get pst p = Some (h, fin) \<longrightarrow> fin)"
  by (fastforce simp: all_reached_def go_map_in_set)

lemma all_reached_fold: "go_map_ok pst \<Longrightarrow> all_reached pst \<Longrightarrow> all_reached (fold mark_done rs pst)"
  by (fastforce simp: all_reached_get fold_mark_done_ok fold_mark_done_get)

context byte_store
begin

lemma gc_apply:
  assumes "gc_store gc = st" "ok (gc_data gc)" "gc_applyRecord r gc = (e, gc')"
  shows "e = None \<and> gc_store gc' = st \<and> ok (gc_data gc') \<and> view (gc_data gc') = mutate (record_mutation r) (view (gc_data gc))"
proof (cases "k_Value r = None \<or> k_Value r = Some []")
  case True
  obtain e1 b where d: "Delete st (k_Key r) (gc_data gc) = (e1, b)" by fastforce
  have "gc_applyRecord r gc = (None, gc\<lparr>gc_data := b\<rparr>)" "record_mutation r = \<lparr>m_Key = k_Key r, m_Value = None\<rparr>"
    using True d delete_law [OF assms(2) d] assms(1) by (auto simp: gc_applyRecord_def applyKV_def record_mutation_def)
  then show ?thesis using assms delete_law [OF assms(2) d] by (simp add: mutate_def)
next
  case False
  then obtain x xs where v: "k_Value r = Some (x # xs)" by (cases "k_Value r"; cases "the (k_Value r)") auto
  obtain e1 b where d: "Put st (k_Key r) (x # xs) (gc_data gc) = (e1, b)" by fastforce
  have "gc_applyRecord r gc = (None, gc\<lparr>gc_data := b\<rparr>)" "record_mutation r = \<lparr>m_Key = k_Key r, m_Value = Some (x # xs)\<rparr>"
    using v d put_law [OF assms(2) d] assms(1) by (auto simp: gc_applyRecord_def applyKV_def record_mutation_def)
  then show ?thesis using assms put_law [OF assms(2) d] by (simp add: mutate_def)
qed

lemma bootstrap_records_ok:
  assumes "gc_store gc = st" "ok (gc_data gc)"
  shows "\<exists>gc'. bootstrap_records rs gc pst = (None, gc', fold mark_done rs pst) \<and> gc_store gc' = st \<and> ok (gc_data gc')
    \<and> view (gc_data gc') = fold mutate (map record_mutation rs) (view (gc_data gc))"
  using assms
proof (induction rs arbitrary: gc pst)
  case (Cons r rs)
  obtain e gc1 where a: "gc_applyRecord r gc = (e, gc1)" by fastforce
  note g = gc_apply [OF Cons.prems a]
  then show ?case using Cons.IH [of gc1 "mark_done r pst"] a by auto
qed simp

lemma bootstrap_loop_ok:
  assumes "gc_store gc = st" "ok (gc_data gc)" "\<forall>p \<in> set ps. healthy p" "go_map_ok pst"
  shows "if all_reached (fold mark_done (delivered ps) pst)
    then \<exists>ps1 ps2 gc'. ps = ps1 @ ps2 \<and> bootstrap_loop ps gc pst = (Some None, gc') \<and> all_reached (fold mark_done (delivered ps1) pst)
      \<and> view (gc_data gc') = fold mutate (map record_mutation (delivered ps1)) (view (gc_data gc))
    else fst (bootstrap_loop ps gc pst) = None"
  using assms
proof (induction ps arbitrary: gc pst)
  case (Cons p ps)
  show ?case
  proof (cases "all_reached pst")
    case True
    have "\<exists>ps1 ps2 gc'. p # ps = ps1 @ ps2 \<and> bootstrap_loop (p # ps) gc pst = (Some None, gc') \<and> all_reached (fold mark_done (delivered ps1) pst)
      \<and> view (gc_data gc') = fold mutate (map record_mutation (delivered ps1)) (view (gc_data gc))"
      by (rule exI [of _ "[]"]) (simp add: True)
    then show ?thesis using all_reached_fold [OF Cons.prems(4) True, of "delivered (p # ps)"] by simp
  next
    case False
    let ?rs = "f_Records (p_fetches p)"
    obtain gc1 where g: "bootstrap_records ?rs gc pst = (None, gc1, fold mark_done ?rs pst)" "gc_store gc1 = st" "ok (gc_data gc1)"
        "view (gc_data gc1) = fold mutate (map record_mutation ?rs) (view (gc_data gc))"
      using bootstrap_records_ok [OF Cons.prems(1,2)] by blast
    have step: "bootstrap_loop (p # ps) gc pst = bootstrap_loop ps gc1 (fold mark_done ?rs pst)"
      using False Cons.prems(3) g(1) by (simp add: healthy_def)
    note ih = Cons.IH [OF g(2,3) _ fold_mark_done_ok [OF Cons.prems(4)], of ?rs]
    show ?thesis
    proof (cases "all_reached (fold mark_done (delivered (p # ps)) pst)")
      case True
      then obtain ps1 ps2 gc' where "ps = ps1 @ ps2" "bootstrap_loop ps gc1 (fold mark_done ?rs pst) = (Some None, gc')"
          "all_reached (fold mark_done (delivered ps1) (fold mark_done ?rs pst))"
          "view (gc_data gc') = fold mutate (map record_mutation (delivered ps1)) (view (gc_data gc1))"
        using ih Cons.prems(3) by auto
      then show ?thesis using True step g(4) by (simp, intro exI [of _ "p # ps1"]) simp
    next
      case notall: False
      then show ?thesis using ih Cons.prems(3) step by simp
    qed
  qed
qed (auto simp: all_reached_fold)

end

text \<open>Every partition that was not empty has delivered its last record.\<close>

definition caught_up :: "int \<Rightarrow> (int, int) gomap \<Rightarrow> KRecord list \<Rightarrow> bool" where
  "caught_up nPartitions hwms recs \<longleftrightarrow> (\<forall>i \<in> {0..<nPartitions}. the (go_get hwms i) = 0
     \<or> (\<exists>r \<in> set recs. k_Partition r = i \<and> the (go_get hwms i) - 1 \<le> k_Offset r))"

lemma start_states_ok: "go_map_ok (start_states n hwms)"
  by (simp add: go_map_ok_def start_states_def Let_def comp_def)

lemma start_states_get: "go_get (start_states n hwms) i = (if i \<in> {0..<n} then Some (the (go_get hwms i), the (go_get hwms i) = 0) else None)"
proof -
  have "(i, x) \<in> set (start_states n hwms) \<longleftrightarrow> i \<in> {0..<n} \<and> x = (the (go_get hwms i), the (go_get hwms i) = 0)" for x
    by (auto simp: start_states_def Let_def)
  then have "go_get (start_states n hwms) i = Some x \<longleftrightarrow> i \<in> {0..<n} \<and> x = (the (go_get hwms i), the (go_get hwms i) = 0)" for x
    by (metis go_map_in_set [OF start_states_ok])
  then show ?thesis by (cases "go_get (start_states n hwms) i") (simp_all, metis+)
qed

lemma reached_caught_up:
  assumes "\<forall>i \<in> {0..<n}. 0 \<le> the (go_get hwms i) \<and> is_i64 (the (go_get hwms i))"
  shows "all_reached (fold mark_done recs (start_states n hwms)) \<longleftrightarrow> caught_up n hwms recs"
proof -
  have h: "i64 (the (go_get hwms i) - 1) = the (go_get hwms i) - 1" if "i \<in> {0..<n}" for i
  proof (rule i64_id)
    have "0 \<le> the (go_get hwms i)" "is_i64 (the (go_get hwms i))" using assms that by blast+
    then show "is_i64 (the (go_get hwms i) - 1)" by (simp add: is_i64_def MinInt64_def)
  qed
  show ?thesis
    using h by (auto simp: all_reached_get [OF fold_mark_done_ok [OF start_states_ok]] fold_mark_done_get start_states_get caught_up_def)
qed

lemma hwm_partitions_nonneg:
  "hwm_partitions ps r = Inr m \<Longrightarrow> \<forall>i n. go_get r i = Some n \<longrightarrow> 0 \<le> n \<Longrightarrow> go_get m i = Some n \<Longrightarrow> 0 \<le> n"
  by (induction ps r rule: hwm_partitions.induct) (auto split: if_splits)

lemma hwm_topics_nonneg:
  "hwm_topics topic ts r = Inr m \<Longrightarrow> \<forall>i n. go_get r i = Some n \<longrightarrow> 0 \<le> n \<Longrightarrow> go_get m i = Some n \<Longrightarrow> 0 \<le> n"
proof (induction topic ts r rule: hwm_topics.induct)
  case (2 topic t ps ts r)
  then show ?case using hwm_partitions_nonneg [of ps r] by (auto split: if_splits sum.splits)
qed auto

lemma hwms_nonneg:
  assumes "fetchAllPartitionHWMs nc lo topic n = Inr hwms" "i \<in> {0..<n}"
  shows "0 \<le> the (go_get hwms i)"
proof -
  obtain resp where r: "hwm_topics topic resp [] = Inr hwms" "\<forall>i \<in> set [0..n - 1]. go_get hwms i \<noteq> None"
    using assms(1) by (auto simp: fetchAllPartitionHWMs_def split: option.splits sum.splits if_splits)
  then obtain h where "go_get hwms i = Some h" using assms(2) by (force simp: atLeastAtMost_iff)
  then show ?thesis using hwm_topics_nonneg [OF r(1)] by simp
qed

section \<open>Property\<close>

text \<open>
  C25: A global table is bootstrapped exactly when its last records arrive. With a working store, a
  reachable cluster and polls without errors, \<open>Bootstrap\<close> returns if and only if the polls deliver,
  for every partition with a high watermark above zero, a record at or after the offset just below
  that watermark; then the store holds what it held before with the delivered records applied in
  order up to that point. Otherwise it waits: in a topic whose last offset is not a record but
  the commit marker of a transaction, no record ever has that offset, and \<open>Bootstrap\<close> never returns.
\<close>

theorem bootstrap_returns_iff_caught_up:
  assumes "byte_store (gc_store gc) view ok" "ok (gc_data gc)" "\<forall>p \<in> set (bo_polls ev). healthy p" "bo_client ev = None"
    and "FetchPartitionCount (bo_admin ev) (gc_topic gc) (bo_cluster ev) = Inr n" "0 < n"
    and hw: "fetchAllPartitionHWMs (bo_offsetsClient ev) (bo_ListOffsets ev) (gc_topic gc) n = Inr hwms"
    and "\<forall>i \<in> {0..<n}. is_i64 (the (go_get hwms i))"
  shows "if caught_up n hwms (delivered (bo_polls ev))
    then \<exists>ps1 ps2 gc'. bo_polls ev = ps1 @ ps2 \<and> Bootstrap ev gc = (Some None, gc') \<and> caught_up n hwms (delivered ps1)
      \<and> view (gc_data gc') = fold mutate (map record_mutation (delivered ps1)) (view (gc_data gc))
    else fst (Bootstrap ev gc) = None"
proof -
  have c: "all_reached (fold mark_done recs (start_states n hwms)) \<longleftrightarrow> caught_up n hwms recs" for recs
    by (rule reached_caught_up) (use hwms_nonneg [OF hw] assms(8) in simp)
  have b: "Bootstrap ev gc = (case bootstrap_loop (bo_polls ev) gc (start_states n hwms) of
      (Some None, gc') \<Rightarrow> (Some None, gc'\<lparr>gc_hasClient := True\<rparr>) | (r, gc') \<Rightarrow> (r, gc'))"
    using assms(4-7) by (simp add: Bootstrap_def)
  note loop = byte_store.bootstrap_loop_ok [OF assms(1) refl assms(2,3) start_states_ok, of n hwms, unfolded c]
  show ?thesis
  proof (cases "caught_up n hwms (delivered (bo_polls ev))")
    case True
    with loop obtain ps1 ps2 gc' where "bo_polls ev = ps1 @ ps2" "bootstrap_loop (bo_polls ev) gc (start_states n hwms) = (Some None, gc')"
        "caught_up n hwms (delivered ps1)" "view (gc_data gc') = fold mutate (map record_mutation (delivered ps1)) (view (gc_data gc))"
      by auto
    then show ?thesis using True b by (simp, intro exI [of _ ps1]) simp
  next
    case False
    then show ?thesis using loop b by (auto split: prod.splits option.splits)
  qed
qed

text \<open>A topic of one partition with two records and the high watermark \<open>hw\<close>.\<close>

definition boot_env :: "int \<Rightarrow> (string, int) gomap BootEnv" where
  "boot_env hw = \<lparr>bo_admin = list_admin, bo_cluster = [(''g'', 1)], bo_offsetsClient = None,
     bo_ListOffsets = (\<lambda>t ps. Inr [(t, map (\<lambda>p. (p, None, hw)) ps)]), bo_client = None,
     bo_polls = [poll_of [log_record 0 [1] (Some [5]), log_record 1 [2] (Some [6])], poll_of []]\<rparr>"

definition boot_gc :: "MemBackend GlobalConsumer" where
  "boot_gc = \<lparr>gc_backend = mem_backend, gc_data = two_stores, gc_storeName = ''a'', gc_topic = ''g'', gc_hasClient = False,
     gc_tailing = False, gc_hasHealth = False\<rparr>"

theorem bootstrap_returns_iff_caught_up_witness:
  "(\<exists>gc'. Bootstrap (boot_env 2) boot_gc = (Some None, gc') \<and> mem_view ''a'' (gc_data gc') [2] = Some [6]) \<and> fst (Bootstrap (boot_env 3) boot_gc) = None"
proof -
  have st: "byte_store (gc_store boot_gc) (mem_view ''a'') (mem_ok ''a'')" "mem_ok ''a'' (gc_data boot_gc)"
    using mem.byte_store_axioms two_stores_ok(1) by (simp_all add: gc_store_def boot_gc_def mem_backend_def)
  have cluster: "FetchPartitionCount (bo_admin (boot_env hw)) (gc_topic boot_gc) (bo_cluster (boot_env hw)) = Inr 1"
    "fetchAllPartitionHWMs (bo_offsetsClient (boot_env hw)) (bo_ListOffsets (boot_env hw)) (gc_topic boot_gc) 1 = Inr [(0, if hw < 0 then 0 else hw)]"
    "\<forall>p \<in> set (bo_polls (boot_env hw)). healthy p" "bo_client (boot_env hw) = None" for hw
    by (simp_all add: boot_env_def boot_gc_def FetchPartitionCount_def list_admin_def fetchTopicMetadata_def fetchAllPartitionHWMs_def
        healthy_def poll_of_def)
  let ?recs = "[log_record 0 [1] (Some [5]), log_record 1 [2] (Some [6])]"
  have del: "delivered (bo_polls (boot_env hw)) = ?recs" for hw by (simp add: boot_env_def poll_of_def)
  note iff = bootstrap_returns_iff_caught_up [OF st cluster(3,4,1) _ cluster(2)]
  have one: "{0..<1 :: int} = {0}" by auto
  have up: "caught_up 1 [(0, 2)] recs \<longleftrightarrow> (\<exists>r \<in> set recs. k_Partition r = 0 \<and> 1 \<le> k_Offset r)" "\<not> caught_up 1 [(0, 3)] ?recs" for recs
    by (simp_all add: caught_up_def one log_record_def)
  have "caught_up 1 [(0, 2)] ?recs" unfolding up by (simp add: log_record_def)
  then obtain ps1 ps2 gc' where p: "bo_polls (boot_env 2) = ps1 @ ps2" "Bootstrap (boot_env 2) boot_gc = (Some None, gc')"
      "caught_up 1 [(0, 2)] (delivered ps1)"
      "mem_view ''a'' (gc_data gc') = fold mutate (map record_mutation (delivered ps1)) (mem_view ''a'' (gc_data boot_gc))"
    using iff [of 2] unfolding del by (auto simp: is_i64_def MinInt64_def MaxInt64_def)
  have "ps1 \<noteq> []" using p(3) by (auto simp: up)
  then have "delivered ps1 = ?recs" using p(1) by (cases ps1) (auto simp: boot_env_def poll_of_def Cons_eq_append_conv)
  then have "mem_view ''a'' (gc_data gc') [2] = Some [6]" by (simp add: p(4) log_record_def record_mutation_def mutate_def)
  moreover have "fst (Bootstrap (boot_env 3) boot_gc) = None"
    using iff [of 3] up(2) unfolding del by (simp add: is_i64_def MinInt64_def MaxInt64_def)
  ultimately show ?thesis using p(2) by blast
qed

end
