(* ===== verification/Batch.thy ===== *)
theory Batch
  imports KafkaTypes "HOL-Library.Multiset"
begin

text \<open>
  \<open>internal/kafka/batch.go\<close>: processing one polled batch, in order and with one goroutine per
  partition. The handler \<open>process\<close> acts on a state \<open>'w\<close> (tasks and stores). The goroutines of
  \<open>processBatchConcurrent\<close> are workers that take turns; the order of the turns is the argument
  \<open>sched\<close>, so a statement for all \<open>sched\<close> covers every interleaving of the handler's calls.
\<close>

section \<open>Definitions\<close>

type_synonym 'w ProcessRecord = "InRecord \<Rightarrow> 'w \<Rightarrow> (error + OutRecord list) \<times> 'w"

text \<open>The result is \<open>None\<close> for \<open>(nil, false)\<close>.\<close>

fun process_loop :: "'w ProcessRecord \<Rightarrow> InRecord list \<Rightarrow> OutRecord list \<Rightarrow> 'w \<Rightarrow> OutRecord list option \<times> 'w" where
  "process_loop process [] outputs w = (Some outputs, w)"
| "process_loop process (r # rs) outputs w =
     (case process r w of
        (Inl err, w') \<Rightarrow> (None, w')
      | (Inr out, w') \<Rightarrow> process_loop process rs (outputs @ out) w')"

definition processBatch :: "'w ProcessRecord \<Rightarrow> InRecord list \<Rightarrow> 'w \<Rightarrow> OutRecord list option \<times> 'w" where
  "processBatch process inRecords = process_loop process inRecords []"

text \<open>\<open>groups\<close> and \<open>groupIndex\<close>: the records by partition, in the order of first appearance.\<close>

definition add_to_group :: "(int, InRecord list) gomap \<Rightarrow> InRecord \<Rightarrow> (int, InRecord list) gomap" where
  "add_to_group groups r =
     go_set (in_Partition r)
       ((case go_get groups (in_Partition r) of None \<Rightarrow> [] | Some rs \<Rightarrow> rs) @ [r]) groups"

definition group_records :: "InRecord list \<Rightarrow> (int, InRecord list) gomap" where
  "group_records inRecords = foldl add_to_group [] inRecords"

text \<open>
  A worker goroutine waits for the semaphore, processes its records, and has returned
  (releasing the semaphore) with the result of its \<open>processBatch\<close>.
\<close>

datatype Worker =
    Waiting "InRecord list"
  | Running "InRecord list" "OutRecord list"
  | Returned "OutRecord list option"

fun is_running :: "Worker \<Rightarrow> bool" where
  "is_running (Running rs outs) = True"
| "is_running _ = False"

fun returned :: "Worker \<Rightarrow> bool" where
  "returned (Returned r) = True"
| "returned _ = False"

text \<open>One turn of worker \<open>i\<close>: nothing happens when it waits for a full semaphore or has returned.\<close>

definition worker_turn :: "'w ProcessRecord \<Rightarrow> nat \<Rightarrow> nat \<Rightarrow> Worker list \<times> 'w \<Rightarrow> Worker list \<times> 'w" where
  "worker_turn process workers i = (\<lambda>(ws, w).
     if i < length ws then
       (case ws ! i of
          Waiting rs \<Rightarrow> if length (filter is_running ws) < workers then (ws[i := Running rs []], w) else (ws, w)
        | Running [] outs \<Rightarrow> (ws[i := Returned (Some outs)], w)
        | Running (r # rs) outs \<Rightarrow> (case process r w of
            (Inl err, w') \<Rightarrow> (ws[i := Returned None], w')
          | (Inr out, w') \<Rightarrow> (ws[i := Running rs (outs @ out)], w'))
        | Returned r \<Rightarrow> (ws, w))
     else (ws, w))"

definition run_workers :: "'w ProcessRecord \<Rightarrow> nat \<Rightarrow> nat list \<Rightarrow> Worker list \<times> 'w \<Rightarrow> Worker list \<times> 'w" where
  "run_workers process workers sched st = fold (worker_turn process workers) sched st"

text \<open>The loop over the results after \<open>waitGroup.Wait()\<close>.\<close>

fun join_results :: "Worker list \<Rightarrow> OutRecord list \<Rightarrow> OutRecord list option" where
  "join_results [] outputs = Some outputs"
| "join_results (Returned (Some outs) # ws) outputs = join_results ws (outputs @ outs)"
| "join_results (w # ws) outputs = None"

text \<open>\<open>None\<close>: after the turns of \<open>sched\<close> some worker has not returned, and \<open>Wait\<close> still blocks.\<close>

definition processBatchConcurrent :: "nat list \<Rightarrow> 'w ProcessRecord \<Rightarrow> int \<Rightarrow> InRecord list \<Rightarrow> 'w
    \<Rightarrow> (OutRecord list option \<times> 'w) option" where
  "processBatchConcurrent sched process maxThreads inRecords w =
     (if maxThreads \<le> 1 \<or> length inRecords < 2 then Some (processBatch process inRecords w)
      else let groups = group_records inRecords in
        if length groups = 1 then Some (processBatch process inRecords w)
        else let workers = nat (min maxThreads (int (length groups))) in
          case run_workers process workers sched (map (\<lambda>(p, rs). Waiting rs) groups, w) of
            (ws, w') \<Rightarrow> if list_all returned ws then Some (join_results ws [], w') else None)"

section \<open>Grouping\<close>

lemma group_records_get: "go_get (group_records rs) p = (case filter (\<lambda>r. in_Partition r = p) rs of [] \<Rightarrow> None | xs \<Rightarrow> Some xs)"
proof (induction rs rule: rev_induct)
  case Nil
  then show ?case by (simp add: group_records_def)
next
  case (snoc r rs)
  have "group_records (rs @ [r]) = add_to_group (group_records rs) r" by (simp add: group_records_def)
  then show ?case using snoc by (auto simp: add_to_group_def split: list.splits)
qed

lemma group_records_ok: "go_map_ok (group_records rs)"
proof (induction rs rule: rev_induct)
  case (snoc r rs)
  have "group_records (rs @ [r]) = add_to_group (group_records rs) r" by (simp add: group_records_def)
  then show ?case using snoc by (simp add: add_to_group_def)
qed (simp add: group_records_def)

lemma group_records_mem:
  "(p, xs) \<in> set (group_records rs) \<longleftrightarrow> xs = filter (\<lambda>r. in_Partition r = p) rs \<and> xs \<noteq> []"
  by (auto simp: go_map_in_set [OF group_records_ok] group_records_get split: list.split)

section \<open>Loops with an accumulator\<close>

lemma process_loop_acc:
  "process_loop process rs outs w = map_prod (map_option ((@) outs)) id (process_loop process rs [] w)"
proof (induction rs arbitrary: outs w)
  case (Cons r rs)
  obtain res w1 where r: "process r w = (res, w1)" by fastforce
  show ?case
  proof (cases res)
    case (Inl e)
    then show ?thesis using r by simp
  next
    case (Inr out)
    have "process_loop process rs (outs @ out) w1 = map_prod (map_option ((@) (outs @ out))) id (process_loop process rs [] w1)"
      by (rule Cons.IH)
    moreover have "process_loop process rs out w1 = map_prod (map_option ((@) out)) id (process_loop process rs [] w1)"
      by (rule Cons.IH)
    ultimately show ?thesis using r Inr
      by (cases "process_loop process rs [] w1", cases "fst (process_loop process rs [] w1)") auto
  qed
qed simp

lemma join_results_acc: "join_results ws outs = map_option ((@) outs) (join_results ws [])"
proof (induction ws arbitrary: outs)
  case (Cons w ws)
  show ?case
  proof (cases "\<exists>o'. w = Returned (Some o')")
    case True
    then obtain o' where w: "w = Returned (Some o')" by blast
    have "join_results ws (outs @ o') = map_option ((@) (outs @ o')) (join_results ws [])" by (rule Cons.IH)
    moreover have "join_results ws o' = map_option ((@) o') (join_results ws [])" by (rule Cons.IH)
    ultimately show ?thesis using w by (cases "join_results ws []") auto
  next
    case False
    then have "join_results (w # ws) x = None" for x
      by (cases "(w # ws, x)" rule: join_results.cases) auto
    then show ?thesis by simp
  qed
qed simp

section \<open>The outputs by record and by partition\<close>

text \<open>
  What the handler gives for each record of the batch, taken in order; the outputs of the records
  of one partition; and the partitions in the order of their first record.
\<close>

fun record_outputs :: "'w ProcessRecord \<Rightarrow> InRecord list \<Rightarrow> 'w \<Rightarrow> OutRecord list list" where
  "record_outputs process [] w = []"
| "record_outputs process (r # rs) w =
     (case process r w of (Inl err, w') \<Rightarrow> [] | (Inr out, w') \<Rightarrow> out # record_outputs process rs w')"

definition partition_outputs :: "InRecord list \<Rightarrow> OutRecord list list \<Rightarrow> int \<Rightarrow> OutRecord list" where
  "partition_outputs ins os p = concat (map snd (filter (\<lambda>x. in_Partition (fst x) = p) (zip ins os)))"

definition partition_order :: "InRecord list \<Rightarrow> int list" where
  "partition_order ins = rev (remdups (rev (map in_Partition ins)))"

lemma set_partition_order: "set (partition_order ins) = in_Partition ` set ins"
  by (simp add: partition_order_def)

lemma distinct_partition_order: "distinct (partition_order ins)"
  by (simp add: partition_order_def)

lemma map_fst_go_set:
  "map fst (go_set k v xs) = (if k \<in> fst ` set xs then map fst xs else map fst xs @ [k])"
  by (induction xs) auto

lemma group_records_order: "map fst (group_records ins) = partition_order ins"
proof (induction ins rule: rev_induct)
  case Nil
  then show ?case by (simp add: group_records_def partition_order_def)
next
  case (snoc r rs)
  have "fst ` set (group_records rs) = in_Partition ` set rs"
    using arg_cong [OF snoc, of set] by (simp add: set_partition_order)
  moreover have "group_records (rs @ [r]) = add_to_group (group_records rs) r" by (simp add: group_records_def)
  ultimately show ?case
    using snoc by (auto simp: add_to_group_def map_fst_go_set partition_order_def)
qed

lemma partition_outputs_one:
  assumes "length (partition_order ins) \<le> 1" "length os = length ins"
  shows "concat (map (partition_outputs ins os) (partition_order ins)) = concat os"
proof (cases ins)
  case Nil
  then show ?thesis using assms by (simp add: partition_order_def)
next
  case (Cons r rs)
  then have "in_Partition r \<in> set (partition_order ins)" by (simp add: set_partition_order)
  with assms(1) have ps: "partition_order ins = [in_Partition r]"
    by (cases "partition_order ins" rule: list.exhaust; cases "tl (partition_order ins)") auto
  then have "\<forall>x \<in> set ins. in_Partition x = in_Partition r"
    using set_partition_order [of ins] by auto
  then have "filter (\<lambda>x. in_Partition (fst x) = in_Partition r) (zip ins os) = zip ins os"
    by (auto simp: filter_id_conv dest: set_zip_leftD)
  then show ?thesis using assms(2) by (simp add: ps partition_outputs_def)
qed

lemma partition_outputs_mset:
  "length os = length ins \<Longrightarrow> finite P \<Longrightarrow> in_Partition ` set ins \<subseteq> P \<Longrightarrow>
    (\<Sum>p\<in>P. mset (partition_outputs ins os p)) = mset (concat os)"
proof (induction os ins rule: list_induct2)
  case Nil
  then show ?case by (simp add: partition_outputs_def)
next
  case (Cons x os r rs)
  have q: "in_Partition r \<in> P" using Cons.prems(2) by simp
  have "(\<Sum>p\<in>P. mset (partition_outputs (r # rs) (x # os) p))
      = (\<Sum>p\<in>P. (if p = in_Partition r then mset x else {#}) + mset (partition_outputs rs os p))"
    by (rule sum.cong) (auto simp: partition_outputs_def)
  also have "\<dots> = mset x + (\<Sum>p\<in>P. mset (partition_outputs rs os p))"
    using Cons.prems(1) q by (simp add: sum.distrib)
  finally show ?case using Cons.IH Cons.prems by simp
qed

section \<open>Handlers that keep to their partition\<close>

text \<open>
  What makes the concurrency safe: a record is handled on the task of its partition alone. \<open>task p\<close>
  reads the task of partition \<open>p\<close> from the state, and \<open>local\<close> is the handler on one task.
\<close>

locale partitioned =
  fixes process :: "'w ProcessRecord" and task :: "int \<Rightarrow> 'w \<Rightarrow> 't" and local :: "'t ProcessRecord"
  assumes local_law: "process r w = (res, w') \<Longrightarrow> local r (task (in_Partition r) w) = (res, task (in_Partition r) w')"
    and frame_law: "process r w = (res, w') \<Longrightarrow> p \<noteq> in_Partition r \<Longrightarrow> task p w' = task p w"
begin

text \<open>The partition \<open>p\<close> on its own: its records in order, on its task.\<close>

definition alone :: "int \<Rightarrow> InRecord list \<Rightarrow> 'w \<Rightarrow> OutRecord list option \<times> 't" where
  "alone p rs w = processBatch local (filter (\<lambda>r. in_Partition r = p) rs) (task p w)"

lemma sequential_ok:
  assumes "process_loop process rs outs w = (Some outs', w')"
  shows "length (record_outputs process rs w) = length rs \<and> outs' = outs @ concat (record_outputs process rs w)
    \<and> (\<forall>p. alone p rs w = (Some (partition_outputs rs (record_outputs process rs w) p), task p w'))"
  using assms
proof (induction rs arbitrary: outs w)
  case Nil
  then show ?case by (simp add: alone_def processBatch_def partition_outputs_def)
next
  case (Cons r rs)
  let ?q = "in_Partition r"
  obtain out w1 where r: "process r w = (Inr out, w1)" and l: "process_loop process rs (outs @ out) w1 = (Some outs', w')"
    using Cons.prems(1) by (auto split: prod.splits sum.splits)
  let ?os = "record_outputs process rs w1"
  have IH: "length ?os = length rs" "outs' = (outs @ out) @ concat ?os"
    "\<And>p. alone p rs w1 = (Some (partition_outputs rs ?os p), task p w')"
    using Cons.IH [OF l] by blast+
  have "alone p (r # rs) w = (Some (partition_outputs (r # rs) (out # ?os) p), task p w')" for p
  proof (cases "p = ?q")
    case True
    have "alone ?q (r # rs) w = map_prod (map_option ((@) out)) id (alone ?q rs w1)"
      using local_law [OF r] process_loop_acc [of local "filter (\<lambda>x. in_Partition x = ?q) rs" out "task ?q w1"]
      by (simp add: alone_def processBatch_def)
    then show ?thesis using IH(3) [of p] True by (simp add: partition_outputs_def)
  next
    case False
    then have "alone p (r # rs) w = alone p rs w1"
      using frame_law [OF r False] by (simp add: alone_def)
    then show ?thesis using IH(3) [of p] False by (simp add: partition_outputs_def)
  qed
  then show ?case using IH(1,2) r by simp
qed

lemma sequential_err:
  assumes "process_loop process rs outs w = (None, w')"
  shows "\<exists>p \<in> in_Partition ` set rs. fst (alone p rs w) = None"
  using assms
proof (induction rs arbitrary: outs w)
  case (Cons r rs)
  let ?q = "in_Partition r"
  obtain res w1 where r: "process r w = (res, w1)" by fastforce
  show ?case
  proof (cases res)
    case (Inl e)
    then have "fst (alone ?q (r # rs) w) = None" using local_law [OF r] by (simp add: alone_def processBatch_def)
    then show ?thesis by auto
  next
    case (Inr out)
    with Cons r obtain p where p: "p \<in> in_Partition ` set rs" "fst (alone p rs w1) = None" by fastforce
    have "fst (alone p (r # rs) w) = None"
    proof (cases "p = ?q")
      case True
      then show ?thesis
        using p local_law [OF r] Inr process_loop_acc [of local "filter (\<lambda>x. in_Partition x = ?q) rs" out "task ?q w1"]
        by (simp add: alone_def processBatch_def)
    next
      case False
      then show ?thesis using p frame_law [OF r False] by (simp add: alone_def)
    qed
    then show ?thesis using p by auto
  qed
qed simp

text \<open>The invariant of the workers: each has done the first part of what its partition does alone.\<close>

fun worker_ok :: "'w \<Rightarrow> 'w \<Rightarrow> int \<times> InRecord list \<Rightarrow> Worker \<Rightarrow> bool" where
  "worker_ok w0 w (p, g) (Waiting rs) \<longleftrightarrow> rs = g \<and> task p w = task p w0"
| "worker_ok w0 w (p, g) (Running rs outs) \<longleftrightarrow> (\<forall>r \<in> set rs. in_Partition r = p)
     \<and> process_loop local rs outs (task p w) = processBatch local g (task p w0)"
| "worker_ok w0 w (p, g) (Returned res) \<longleftrightarrow> processBatch local g (task p w0) = (res, task p w)"

definition workers_ok :: "'w \<Rightarrow> (int \<times> InRecord list) list \<Rightarrow> Worker list \<times> 'w \<Rightarrow> bool" where
  "workers_ok w0 groups = (\<lambda>(ws, w). length ws = length groups \<and> (\<forall>i < length ws. worker_ok w0 w (groups ! i) (ws ! i))
     \<and> (\<forall>p. p \<notin> fst ` set groups \<longrightarrow> task p w = task p w0))"

lemma worker_ok_frame: "task (fst g) w = task (fst g) w' \<Longrightarrow> worker_ok w0 w g wk \<longleftrightarrow> worker_ok w0 w' g wk"
  by (cases g, cases wk) simp_all

lemma workers_ok_update:
  assumes "workers_ok w0 groups (ws, w)" "distinct (map fst groups)" "i < length ws"
    and "\<And>p. p \<noteq> fst (groups ! i) \<Longrightarrow> task p w' = task p w" "worker_ok w0 w' (groups ! i) wk"
  shows "workers_ok w0 groups (ws[i := wk], w')"
proof -
  have len: "length ws = length groups" using assms(1) by (simp add: workers_ok_def)
  have "worker_ok w0 w' (groups ! j) (ws[i := wk] ! j)" if j: "j < length ws" for j
  proof (cases "j = i")
    case True
    then show ?thesis using assms(3,5) by simp
  next
    case False
    then have "fst (groups ! j) \<noteq> fst (groups ! i)"
      using assms(2,3) j len by (metis length_map nth_eq_iff_index_eq nth_map)
    then have "task (fst (groups ! j)) w' = task (fst (groups ! j)) w" by (rule assms(4))
    then have "worker_ok w0 w' (groups ! j) (ws ! j)"
      using worker_ok_frame [of "groups ! j" w' w] assms(1) j by (simp add: workers_ok_def)
    then show ?thesis using False by simp
  qed
  moreover have "task p w' = task p w0" if "p \<notin> fst ` set groups" for p
  proof -
    have "p \<noteq> fst (groups ! i)" using that assms(3) len by (metis image_eqI nth_mem)
    then have "task p w' = task p w" by (rule assms(4))
    also have "\<dots> = task p w0" using assms(1) that by (simp add: workers_ok_def)
    finally show ?thesis .
  qed
  ultimately show ?thesis using len by (simp add: workers_ok_def)
qed

definition grouped :: "(int \<times> InRecord list) list \<Rightarrow> bool" where
  "grouped groups \<longleftrightarrow> distinct (map fst groups) \<and> (\<forall>(p, g) \<in> set groups. \<forall>r \<in> set g. in_Partition r = p)"

lemma turn_ok:
  assumes "workers_ok w0 groups (ws, w)" "grouped groups"
  shows "workers_ok w0 groups (worker_turn process n i (ws, w))"
proof (cases "i < length ws")
  case False
  then show ?thesis using assms(1) by (simp add: worker_turn_def)
next
  case i: True
  obtain p g where pg: "groups ! i = (p, g)" by fastforce
  have ok: "worker_ok w0 w (p, g) (ws ! i)" using assms(1) i pg by (force simp: workers_ok_def)
  have dist: "distinct (map fst groups)" using assms(2) by (simp add: grouped_def)
  have "groups ! i \<in> set groups" using assms(1) i by (simp add: workers_ok_def)
  then have g: "\<forall>r \<in> set g. in_Partition r = p" using assms(2) pg by (auto simp: grouped_def)
  note upd = workers_ok_update [OF assms(1) dist i]
  show ?thesis
  proof (cases "ws ! i")
    case (Waiting rs)
    then have "worker_ok w0 w (groups ! i) (Running rs [])" using ok pg g by (simp add: processBatch_def)
    then have "workers_ok w0 groups (ws[i := Running rs []], w)" using upd by simp
    then show ?thesis using assms(1) i Waiting by (simp add: worker_turn_def)
  next
    case (Returned res)
    then show ?thesis using assms(1) i by (simp add: worker_turn_def)
  next
    case (Running rs outs)
    show ?thesis
    proof (cases rs)
      case Nil
      then have "worker_ok w0 w (groups ! i) (Returned (Some outs))" using ok Running pg by simp
      then have "workers_ok w0 groups (ws[i := Returned (Some outs)], w)" using upd by simp
      then show ?thesis using i Running Nil by (simp add: worker_turn_def)
    next
      case (Cons r rs')
      obtain res w' where r: "process r w = (res, w')" by fastforce
      have p: "in_Partition r = p" "\<forall>r \<in> set rs'. in_Partition r = p" using ok Running Cons by simp_all
      have frame: "task q w' = task q w" if "q \<noteq> fst (groups ! i)" for q
        using frame_law [OF r] that p pg by simp
      have l: "local r (task p w) = (res, task p w')" using local_law [OF r] p by simp
      define wk where "wk = (case res of Inl _ \<Rightarrow> Returned None | Inr out \<Rightarrow> Running rs' (outs @ out))"
      have "worker_ok w0 w' (groups ! i) wk"
        using ok Running Cons l p(2) pg by (cases res) (simp_all add: wk_def)
      then have "workers_ok w0 groups (ws[i := wk], w')" using upd frame by blast
      then show ?thesis using i Running Cons r by (cases res) (simp_all add: worker_turn_def wk_def)
    qed
  qed
qed

lemma run_workers_ok:
  assumes "workers_ok w0 groups st" "grouped groups"
  shows "workers_ok w0 groups (run_workers process n sched st)"
  using assms(1)
proof (induction sched arbitrary: st)
  case (Cons i sched)
  have "workers_ok w0 groups (worker_turn process n i st)"
    using turn_ok [of w0 groups "fst st" "snd st" n i] Cons.prems assms(2) by simp
  then show ?case using Cons.IH by (simp add: run_workers_def)
qed (simp add: run_workers_def)

lemma concurrent_agrees:
  assumes c: "processBatchConcurrent sched process maxThreads ins w0 = Some (res, w)" and s: "processBatch process ins w0 = (res', w')"
  shows "(res = None \<longleftrightarrow> res' = None)
    \<and> (\<forall>outs outs'. res = Some outs \<longrightarrow> res' = Some outs' \<longrightarrow>
        outs' = concat (record_outputs process ins w0)
        \<and> outs = (if maxThreads \<le> 1 then concat (record_outputs process ins w0)
            else concat (map (partition_outputs ins (record_outputs process ins w0)) (partition_order ins)))
        \<and> mset outs = mset outs' \<and> (\<forall>p. task p w = task p w'))"
proof (cases "maxThreads \<le> 1 \<or> length ins < 2 \<or> length (group_records ins) = 1")
  case True
  then have "Some (processBatch process ins w0) = Some (res, w)"
    using c by (auto simp: processBatchConcurrent_def Let_def split: if_splits)
  then have same: "res = res'" "w = w'" using s by simp_all
  moreover have "concat (map (partition_outputs ins os) (partition_order ins)) = concat os"
    if "\<not> maxThreads \<le> 1" "length os = length ins" for os
  proof (rule partition_outputs_one [OF _ that(2)])
    have "length (group_records ins) \<le> 1"
      using True that(1) by (cases ins rule: remdups_adj.cases) (auto simp: group_records_def add_to_group_def)
    then show "length (partition_order ins) \<le> 1"
      using arg_cong [OF group_records_order [of ins], of length] by simp
  qed
  ultimately show ?thesis
    using s sequential_ok [of ins "[]" w0] by (auto simp: processBatch_def)
next
  case False
  let ?gs = "group_records ins"
  let ?n = "nat (min maxThreads (int (length ?gs)))"
  obtain ws where ws: "run_workers process ?n sched (map (\<lambda>(p, rs). Waiting rs) ?gs, w0) = (ws, w)"
      "list_all returned ws" "res = join_results ws []"
    using c False by (auto simp: processBatchConcurrent_def Let_def split: prod.splits if_splits)
  have gr: "grouped ?gs"
    using group_records_ok [of ins] by (auto simp: grouped_def go_map_ok_def group_records_mem)
  have "workers_ok w0 ?gs (map (\<lambda>(p, rs). Waiting rs) ?gs, w0)"
    by (simp add: workers_ok_def case_prod_beta) (metis prod.collapse worker_ok.simps(1))
  then have ok: "workers_ok w0 ?gs (ws, w)" using run_workers_ok [OF _ gr] ws(1) by metis
  have each: "\<exists>r. ws ! i = Returned r \<and> alone (fst (?gs ! i)) ins w0 = (r, task (fst (?gs ! i)) w)" if i: "i < length ?gs" for i
  proof -
    obtain p g where pg: "?gs ! i = (p, g)" by fastforce
    then have "(p, g) \<in> set ?gs" using i by (metis nth_mem)
    then have "g = filter (\<lambda>r. in_Partition r = p) ins" by (simp add: group_records_mem)
    moreover have "i < length ws" using ok i by (simp add: workers_ok_def)
    moreover obtain r where "ws ! i = Returned r"
      using ws(2) calculation(2) by (metis list_all_length returned.elims(2))
    ultimately show ?thesis using ok pg by (force simp: workers_ok_def alone_def)
  qed
  have map: "ws = map (\<lambda>g. Returned (fst (alone (fst g) ins w0))) ?gs"
    using ok each by (intro nth_equalityI) (auto simp: workers_ok_def, metis fst_conv)
  have parts: "fst ` set ?gs = in_Partition ` set ins" (is "?A = ?B")
  proof (intro equalityI subsetI)
    fix p assume "p \<in> ?A"
    then obtain g where "(p, g) \<in> set ?gs" by force
    then show "p \<in> ?B" by (force simp: group_records_mem filter_empty_conv)
  next
    fix p assume "p \<in> ?B"
    then have "(p, filter (\<lambda>r. in_Partition r = p) ins) \<in> set ?gs" by (auto simp: group_records_mem filter_empty_conv)
    then show "p \<in> ?A" by force
  qed
  have join: "join_results (map (\<lambda>g. Returned (f g)) gs) [] = (if None \<in> f ` set gs then None else Some (concat (map (\<lambda>g. the (f g)) gs)))" for f gs
  proof (induction gs)
    case (Cons g gs)
    show ?case
    proof (cases "f g")
      case (Some o')
      have "join_results (map (\<lambda>g. Returned (f g)) gs) o' = map_option ((@) o') (join_results (map (\<lambda>g. Returned (f g)) gs) [])"
        by (rule join_results_acc)
      then show ?thesis using Cons Some by simp
    qed simp
  qed simp
  have tasks: "task p w = snd (alone p ins w0)" if "res \<noteq> None" for p
  proof (cases "p \<in> fst ` set ?gs")
    case True
    then obtain i where i: "i < length ?gs" "fst (?gs ! i) = p" by (auto simp: in_set_conv_nth)
    obtain r where "alone (fst (?gs ! i)) ins w0 = (r, task (fst (?gs ! i)) w)" using each [OF i(1)] by blast
    then show ?thesis using i(2) by simp
  next
    case False
    then have "filter (\<lambda>r. in_Partition r = p) ins = []" unfolding parts by (auto simp: filter_empty_conv)
    then show ?thesis using ok False by (simp add: workers_ok_def alone_def processBatch_def)
  qed
  have res: "res = (if \<exists>p \<in> in_Partition ` set ins. fst (alone p ins w0) = None then None
      else Some (concat (map (\<lambda>g. the (fst (alone (fst g) ins w0))) ?gs)))"
  proof -
    have "None \<in> (\<lambda>g. fst (alone (fst g) ins w0)) ` set ?gs \<longleftrightarrow> (\<exists>p \<in> fst ` set ?gs. fst (alone p ins w0) = None)"
      by (simp add: image_iff eq_commute [of None])
    then show ?thesis unfolding ws(3) map join parts [symmetric] by simp
  qed
  show ?thesis
  proof (cases res')
    case None
    then have "\<exists>p \<in> in_Partition ` set ins. fst (alone p ins w0) = None"
      using s sequential_err unfolding processBatch_def by blast
    then show ?thesis using res None by simp
  next
    case (Some outs')
    let ?os = "record_outputs process ins w0"
    have ok': "length ?os = length ins" "outs' = concat ?os"
      "\<And>p. alone p ins w0 = (Some (partition_outputs ins ?os p), task p w')"
      using sequential_ok [OF s [unfolded processBatch_def Some]] by simp_all
    then have "res = Some (concat (map (\<lambda>g. partition_outputs ins ?os (fst g)) ?gs))"
      using res by simp
    then have outs: "res = Some (concat (map (partition_outputs ins ?os) (partition_order ins)))"
      unfolding group_records_order [symmetric] by (simp add: comp_def)
    moreover have "mset (concat (map (partition_outputs ins ?os) (partition_order ins))) = mset outs'"
    proof -
      have "mset (concat (map (partition_outputs ins ?os) (partition_order ins)))
          = sum_list (map (\<lambda>p. mset (partition_outputs ins ?os p)) (partition_order ins))"
        by (simp add: mset_concat comp_def)
      also have "\<dots> = (\<Sum>p\<in>set (partition_order ins). mset (partition_outputs ins ?os p))"
        by (rule sum_list_distinct_conv_sum_set [OF distinct_partition_order])
      also have "\<dots> = mset outs'"
        using ok'(1,2) by (simp add: partition_outputs_mset set_partition_order)
      finally show ?thesis .
    qed
    moreover have "task p w = task p w'" for p
      using tasks [of p] ok'(3) [of p] outs by simp
    ultimately show ?thesis using Some False ok'(2) by simp
  qed
qed

end

section \<open>What successful records keep, a successful batch keeps\<close>

definition keeps :: "'w ProcessRecord \<Rightarrow> ('w \<Rightarrow> bool) \<Rightarrow> bool" where
  "keeps process P \<longleftrightarrow> (\<forall>r w out w'. process r w = (Inr out, w') \<longrightarrow> P w \<longrightarrow> P w')"

lemma keepsD: "keeps process P \<Longrightarrow> process r w = (Inr out, w') \<Longrightarrow> P w \<Longrightarrow> P w'"
  by (auto simp: keeps_def)

lemma in_set_update: "x \<in> set xs \<Longrightarrow> xs ! i \<noteq> x \<Longrightarrow> x \<in> set (xs[i := y])"
  by (metis in_set_conv_nth length_list_update nth_list_update_neq)

lemma worker_turn_failed: "Returned None \<in> set (fst st) \<Longrightarrow> Returned None \<in> set (fst (worker_turn process n i st))"
  by (cases st) (auto simp: worker_turn_def in_set_update split: Worker.splits list.splits prod.splits sum.splits)

lemma worker_turn_keeps:
  "keeps process P \<Longrightarrow> P (snd st) \<Longrightarrow> P (snd (worker_turn process n i st)) \<or> Returned None \<in> set (fst (worker_turn process n i st))"
  by (cases st) (auto simp: worker_turn_def set_update_memI dest: keepsD split: Worker.splits list.splits prod.splits sum.splits)

lemma run_workers_keeps:
  assumes "keeps process P" "P (snd st) \<or> Returned None \<in> set (fst st)"
  shows "P (snd (run_workers process n sched st)) \<or> Returned None \<in> set (fst (run_workers process n sched st))"
  using assms(2)
proof (induction sched arbitrary: st)
  case (Cons i sched)
  have "P (snd (worker_turn process n i st)) \<or> Returned None \<in> set (fst (worker_turn process n i st))"
    using Cons.prems worker_turn_failed worker_turn_keeps [OF assms(1)] by metis
  from Cons.IH [OF this] show ?case by (simp add: run_workers_def)
qed (simp add: run_workers_def)

lemma join_results_failed: "Returned None \<in> set ws \<Longrightarrow> join_results ws outs = None"
  by (induction ws outs rule: join_results.induct) auto

lemma process_loop_keeps: "keeps process P \<Longrightarrow> process_loop process rs outs w = (Some outs', w') \<Longrightarrow> P w \<Longrightarrow> P w'"
  by (induction rs arbitrary: outs w) (auto dest: keepsD split: prod.splits sum.splits)

lemma batch_success_keeps:
  assumes k: "keeps process P" and "P w" and "processBatchConcurrent sched process maxThreads ins w = Some (Some outs, w')"
  shows "P w'"
proof -
  have seq: "processBatch process ins w = (Some outs, w') \<Longrightarrow> P w'"
    using process_loop_keeps [OF k] assms(2) by (auto simp: processBatch_def)
  have "P w'" if "run_workers process n sched (ws, w) = (ws', w')" "join_results ws' [] = Some outs" for n ws ws'
    using run_workers_keeps [OF k, of "(ws, w)" n sched] join_results_failed [of ws' "[]"] that assms(2) by auto
  then show ?thesis using assms(3) seq
    by (auto simp: processBatchConcurrent_def Let_def split: if_splits prod.splits)
qed

text \<open>What every record keeps, failing ones included, any batch keeps.\<close>

definition maintains :: "'w ProcessRecord \<Rightarrow> ('w \<Rightarrow> bool) \<Rightarrow> bool" where
  "maintains process P \<longleftrightarrow> (\<forall>r w. P w \<longrightarrow> P (snd (process r w)))"

lemma maintainsD: "maintains process P \<Longrightarrow> process r w = (res, w') \<Longrightarrow> P w \<Longrightarrow> P w'"
  by (metis maintains_def snd_conv)

lemma worker_turn_maintains: "maintains process P \<Longrightarrow> P (snd st) \<Longrightarrow> P (snd (worker_turn process n i st))"
  by (cases st) (auto simp: worker_turn_def dest: maintainsD split: Worker.splits list.splits prod.splits sum.splits)

lemma run_workers_maintains: "maintains process P \<Longrightarrow> P (snd st) \<Longrightarrow> P (snd (run_workers process n sched st))"
  unfolding run_workers_def by (induction sched arbitrary: st) (auto simp: worker_turn_maintains)

lemma process_loop_maintains: "maintains process P \<Longrightarrow> P w \<Longrightarrow> P (snd (process_loop process rs outs w))"
  by (induction rs arbitrary: outs w) (auto dest: maintainsD split: prod.splits sum.splits)

lemma batch_maintains:
  assumes k: "maintains process P" and "P w" and "processBatchConcurrent sched process maxThreads ins w = Some (res, w')"
  shows "P w'"
proof -
  have "processBatch process ins w = (res, w') \<Longrightarrow> P w'"
    using process_loop_maintains [OF k assms(2), of ins "[]"] by (simp add: processBatch_def)
  moreover have "run_workers process n sched (ws, w) = (ws', w') \<Longrightarrow> P w'" for n ws ws'
    using run_workers_maintains [OF k, of "(ws, w)" n sched] assms(2) by simp
  ultimately show ?thesis using assms(3)
    by (auto simp: processBatchConcurrent_def Let_def split: if_splits prod.splits)
qed

section \<open>Fair schedules end\<close>

fun worker_work :: "Worker \<Rightarrow> nat" where
  "worker_work (Waiting rs) = length rs + 2"
| "worker_work (Running rs outs) = length rs + 1"
| "worker_work (Returned r) = 0"

definition work :: "Worker list \<Rightarrow> nat" where
  "work ws = sum_list (map worker_work ws)"

lemma work_update: "i < length ws \<Longrightarrow> worker_work wk < worker_work (ws ! i) \<Longrightarrow> work (ws[i := wk]) < work ws"
proof -
  assume a: "i < length ws" "worker_work wk < worker_work (ws ! i)"
  then obtain xs x ys where "ws = xs @ x # ys" "length xs = i"
    by (metis id_take_nth_drop length_take min.absorb4)
  then show ?thesis using a(2) by (auto simp: work_def)
qed

lemma work_zero: "work ws = 0 \<longleftrightarrow> list_all returned ws"
proof -
  have "worker_work wk = 0 \<longleftrightarrow> returned wk" for wk by (cases wk) simp_all
  then show ?thesis by (simp add: work_def list_all_iff)
qed

lemma turn_work: "worker_turn process n i (ws, w) = (ws, w) \<or> work (fst (worker_turn process n i (ws, w))) < work ws"
proof (cases "i < length ws")
  case i: True
  show ?thesis
  proof (cases "ws ! i")
    case (Running rs outs)
    then show ?thesis using i
      by (cases rs) (auto simp: worker_turn_def intro!: work_update split: prod.split sum.split)
  qed (use i in \<open>auto simp: worker_turn_def intro!: work_update\<close>)
qed (simp add: worker_turn_def)

lemma turns_work:
  "work (fst (run_workers process n sched st)) \<le> work (fst st)
   \<and> (work (fst (run_workers process n sched st)) = work (fst st)
      \<longrightarrow> run_workers process n sched st = st \<and> (\<forall>i \<in> set sched. worker_turn process n i st = st))"
proof (induction sched arbitrary: st)
  case (Cons i sched)
  have IH: "work (fst (run_workers process n sched st')) \<le> work (fst st')
   \<and> (work (fst (run_workers process n sched st')) = work (fst st')
      \<longrightarrow> run_workers process n sched st' = st' \<and> (\<forall>i \<in> set sched. worker_turn process n i st' = st'))" for st'
    by (rule Cons.IH)
  have "worker_turn process n i st = st \<or> work (fst (worker_turn process n i st)) < work (fst st)"
    using turn_work [of process n i "fst st" "snd st"] by simp
  then show ?case
  proof
    assume "worker_turn process n i st = st"
    then show ?thesis using IH [of st] by (simp add: run_workers_def)
  next
    assume "work (fst (worker_turn process n i st)) < work (fst st)"
    then show ?thesis using IH [of "worker_turn process n i st"] by (simp add: run_workers_def)
  qed
qed (simp add: run_workers_def)

lemma someone_can_move:
  assumes "\<not> list_all returned ws" "0 < n"
  shows "\<exists>i < length ws. worker_turn process n i (ws, w) \<noteq> (ws, w)"
proof (cases "\<exists>i < length ws. is_running (ws ! i)")
  case True
  then obtain i rs outs where i: "i < length ws" "ws ! i = Running rs outs" by (metis is_running.elims(2))
  have "ws[i := x] \<noteq> ws" if "x \<noteq> ws ! i" for x using that i(1) by (metis nth_list_update_eq)
  then have "worker_turn process n i (ws, w) \<noteq> (ws, w)"
    using i by (cases rs) (auto simp: worker_turn_def split: prod.split sum.split)
  then show ?thesis using i(1) by blast
next
  case False
  then have none: "filter is_running ws = []" by (auto simp: filter_empty_conv in_set_conv_nth)
  obtain i where i: "i < length ws" "\<not> returned (ws ! i)" using assms(1) by (auto simp: list_all_length)
  then obtain rs where rs: "ws ! i = Waiting rs" using False by (cases "ws ! i") auto
  then have ne: "ws[i := Running rs []] \<noteq> ws" using i(1) by (metis Worker.distinct(1) nth_list_update_eq)
  have "worker_turn process n i (ws, w) = (ws[i := Running rs []], w)" using i(1) rs none assms(2) by (simp add: worker_turn_def)
  then show ?thesis using i(1) ne by (intro exI [of _ i]) simp
qed

lemma length_turn: "length (fst (worker_turn process n i st)) = length (fst st)"
  by (cases st) (auto simp: worker_turn_def split: Worker.split list.split prod.split sum.split)

lemma length_run: "length (fst (run_workers process n sched st)) = length (fst st)"
  by (induction sched arbitrary: st) (simp_all add: run_workers_def length_turn)

lemma round_works:
  assumes "{..<length (fst st)} \<subseteq> set seg" "0 < n"
  shows "work (fst (run_workers process n seg st)) < work (fst st) \<or> work (fst (run_workers process n seg st)) = 0"
proof (rule ccontr)
  assume a: "\<not> ?thesis"
  then have eq: "work (fst (run_workers process n seg st)) = work (fst st)" "work (fst st) \<noteq> 0"
    using turns_work [of process n seg st] by auto
  then have noop: "\<forall>i \<in> set seg. worker_turn process n i st = st" using turns_work [of process n seg st] by blast
  have "\<not> list_all returned (fst st)" using eq(2) by (simp add: work_zero)
  from someone_can_move [OF this assms(2), of process "snd st"]
  obtain i where i: "i < length (fst st)" "worker_turn process n i (fst st, snd st) \<noteq> (fst st, snd st)" by (elim exE conjE)
  then have "i \<in> set seg" using assms(1) by blast
  with noop i(2) show False by simp
qed

lemma fair_schedule_ends:
  assumes "\<forall>seg \<in> set segs. {..<length (fst st)} \<subseteq> set seg" "0 < n" "work (fst st) \<le> length segs"
  shows "list_all returned (fst (run_workers process n (concat segs) st))"
proof -
  have "work (fst (run_workers process n (concat segs) st)) = 0"
    using assms(1,3)
  proof (induction segs arbitrary: st)
    case (Cons seg segs)
    let ?st = "run_workers process n seg st"
    have step: "run_workers process n (concat (seg # segs)) st = run_workers process n (concat segs) ?st"
      by (simp add: run_workers_def)
    have "work (fst ?st) < work (fst st) \<or> work (fst ?st) = 0"
      by (intro round_works) (use Cons.prems(1) assms(2) in auto)
    then have "work (fst ?st) \<le> length segs" using Cons.prems(2) by auto
    moreover have "\<forall>seg \<in> set segs. {..<length (fst ?st)} \<subseteq> set seg" using Cons.prems(1) by (simp add: length_run)
    ultimately show ?case unfolding step by (intro Cons.IH)
  qed (simp add: run_workers_def)
  then show ?thesis by (simp add: work_zero)
qed

lemma group_work: "work (map (\<lambda>(p, rs). Waiting rs) (group_records ins)) = length ins + 2 * length (group_records ins)"
proof -
  have "work (map (\<lambda>(p, rs). Waiting rs) gs) = sum_list (map (length \<circ> snd) gs) + 2 * length gs" for gs :: "(int \<times> InRecord list) list"
    by (induction gs) (auto simp: work_def)
  moreover have "sum_list (map (length \<circ> snd) (group_records ins)) = length ins"
  proof (induction ins rule: rev_induct)
    case (snoc r rs)
    have "sum_list (map (length \<circ> snd) (add_to_group gs r)) = Suc (sum_list (map (length \<circ> snd) gs))" for gs
      by (induction gs) (auto simp: add_to_group_def)
    then show ?case using snoc by (simp only: group_records_def foldl_append foldl.simps length_append list.size)
  qed (simp add: group_records_def)
  ultimately show ?thesis by simp
qed

section \<open>Properties\<close>

text \<open>
  C15: Every fair schedule of the goroutines completes the batch: there is no deadlock on the
  semaphore and no worker starves. Whatever the handler does, however many threads are
  configured, and in whatever order the workers get their turns, as long as every worker gets a
  turn in each of (number of records + 2 * number of partitions) rounds, \<open>processBatchConcurrent\<close> returns.
\<close>

theorem concurrent_batch_returns:
  assumes "\<forall>seg \<in> set rounds. {..<length (group_records ins)} \<subseteq> set seg"
    and "length ins + 2 * length (group_records ins) \<le> length rounds"
  shows "\<exists>res w'. processBatchConcurrent (concat rounds) process maxThreads ins w = Some (res, w')"
proof (cases "maxThreads \<le> 1 \<or> length ins < 2 \<or> length (group_records ins) = 1")
  case True
  then show ?thesis by (auto simp: processBatchConcurrent_def Let_def)
next
  case False
  let ?gs = "group_records ins"
  let ?st = "(map (\<lambda>(p, rs). Waiting rs) ?gs, w)"
  have "?gs \<noteq> []"
  proof -
    obtain r rs where "ins = r # rs" using False by (cases ins) auto
    then have "go_get ?gs (in_Partition r) \<noteq> None" by (simp add: group_records_get)
    then show ?thesis by auto
  qed
  then have n: "0 < nat (min maxThreads (int (length ?gs)))" using False by simp
  have "list_all returned (fst (run_workers process (nat (min maxThreads (int (length ?gs)))) (concat rounds) ?st))"
    using assms n by (intro fair_schedule_ends) (simp_all add: group_work)
  then show ?thesis using False by (auto simp: processBatchConcurrent_def Let_def split: prod.split)
qed

text \<open>
  Concurrent and sequential processing of a batch agree. For a handler that works on the task of
  the record's partition only, whatever the interleaving of the workers and the number of
  threads: the concurrent batch fails exactly when the sequential one does; and when it succeeds, every
  task ends in the same state, having seen the records of its partition in order, and
  the outputs are those of the records, partition by partition in the order of their first record
  and within a partition in the order of its records (on one thread, in the order of the batch).
\<close>

theorem concurrent_batch_agrees:
  assumes "partitioned process task local"
    and "processBatchConcurrent sched process maxThreads ins w = Some (res, w1)" "processBatch process ins w = (res', w2)"
  shows "(res = None \<longleftrightarrow> res' = None)
    \<and> (\<forall>outs outs'. res = Some outs \<longrightarrow> res' = Some outs' \<longrightarrow> outs' = concat (record_outputs process ins w)
         \<and> outs = (if maxThreads \<le> 1 then concat (record_outputs process ins w)
             else concat (map (partition_outputs ins (record_outputs process ins w)) (partition_order ins)))
         \<and> mset outs = mset outs'
         \<and> (\<forall>p. task p w1 = task p w2
              \<and> task p w1 = snd (processBatch local (filter (\<lambda>r. in_Partition r = p) ins) (task p w))))"
proof -
  note agrees = partitioned.concurrent_agrees [OF assms]
  have "task p w2 = snd (processBatch local (filter (\<lambda>r. in_Partition r = p) ins) (task p w))" if "res' = Some outs'" for p outs'
    using partitioned.sequential_ok [OF assms(1) assms(3) [unfolded processBatch_def that]]
    unfolding partitioned.alone_def [OF assms(1)] by simp
  with agrees show ?thesis by simp
qed

section \<open>Witnesses\<close>

text \<open>A handler that counts the records of each partition and echoes the key.\<close>

definition tally_process :: "(int \<Rightarrow> nat) ProcessRecord" where
  "tally_process r w = (Inr [\<lparr>out_Topic = ''t'', out_Key = in_Key r, out_Value = None, out_Partition = NilZero 0\<rparr>],
     w(in_Partition r := Suc (w (in_Partition r))))"

definition tally_local :: "nat ProcessRecord" where
  "tally_local r n = (Inr [\<lparr>out_Topic = ''t'', out_Key = in_Key r, out_Value = None, out_Partition = NilZero 0\<rparr>], Suc n)"

definition rec_at :: "int \<Rightarrow> bytes \<Rightarrow> InRecord" where
  "rec_at p key = \<lparr>in_Topic = ''t'', in_Partition = p, in_Offset = 0, in_Key = key, in_Value = None, in_Timestamp = 0\<rparr>"

lemma tally_partitioned: "partitioned tally_process (\<lambda>p w. w p) tally_local"
  by unfold_locales (auto simp: tally_process_def tally_local_def)

theorem concurrent_batch_returns_witness:
  "\<exists>res w'. processBatchConcurrent (concat (replicate 7 [1, 0])) tally_process 2 [rec_at 0 [1], rec_at 1 [2], rec_at 0 [3]] (\<lambda>_. 0)
    = Some (res, w')"
proof -
  have "length (group_records [rec_at 0 [1], rec_at 1 [2], rec_at 0 [3]]) = 2"
    by (simp add: group_records_def add_to_group_def rec_at_def)
  moreover have "{..<2} \<subseteq> {Suc 0, 0}" by auto
  ultimately show ?thesis
    using concurrent_batch_returns [of "replicate 7 [1, 0]" "[rec_at 0 [1], rec_at 1 [2], rec_at 0 [3]]" tally_process 2 "\<lambda>_. 0"]
    by auto
qed

theorem concurrent_batch_agrees_witness:
  "\<exists>outs w'. processBatchConcurrent (concat (replicate 4 [1, 0])) tally_process 2 [rec_at 0 [1], rec_at 1 [2], rec_at 0 [3]] (\<lambda>_. 0)
      = Some (Some outs, w') \<and> w' 0 = 2"
proof -
  let ?ins = "[rec_at 0 [1], rec_at 1 [2], rec_at 0 [3]]"
  obtain outs w' where c: "processBatchConcurrent (concat (replicate 4 [1, 0])) tally_process 2 ?ins (\<lambda>_. 0) = Some (Some outs, w')"
  proof -
    have "map_option (\<lambda>(res, w). res \<noteq> None) (processBatchConcurrent (concat (replicate 4 [1, 0])) tally_process 2 ?ins (\<lambda>_. 0)) = Some True"
      by code_simp
    then show ?thesis using that by auto
  qed
  have s: "processBatch tally_process ?ins (\<lambda>_. 0) = (fst (processBatch tally_process ?ins (\<lambda>_. 0)), snd (processBatch tally_process ?ins (\<lambda>_. 0)))"
    by simp
  obtain outs' where o: "fst (processBatch tally_process ?ins (\<lambda>_. 0)) = Some outs'"
    by (simp add: processBatch_def tally_process_def)
  have "w' 0 = snd (processBatch tally_local (filter (\<lambda>r. in_Partition r = 0) ?ins) 0)"
    using concurrent_batch_agrees [OF tally_partitioned c s] o by blast
  also have "\<dots> = 2" by (simp add: processBatch_def tally_local_def rec_at_def)
  finally show ?thesis using c by blast
qed

end
