(* ===== verification/ClientLoop.thy ===== *)
theory ClientLoop
  imports Batch
begin

text \<open>
  \<open>internal/kafka/client.go\<close>: the offset committer and the two run loops, at-least-once
  (\<open>runALO\<close>) and exactly-once (\<open>runEOS\<close>). The hooks are the functions the adapter injects; the
  environment (broker, clock, context, scheduler) answers through one event per poll. A loop
  leaves a trace of its interactions with Kafka, on which its guarantees are stated.
\<close>

section \<open>The offset committer\<close>

record aloOffsetCommitter =
  ao_pending :: "(string, (int, KRecord) gomap) gomap"
  ao_last :: int
  ao_interval :: int

definition newALOOffsetCommitter :: "int \<Rightarrow> int \<Rightarrow> aloOffsetCommitter" where
  "newALOOffsetCommitter now interval = \<lparr>ao_pending = [], ao_last = now, ao_interval = interval\<rparr>"

definition ao_add1 :: "KRecord \<Rightarrow> aloOffsetCommitter \<Rightarrow> aloOffsetCommitter" where
  "ao_add1 record c =
     (let partitions = (case go_get (ao_pending c) (k_Topic record) of None \<Rightarrow> [] | Some ps \<Rightarrow> ps);
          partitions' = (case go_get partitions (k_Partition record) of
             None \<Rightarrow> go_set (k_Partition record) record partitions
           | Some previous \<Rightarrow> if k_Offset record > k_Offset previous
                            then go_set (k_Partition record) record partitions else partitions)
      in c\<lparr>ao_pending := go_set (k_Topic record) partitions' (ao_pending c)\<rparr>)"

definition ao_add :: "KRecord list \<Rightarrow> aloOffsetCommitter \<Rightarrow> aloOffsetCommitter" where
  "ao_add records c = fold ao_add1 records c"

definition ao_due :: "int \<Rightarrow> aloOffsetCommitter \<Rightarrow> bool" where
  "ao_due now c \<longleftrightarrow> ao_pending c \<noteq> [] \<and> now - ao_last c \<ge> ao_interval c"

definition ao_deadline :: "aloOffsetCommitter \<Rightarrow> int option" where
  "ao_deadline c = (if ao_pending c = [] then None else Some (ao_last c + ao_interval c))"

definition ao_records :: "aloOffsetCommitter \<Rightarrow> KRecord list" where
  "ao_records c = concat (map (\<lambda>(topic, partitions). map snd partitions) (ao_pending c))"

section \<open>Hooks, events and the trace\<close>

text \<open>The fields of \<open>Client\<close> that are functions; \<open>None\<close> is a nil hook.\<close>

type_synonym Partitions = "(string, int list) gomap"

record 'w Hooks =
  h_process :: "'w ProcessRecord"
  h_onAssigned :: "(Partitions \<Rightarrow> 'w \<Rightarrow> error option \<times> 'w) option"
  h_onRevoked :: "(Partitions \<Rightarrow> 'w \<Rightarrow> 'w) option"
  h_postBatch :: "('w \<Rightarrow> error option \<times> 'w) option"
  h_changelogFlusher :: "('w \<Rightarrow> (error + OutRecord list) \<times> 'w) option"
  h_healthGate :: "('w \<Rightarrow> error option) option"
  h_NumTaskThreads :: int

definition health_of :: "'w Hooks \<Rightarrow> 'w \<Rightarrow> error option" where
  "health_of hooks w = (case h_healthGate hooks of None \<Rightarrow> None | Some gate \<Rightarrow> gate w)"

definition post_batch :: "'w Hooks \<Rightarrow> 'w \<Rightarrow> error option \<times> 'w" where
  "post_batch hooks w = (case h_postBatch hooks of None \<Rightarrow> (None, w) | Some hook \<Rightarrow> hook w)"

definition drain_changelog :: "'w Hooks \<Rightarrow> 'w \<Rightarrow> (error + OutRecord list) \<times> 'w" where
  "drain_changelog hooks w = (case h_changelogFlusher hooks of None \<Rightarrow> (Inr [], w) | Some flusher \<Rightarrow> flusher w)"

text \<open>
  The rebalance callbacks of \<open>buildOpts\<close> and \<open>buildOptsEOS\<close>. An error of \<open>onAssigned\<close> is only logged.
\<close>

datatype Rebalance = Assigned Partitions | Revoked Partitions

definition run_callback :: "'w Hooks \<Rightarrow> Rebalance \<Rightarrow> 'w \<Rightarrow> 'w" where
  "run_callback hooks rb w =
     (case rb of
        Assigned ps \<Rightarrow> (case h_onAssigned hooks of None \<Rightarrow> w | Some f \<Rightarrow> snd (f ps w))
      | Revoked ps \<Rightarrow> (case h_onRevoked hooks of None \<Rightarrow> w | Some f \<Rightarrow> f ps w))"

datatype Effect =
    EPolled "KRecord list"
  | EBatch "KRecord list" "OutRecord list" "OutRecord list"
  | EProduced "KRecord list" "error option list"
  | ECommitted "KRecord list" "error option"
  | EBegin "error option"
  | EEndCommit "error + bool"
  | EEndAbort

text \<open>\<open>Blocked\<close>: the worker goroutines of a batch have not all returned.\<close>

datatype Outcome = Continue | Blocked | Exit "error option"

section \<open>At-least-once\<close>

text \<open>
  One event per iteration of \<open>runALO\<close>: the result of the poll and of \<open>ctx.Err()\<close>, the interleaving
  of the workers, the results of producing and committing, and the clock. The Kafka client runs the
  rebalance callbacks during the poll, and, since rebalances are not blocked between polls, also
  while the polled batch is in flight: \<open>ae_afterProcess\<close> run before the post-batch hook,
  \<open>ae_afterHook\<close> between the hook and producing, \<open>ae_afterProduce\<close> before the offsets of the
  batch are added. They share the offset committer with the loop under its mutex.
\<close>

record AloEvent =
  ae_rebalances :: "Rebalance list"
  ae_closed :: bool
  ae_ctxErr :: "error option"
  ae_records :: "KRecord list"
  ae_sched :: "nat list"
  ae_afterProcess :: "Rebalance list"
  ae_afterHook :: "Rebalance list"
  ae_afterProduce :: "Rebalance list"
  ae_produce :: "KRecord list \<Rightarrow> error option list"
  ae_commit :: "KRecord list \<Rightarrow> error option"
  ae_now :: int
  ae_committedAt :: int

record 'w AloState =
  al_offsets :: aloOffsetCommitter
  al_world :: 'w
  al_trace :: "Effect list"

definition al_log :: "Effect \<Rightarrow> 'w AloState \<Rightarrow> 'w AloState" where
  "al_log e s = s\<lparr>al_trace := al_trace s @ [e]\<rparr>"

text \<open>\<open>aloOffsetCommitter.commit\<close>; its callers only log the error.\<close>

definition ao_commit :: "(KRecord list \<Rightarrow> error option) \<Rightarrow> int \<Rightarrow> 'w AloState \<Rightarrow> error option \<times> 'w AloState" where
  "ao_commit CommitRecords now s =
     (let records = ao_records (al_offsets s) in
      if records = [] then (None, s)
      else let s = al_log (ECommitted records (CommitRecords records)) s in
        (case CommitRecords records of
           Some err \<Rightarrow> (Some err, s)
         | None \<Rightarrow> (None, s\<lparr>al_offsets := (al_offsets s)\<lparr>ao_pending := [], ao_last := now\<rparr>\<rparr>)))"

definition commit_if_due :: "AloEvent \<Rightarrow> 'w AloState \<Rightarrow> 'w AloState" where
  "commit_if_due ev s =
     (if ao_due (ae_now ev) (al_offsets s) then snd (ao_commit (ae_commit ev) (ae_committedAt ev) s) else s)"

definition commitALOOnShutdown :: "(KRecord list \<Rightarrow> error option) \<Rightarrow> int \<Rightarrow> 'w AloState \<Rightarrow> 'w AloState" where
  "commitALOOnShutdown CommitRecords now s = snd (ao_commit CommitRecords now s)"

text \<open>A rebalance under at-least-once: after \<open>onRevoked\<close> the pending offsets are committed.\<close>

definition alo_rebalance :: "'w Hooks \<Rightarrow> AloEvent \<Rightarrow> Rebalance \<Rightarrow> 'w AloState \<Rightarrow> 'w AloState" where
  "alo_rebalance hooks ev rb s =
     (let s = s\<lparr>al_world := run_callback hooks rb (al_world s)\<rparr> in
      case rb of Assigned ps \<Rightarrow> s | Revoked ps \<Rightarrow> snd (ao_commit (ae_commit ev) (ae_committedAt ev) s))"

text \<open>The part of an iteration after the batch was processed: post-batch hook, produce, offsets.\<close>

definition alo_finish :: "'w Hooks \<Rightarrow> AloEvent \<Rightarrow> OutRecord list \<Rightarrow> 'w AloState \<Rightarrow> Outcome \<times> 'w AloState" where
  "alo_finish hooks ev allOut s0 =
     (let s = fold (alo_rebalance hooks ev) (ae_afterProcess ev) s0 in
      case post_batch hooks (al_world s) of
        (Some err, w) \<Rightarrow>
          (Exit (Some (Wrap (if is_fatal_pipeline err then ''runALO: fatal post-batch'' else ''runALO: post-batch failed'') [err])),
           s\<lparr>al_world := w\<rparr>)
      | (None, w) \<Rightarrow>
        let s = fold (alo_rebalance hooks ev) (ae_afterHook ev) (s\<lparr>al_world := w\<rparr>);
            s = al_log (EBatch (ae_records ev) allOut []) s;
            kgoOuts = outRecordsToKgo allOut;
            results = (if allOut = [] then [] else ae_produce ev kgoOuts);
            s = (if allOut = [] then s else al_log (EProduced kgoOuts results) s)
        in (case first_err results of
              Some err \<Rightarrow> (Exit (Some (Wrap ''runALO: produce failed'' [err])), s)
            | None \<Rightarrow>
                let s = fold (alo_rebalance hooks ev) (ae_afterProduce ev) s
                in (Continue, commit_if_due ev (s\<lparr>al_offsets := ao_add (ae_records ev) (al_offsets s)\<rparr>))))"

definition alo_iteration :: "'w Hooks \<Rightarrow> AloEvent \<Rightarrow> 'w AloState \<Rightarrow> Outcome \<times> 'w AloState" where
  "alo_iteration hooks ev s =
     (case health_of hooks (al_world s) of
        Some err \<Rightarrow> (Exit (Some (Wrap ''runALO: pipeline unhealthy'' [err])), s)
      | None \<Rightarrow>
        let s = fold (alo_rebalance hooks ev) (ae_rebalances ev) s in
        if ae_closed ev then (Exit None, s)
        else if ae_ctxErr ev \<noteq> None then (Exit None, commitALOOnShutdown (ae_commit ev) (ae_committedAt ev) s)
        else if ae_records ev = [] then (Continue, commit_if_due ev s)
        else let s = al_log (EPolled (ae_records ev)) s in
          (case processBatchConcurrent (ae_sched ev) (h_process hooks) (h_NumTaskThreads hooks)
                  (map toInRecord (ae_records ev)) (al_world s) of
             None \<Rightarrow> (Blocked, s)
           | Some (None, w) \<Rightarrow> (Exit (Some (Err ''runALO: processing failed; restart required'')), s\<lparr>al_world := w\<rparr>)
           | Some (Some allOut, w) \<Rightarrow> alo_finish hooks ev allOut (s\<lparr>al_world := w\<rparr>)))"

fun runALO :: "'w Hooks \<Rightarrow> AloEvent list \<Rightarrow> 'w AloState \<Rightarrow> Outcome \<times> 'w AloState" where
  "runALO hooks [] s = (Continue, s)"
| "runALO hooks (ev # evs) s =
     (case alo_iteration hooks ev s of
        (Continue, s') \<Rightarrow> runALO hooks evs s'
      | (r, s') \<Rightarrow> (r, s'))"

text \<open>\<open>Close\<close> of an at-least-once client commits what is pending.\<close>

definition Client_Close_ALO :: "(KRecord list \<Rightarrow> error option) \<Rightarrow> int \<Rightarrow> 'w AloState \<Rightarrow> 'w AloState" where
  "Client_Close_ALO = commitALOOnShutdown"

section \<open>Exactly-once\<close>

record EosEvent =
  ee_ctxErrTop :: "error option"
  ee_begin :: "error option"
  ee_beginAt :: int
  ee_rebalances :: "Rebalance list"
  ee_closed :: bool
  ee_ctxErr :: "error option"
  ee_records :: "KRecord list"
  ee_sched :: "nat list"
  ee_produce :: "KRecord list \<Rightarrow> error option list"
  ee_endCommit :: "error + bool"
  ee_now :: int

text \<open>\<open>eo_txn\<close>: the deadline and the flag \<open>mutated\<close> of the open transaction; \<open>None\<close> at the top of the loop.\<close>

record 'w EosState =
  eo_txn :: "(int \<times> bool) option"
  eo_world :: 'w
  eo_trace :: "Effect list"

definition eo_log :: "Effect \<Rightarrow> 'w EosState \<Rightarrow> 'w EosState" where
  "eo_log e s = s\<lparr>eo_trace := eo_trace s @ [e]\<rparr>"

text \<open>\<open>End(TryAbort)\<close> followed by a return; its own error is only logged.\<close>

definition eos_abort :: "error option \<Rightarrow> 'w EosState \<Rightarrow> Outcome \<times> 'w EosState" where
  "eos_abort err s = (Exit err, (eo_log EEndAbort s)\<lparr>eo_txn := None\<rparr>)"

definition commitEOSTransaction :: "error + bool \<Rightarrow> 'w EosState \<Rightarrow> error option \<times> 'w EosState" where
  "commitEOSTransaction endCommit s =
     (let s = (eo_log (EEndCommit endCommit) s)\<lparr>eo_txn := None\<rparr> in
      case endCommit of
        Inl err \<Rightarrow> (Some (Wrap ''runEOS: End(TryCommit)'' [err]), s)
      | Inr committed \<Rightarrow> if \<not> committed then (Some (Wrap ''runEOS: transaction aborted by session'' [ErrFatalPipeline]), s) else (None, s))"

definition eos_commit :: "EosEvent \<Rightarrow> 'w EosState \<Rightarrow> Outcome \<times> 'w EosState" where
  "eos_commit ev s =
     (case commitEOSTransaction (ee_endCommit ev) s of
        (Some err, s') \<Rightarrow> (Exit (Some err), s')
      | (None, s') \<Rightarrow> (Continue, s'))"

text \<open>A batch inside the transaction: process, sweep, drain the changelog, produce everything at once.\<close>

definition eos_batch :: "'w Hooks \<Rightarrow> EosEvent \<Rightarrow> int \<Rightarrow> 'w EosState \<Rightarrow> Outcome \<times> 'w EosState" where
  "eos_batch hooks ev deadline s0 =
     (let s = (eo_log (EPolled (ee_records ev)) s0)\<lparr>eo_txn := Some (deadline, True)\<rparr> in
      case processBatchConcurrent (ee_sched ev) (h_process hooks) (h_NumTaskThreads hooks)
             (map toInRecord (ee_records ev)) (eo_world s) of
        None \<Rightarrow> (Blocked, s)
      | Some (None, w) \<Rightarrow> eos_abort (Some (Wrap ''runEOS: processing failed after transaction began'' [ErrFatalPipeline])) (s\<lparr>eo_world := w\<rparr>)
      | Some (Some sinkOuts, w) \<Rightarrow>
        (case post_batch hooks w of
           (Some err, w') \<Rightarrow> eos_abort (Some (if is_fatal_pipeline err then Wrap ''runEOS: fatal post-batch'' [err]
                                        else Wrap ''runEOS: post-batch failed'' [ErrFatalPipeline, err])) (s\<lparr>eo_world := w'\<rparr>)
         | (None, w') \<Rightarrow>
           (case drain_changelog hooks w' of
              (Inl err, w'') \<Rightarrow> eos_abort (Some (Wrap ''runEOS: changelog drain failed'' [ErrFatalPipeline, err])) (s\<lparr>eo_world := w''\<rparr>)
            | (Inr changelogOuts, w'') \<Rightarrow>
              let s = eo_log (EBatch (ee_records ev) sinkOuts changelogOuts) (s\<lparr>eo_world := w''\<rparr>);
                  allOuts = sinkOuts @ changelogOuts;
                  krs = outRecordsToKgo allOuts;
                  results = (if allOuts = [] then [] else ee_produce ev krs);
                  s = (if allOuts = [] then s else eo_log (EProduced krs results) s)
              in if first_err results \<noteq> None
                 then eos_abort (Some (Wrap ''runEOS: produce failed after local state mutation'' [ErrFatalPipeline])) s
                 else if ee_now ev < deadline then (Continue, s)
                 else eos_commit ev s)))"

definition eos_poll :: "'w Hooks \<Rightarrow> EosEvent \<Rightarrow> int \<Rightarrow> bool \<Rightarrow> 'w EosState \<Rightarrow> Outcome \<times> 'w EosState" where
  "eos_poll hooks ev deadline mutated s0 =
     (let s = s0\<lparr>eo_world := fold (run_callback hooks) (ee_rebalances ev) (eo_world s0)\<rparr> in
      if ee_closed ev then (Exit None, s)
      else if ee_ctxErr ev \<noteq> None then eos_abort None s
      else if ee_records ev = [] then
        (if ee_now ev < deadline then (Continue, s)
         else if \<not> mutated then (Continue, (eo_log EEndAbort s)\<lparr>eo_txn := None\<rparr>)
         else eos_commit ev s)
      else eos_batch hooks ev deadline s)"

definition eos_iteration :: "'w Hooks \<Rightarrow> int \<Rightarrow> EosEvent \<Rightarrow> 'w EosState \<Rightarrow> Outcome \<times> 'w EosState" where
  "eos_iteration hooks commitInterval ev s =
     (case eo_txn s of
        Some (deadline, mutated) \<Rightarrow> eos_poll hooks ev deadline mutated s
      | None \<Rightarrow>
        if ee_ctxErrTop ev \<noteq> None then (Exit None, s)
        else (case health_of hooks (eo_world s) of
          Some err \<Rightarrow> (Exit (Some (Wrap ''runEOS: pipeline unhealthy'' [err])), s)
        | None \<Rightarrow>
          let s = eo_log (EBegin (ee_begin ev)) s in
          (case ee_begin ev of
             Some err \<Rightarrow> (Exit (Some (Wrap ''runEOS: Begin'' [err])), s)
           | None \<Rightarrow>
             let deadline = ee_beginAt ev + commitInterval in
             eos_poll hooks ev deadline False (s\<lparr>eo_txn := Some (deadline, False)\<rparr>))))"

fun runEOS :: "'w Hooks \<Rightarrow> int \<Rightarrow> EosEvent list \<Rightarrow> 'w EosState \<Rightarrow> Outcome \<times> 'w EosState" where
  "runEOS hooks commitInterval [] s = (Continue, s)"
| "runEOS hooks commitInterval (ev # evs) s =
     (case eos_iteration hooks commitInterval ev s of
        (Continue, s') \<Rightarrow> runEOS hooks commitInterval evs s'
      | (r, s') \<Rightarrow> (r, s'))"

section \<open>The committer keeps the last record of each partition\<close>

definition pending_at :: "aloOffsetCommitter \<Rightarrow> string \<Rightarrow> int \<Rightarrow> KRecord option" where
  "pending_at c t p = (case go_get (ao_pending c) t of None \<Rightarrow> None | Some ps \<Rightarrow> go_get ps p)"

definition pending_ok :: "aloOffsetCommitter \<Rightarrow> bool" where
  "pending_ok c \<longleftrightarrow> go_map_ok (ao_pending c) \<and> (\<forall>(t, ps) \<in> set (ao_pending c). go_map_ok ps)"

lemma set_go_set: "x \<in> set (go_set k v m) \<Longrightarrow> x = (k, v) \<or> x \<in> set m"
  by (induction m) (auto split: if_splits)

lemma go_map_ok_single [simp]: "go_map_ok [x]"
  by (simp add: go_map_ok_def)

lemma pending_ok_empty [simp]: "ao_pending c = [] \<Longrightarrow> pending_ok c"
  by (simp add: pending_ok_def)

lemma pending_at_add1:
  "pending_at (ao_add1 r c) t p = (if t = k_Topic r \<and> p = k_Partition r
     then (case pending_at c t p of None \<Rightarrow> Some r | Some r' \<Rightarrow> if k_Offset r > k_Offset r' then Some r else Some r')
     else pending_at c t p)"
  by (auto simp: pending_at_def ao_add1_def Let_def split: option.splits)

lemma pending_ok_add1: "pending_ok c \<Longrightarrow> pending_ok (ao_add1 r c)"
proof -
  assume ok: "pending_ok c"
  let ?ps = "case go_get (ao_pending c) (k_Topic r) of None \<Rightarrow> [] | Some ps \<Rightarrow> ps"
  have "go_map_ok ?ps" using ok by (force simp: pending_ok_def split: option.split dest: map_of_SomeD)
  then show ?thesis using ok
    by (auto simp: pending_ok_def ao_add1_def Let_def split: option.splits dest!: set_go_set)
qed

lemma ao_records_set: "pending_ok c \<Longrightarrow> r \<in> set (ao_records c) \<longleftrightarrow> (\<exists>t p. pending_at c t p = Some r)"
proof -
  assume ok: "pending_ok c"
  have "r \<in> set (ao_records c) \<longleftrightarrow> (\<exists>t ps p. (t, ps) \<in> set (ao_pending c) \<and> (p, r) \<in> set ps)"
    by (force simp: ao_records_def)
  also have "\<dots> \<longleftrightarrow> (\<exists>t ps p. go_get (ao_pending c) t = Some ps \<and> go_get ps p = Some r)"
  proof -
    have "(t, ps) \<in> set (ao_pending c) \<longleftrightarrow> go_get (ao_pending c) t = Some ps" for t ps
      using ok by (auto simp: pending_ok_def go_map_in_set)
    moreover have "(p, r) \<in> set ps \<longleftrightarrow> go_get ps p = Some r" if "(t, ps) \<in> set (ao_pending c)" for t ps p
      using ok that by (intro go_map_in_set) (auto simp: pending_ok_def)
    ultimately show ?thesis by metis
  qed
  also have "\<dots> \<longleftrightarrow> (\<exists>t p. pending_at c t p = Some r)"
  proof -
    have "pending_at c t p = Some r \<longleftrightarrow> (\<exists>ps. go_get (ao_pending c) t = Some ps \<and> go_get ps p = Some r)" for t p
      by (simp add: pending_at_def split: option.split)
    then show ?thesis by (simp only:) blast
  qed
  finally show ?thesis .
qed

lemma pending_after_add:
  "pending_ok c \<Longrightarrow> pending_ok (ao_add rs c)
   \<and> (\<forall>t p r. pending_at (ao_add rs c) t p = Some r \<longrightarrow> pending_at c t p = Some r \<or> r \<in> set rs \<and> k_Topic r = t \<and> k_Partition r = p)
   \<and> (\<forall>t p r. pending_at c t p = Some r \<longrightarrow> (\<exists>r'. pending_at (ao_add rs c) t p = Some r' \<and> k_Offset r \<le> k_Offset r'))
   \<and> (\<forall>r \<in> set rs. \<exists>r'. pending_at (ao_add rs c) (k_Topic r) (k_Partition r) = Some r' \<and> k_Offset r \<le> k_Offset r')"
proof (induction rs arbitrary: c)
  case Nil
  then show ?case by (simp add: ao_add_def)
next
  case (Cons r rs)
  have step: "ao_add (r # rs) c = ao_add rs (ao_add1 r c)" by (simp add: ao_add_def)
  have IH: "pending_ok (ao_add rs (ao_add1 r c))"
    "\<And>t p x. pending_at (ao_add rs (ao_add1 r c)) t p = Some x \<Longrightarrow> pending_at (ao_add1 r c) t p = Some x \<or> x \<in> set rs \<and> k_Topic x = t \<and> k_Partition x = p"
    "\<And>t p x. pending_at (ao_add1 r c) t p = Some x \<Longrightarrow> \<exists>r'. pending_at (ao_add rs (ao_add1 r c)) t p = Some r' \<and> k_Offset x \<le> k_Offset r'"
    "\<And>x. x \<in> set rs \<Longrightarrow> \<exists>r'. pending_at (ao_add rs (ao_add1 r c)) (k_Topic x) (k_Partition x) = Some r' \<and> k_Offset x \<le> k_Offset r'"
    using Cons.IH [OF pending_ok_add1 [OF Cons.prems, of r]] by blast+
  have up: "\<exists>y. pending_at (ao_add1 r c) t p = Some y \<and> k_Offset x \<le> k_Offset y" if "pending_at c t p = Some x" for t p x
    using that by (auto simp: pending_at_add1)
  have new: "\<exists>y. pending_at (ao_add1 r c) (k_Topic r) (k_Partition r) = Some y \<and> k_Offset r \<le> k_Offset y"
    by (auto simp: pending_at_add1 split: option.split)
  have old: "pending_at c t p = Some x \<or> x = r \<and> k_Topic r = t \<and> k_Partition r = p" if "pending_at (ao_add1 r c) t p = Some x" for t p x
    using that by (auto simp: pending_at_add1 split: option.splits if_splits)
  show ?case
    unfolding step
  proof (intro conjI allI impI ballI)
    show "pending_ok (ao_add rs (ao_add1 r c))" by (rule IH(1))
    show "pending_at c t p = Some x \<or> x \<in> set (r # rs) \<and> k_Topic x = t \<and> k_Partition x = p"
      if "pending_at (ao_add rs (ao_add1 r c)) t p = Some x" for t p x
      using IH(2) [OF that] old [of t p x] by auto
    show "\<exists>r'. pending_at (ao_add rs (ao_add1 r c)) t p = Some r' \<and> k_Offset x \<le> k_Offset r'"
      if x: "pending_at c t p = Some x" for t p x
    proof -
      obtain y where y: "pending_at (ao_add1 r c) t p = Some y" "k_Offset x \<le> k_Offset y" using up [OF x] by blast
      obtain z where "pending_at (ao_add rs (ao_add1 r c)) t p = Some z" "k_Offset y \<le> k_Offset z" using IH(3) [OF y(1)] by blast
      then show ?thesis using y(2) by auto
    qed
    show "\<exists>r'. pending_at (ao_add rs (ao_add1 r c)) (k_Topic x) (k_Partition x) = Some r' \<and> k_Offset x \<le> k_Offset r'"
      if x: "x \<in> set (r # rs)" for x
    proof (cases "x \<in> set rs")
      case True
      then show ?thesis by (rule IH(4))
    next
      case False
      then have x: "x = r" using x by simp
      obtain y where y: "pending_at (ao_add1 r c) (k_Topic r) (k_Partition r) = Some y" "k_Offset r \<le> k_Offset y" using new by blast
      obtain z where "pending_at (ao_add rs (ao_add1 r c)) (k_Topic r) (k_Partition r) = Some z" "k_Offset y \<le> k_Offset z"
        using IH(3) [OF y(1)] by blast
      then show ?thesis using y(2) x by auto
    qed
  qed
qed

section \<open>What the at-least-once loop commits\<close>

text \<open>The trace holds a batch that was processed, flushed and produced without an error.\<close>

definition batch_done :: "Effect list \<Rightarrow> KRecord list \<Rightarrow> bool" where
  "batch_done tr ins \<longleftrightarrow> (\<exists>a outs rs b. tr = a @ EBatch ins outs [] # (if outs = [] then [] else [EProduced (outRecordsToKgo outs) rs]) @ b
     \<and> (\<forall>r \<in> set rs. r = None))"

definition commit_justified :: "Effect list \<Rightarrow> KRecord list \<Rightarrow> bool" where
  "commit_justified pre recs \<longleftrightarrow> (\<forall>r \<in> set recs. \<exists>ins. r \<in> set ins \<and> batch_done pre ins)"

definition polled_batches :: "Effect list \<Rightarrow> KRecord list list" where
  "polled_batches tr = concat (map (\<lambda>e. case e of EPolled ins \<Rightarrow> [ins] | _ \<Rightarrow> []) tr)"

definition all_done :: "Effect list \<Rightarrow> bool" where
  "all_done tr \<longleftrightarrow> (\<forall>ins \<in> set (polled_batches tr). batch_done tr ins)"

text \<open>Every polled batch but the latest, which may be in flight or have failed, is finished.\<close>

definition earlier_done :: "Effect list \<Rightarrow> bool" where
  "earlier_done tr \<longleftrightarrow> (\<forall>ins \<in> set (butlast (polled_batches tr)). batch_done tr ins)"

text \<open>
  What Kafka promises of the polls of one consumer, and what a commit must respect: committing a
  record's offset gives up every record of its partition with a smaller or equal one.
\<close>

definition in_order :: "KRecord list \<Rightarrow> bool" where
  "in_order rs \<longleftrightarrow> sorted_wrt (\<lambda>r r'. k_Topic r = k_Topic r' \<and> k_Partition r = k_Partition r' \<longrightarrow> k_Offset r < k_Offset r') rs"

definition skips_nothing :: "Effect list \<Rightarrow> KRecord list \<Rightarrow> bool" where
  "skips_nothing pre recs \<longleftrightarrow> (\<forall>r \<in> set recs. \<forall>r' \<in> set (concat (polled_batches pre)).
     k_Topic r' = k_Topic r \<and> k_Partition r' = k_Partition r \<and> k_Offset r' \<le> k_Offset r \<longrightarrow> (\<exists>ins. r' \<in> set ins \<and> batch_done pre ins))"

definition commit_ok :: "Effect list \<Rightarrow> KRecord list \<Rightarrow> bool" where
  "commit_ok pre recs \<longleftrightarrow> commit_justified pre recs \<and> earlier_done pre
     \<and> (in_order (concat (polled_batches pre)) \<longrightarrow> skips_nothing pre recs)"

definition commits_ok :: "Effect list \<Rightarrow> bool" where
  "commits_ok tr \<longleftrightarrow> (\<forall>pre recs e post. tr = pre @ ECommitted recs e # post \<longrightarrow> commit_ok pre recs)"

definition batches_polled :: "Effect list \<Rightarrow> bool" where
  "batches_polled tr \<longleftrightarrow> (\<forall>ins outs cl. EBatch ins outs cl \<in> set tr \<longrightarrow> ins \<in> set (polled_batches tr))"

lemma polled_batches_append [simp]: "polled_batches (tr @ tr') = polled_batches tr @ polled_batches tr'"
  by (simp add: polled_batches_def)

lemma polled_batches_Cons [simp]:
  "polled_batches [] = []" "polled_batches (e # tr) = (case e of EPolled ins \<Rightarrow> [ins] | _ \<Rightarrow> []) @ polled_batches tr"
  by (simp_all add: polled_batches_def)

lemma batch_done_append: "batch_done tr ins \<Longrightarrow> batch_done (tr @ b) ins"
proof -
  assume "batch_done tr ins"
  then obtain a outs rs b' where "tr = a @ EBatch ins outs [] # (if outs = [] then [] else [EProduced (outRecordsToKgo outs) rs]) @ b'"
    "\<forall>r \<in> set rs. r = None" unfolding batch_done_def by blast
  then show ?thesis
    unfolding batch_done_def by (intro exI [of _ a] exI [of _ outs] exI [of _ rs] exI [of _ "b' @ b"]) simp
qed

lemma commit_justified_append: "commit_justified tr recs \<Longrightarrow> commit_justified (tr @ b) recs"
  unfolding commit_justified_def using batch_done_append by blast

text \<open>With ordered polls the finished batches hold everything a justified commit gives up.\<close>

lemma justified_skips_nothing:
  assumes "commit_justified tr recs" "earlier_done tr" "batches_polled tr" "in_order (concat (polled_batches tr))"
  shows "skips_nothing tr recs"
  unfolding skips_nothing_def
proof (intro ballI impI)
  fix r r'
  assume r: "r \<in> set recs" and r': "r' \<in> set (concat (polled_batches tr))"
    and le: "k_Topic r' = k_Topic r \<and> k_Partition r' = k_Partition r \<and> k_Offset r' \<le> k_Offset r"
  obtain ins where ins: "r \<in> set ins" "batch_done tr ins" using assms(1) r by (auto simp: commit_justified_def)
  then have "\<exists>outs. EBatch ins outs [] \<in> set tr" unfolding batch_done_def by fastforce
  then have "ins \<in> set (polled_batches tr)" using assms(3) unfolding batches_polled_def by blast
  obtain ins' where ins': "r' \<in> set ins'" "ins' \<in> set (polled_batches tr)" using r' by auto
  show "\<exists>ins. r' \<in> set ins \<and> batch_done tr ins"
  proof (cases "ins' \<in> set (butlast (polled_batches tr)) \<or> ins' = ins")
    case True
    then show ?thesis using ins ins' assms(2) by (auto simp: earlier_done_def)
  next
    case False
    have ne: "polled_batches tr \<noteq> []" using ins' by auto
    then have bs: "polled_batches tr = butlast (polled_batches tr) @ [last (polled_batches tr)]" by simp
    have "set (polled_batches tr) = insert (last (polled_batches tr)) (set (butlast (polled_batches tr)))"
      by (subst bs) simp
    then have "ins' = last (polled_batches tr)" "ins \<in> set (butlast (polled_batches tr))"
      using False ins'(2) \<open>ins \<in> _\<close> by auto
    then have "k_Offset r < k_Offset r'"
      using assms(4) ins(1) ins'(1) le unfolding in_order_def by (subst (asm) bs) (auto simp: sorted_wrt_append)
    then show ?thesis using le by simp
  qed
qed

lemma commits_ok_snoc:
  "commits_ok (tr @ [e]) \<longleftrightarrow> commits_ok tr \<and> (case e of ECommitted recs err \<Rightarrow> commit_ok tr recs | _ \<Rightarrow> True)"
proof -
  have split: "tr @ [e] = pre @ x # post \<longleftrightarrow> (post = [] \<and> pre = tr \<and> x = e) \<or> (\<exists>post'. post = post' @ [e] \<and> tr = pre @ x # post')" for pre x post
    by (cases post rule: rev_cases) auto
  show ?thesis
    unfolding commits_ok_def split by (cases e) (simp_all, blast+)
qed

definition alo_inv :: "'w AloState \<Rightarrow> bool" where
  "alo_inv s \<longleftrightarrow> commits_ok (al_trace s) \<and> pending_ok (al_offsets s) \<and> commit_justified (al_trace s) (ao_records (al_offsets s))
     \<and> earlier_done (al_trace s) \<and> batches_polled (al_trace s)"

lemma al_log_simps [simp]:
  "al_trace (al_log e s) = al_trace s @ [e]" "al_offsets (al_log e s) = al_offsets s" "al_world (al_log e s) = al_world s"
  by (simp_all add: al_log_def)

lemma alo_inv_commit_ok: "alo_inv s \<Longrightarrow> commit_ok (al_trace s) (ao_records (al_offsets s))"
  using justified_skips_nothing by (auto simp: alo_inv_def commit_ok_def)

lemma trace_snoc:
  "earlier_done tr \<Longrightarrow> (\<And>ins. e \<noteq> EPolled ins) \<Longrightarrow> earlier_done (tr @ [e])"
  "all_done tr \<Longrightarrow> (\<And>ins. e \<noteq> EPolled ins) \<Longrightarrow> all_done (tr @ [e])"
  "batches_polled tr \<Longrightarrow> (\<And>ins outs cl. e = EBatch ins outs cl \<Longrightarrow> ins \<in> set (polled_batches tr)) \<Longrightarrow> batches_polled (tr @ [e])"
  by (cases e; auto simp: earlier_done_def all_done_def batches_polled_def intro: batch_done_append)+

lemma alo_inv_log:
  assumes "alo_inv s" "\<And>recs err. e \<noteq> ECommitted recs err" "\<And>ins. e \<noteq> EPolled ins"
    and "\<And>ins outs cl. e = EBatch ins outs cl \<Longrightarrow> ins \<in> set (polled_batches (al_trace s))"
  shows "alo_inv (al_log e s)"
  using assms trace_snoc(1) [of "al_trace s" e] trace_snoc(3) [of "al_trace s" e]
  by (cases e) (auto simp: alo_inv_def commits_ok_snoc commit_justified_append)

lemma alo_inv_polled:
  assumes "alo_inv s" "all_done (al_trace s)"
  shows "alo_inv (al_log (EPolled ins) s)"
  using assms trace_snoc(3) [of "al_trace s" "EPolled ins"]
  by (auto simp: alo_inv_def commits_ok_snoc commit_justified_append earlier_done_def all_done_def intro: batch_done_append)

text \<open>A commit, whoever makes it, keeps the invariant and polls nothing.\<close>

definition same_polls :: "'w AloState \<Rightarrow> 'w AloState \<Rightarrow> bool" where
  "same_polls s s' \<longleftrightarrow> polled_batches (al_trace s') = polled_batches (al_trace s) \<and> (\<exists>b. al_trace s' = al_trace s @ b)"

lemma same_polls_simps [simp]: "same_polls s s" "same_polls s (s'\<lparr>al_world := w\<rparr>) = same_polls s s'" "same_polls (s\<lparr>al_world := w\<rparr>) s' = same_polls s s'"
  by (simp_all add: same_polls_def)

lemma same_polls_trans: "same_polls s1 s2 \<Longrightarrow> same_polls s2 s3 \<Longrightarrow> same_polls s1 s3"
  by (auto simp: same_polls_def)

lemma same_polls_batch: "same_polls s s' \<Longrightarrow> batch_done (al_trace s) ins \<Longrightarrow> batch_done (al_trace s') ins"
  unfolding same_polls_def using batch_done_append by metis

lemma same_polls_done: "same_polls s s' \<Longrightarrow> all_done (al_trace s) \<Longrightarrow> all_done (al_trace s')"
  using same_polls_batch unfolding all_done_def same_polls_def by metis

lemma ao_commit_inv:
  assumes "alo_inv s"
  shows "alo_inv (snd (ao_commit f now s)) \<and> same_polls s (snd (ao_commit f now s))"
proof (cases "ao_records (al_offsets s) = []")
  case True
  then show ?thesis using assms by (simp add: ao_commit_def)
next
  case False
  let ?e = "ECommitted (ao_records (al_offsets s)) (f (ao_records (al_offsets s)))"
  have "commits_ok (al_trace s @ [?e])" "earlier_done (al_trace s @ [?e])" "batches_polled (al_trace s @ [?e])"
    using assms alo_inv_commit_ok [OF assms] by (auto simp: alo_inv_def commits_ok_snoc intro!: trace_snoc)
  moreover have "commit_justified tr []" "ao_records (c\<lparr>ao_pending := [], ao_last := t\<rparr>) = []" for tr c t
    by (simp_all add: commit_justified_def ao_records_def)
  ultimately show ?thesis
    using False assms by (auto simp: ao_commit_def Let_def alo_inv_def commit_justified_append same_polls_def split: option.split)
qed

lemma commit_if_due_inv: "alo_inv s \<Longrightarrow> alo_inv (commit_if_due ev s) \<and> same_polls s (commit_if_due ev s)"
  by (simp add: commit_if_due_def ao_commit_inv)

lemma alo_inv_world [simp]: "alo_inv (s\<lparr>al_world := w\<rparr>) = alo_inv s"
  by (simp add: alo_inv_def)

lemma alo_rebalance_inv: "alo_inv s \<Longrightarrow> alo_inv (alo_rebalance hooks ev rb s) \<and> same_polls s (alo_rebalance hooks ev rb s)"
  using ao_commit_inv [of "s\<lparr>al_world := run_callback hooks rb (al_world s)\<rparr>"]
  by (cases rb) (simp_all add: alo_rebalance_def Let_def)

lemma alo_rebalances_inv:
  "alo_inv s \<Longrightarrow> alo_inv (fold (alo_rebalance hooks ev) rbs s) \<and> same_polls s (fold (alo_rebalance hooks ev) rbs s)"
proof (induction rbs arbitrary: s)
  case (Cons rb rbs)
  then show ?case using alo_rebalance_inv [OF Cons.prems, of hooks ev rb] by (auto intro: same_polls_trans)
qed simp

lemma ao_add_inv:
  assumes "alo_inv s" "batch_done (al_trace s) recs"
  shows "alo_inv (s\<lparr>al_offsets := ao_add recs (al_offsets s)\<rparr>)"
proof -
  have po: "pending_ok (al_offsets s)" using assms(1) by (simp add: alo_inv_def)
  note pa = pending_after_add [OF po, of recs]
  have "r \<in> set (ao_records (al_offsets s)) \<or> r \<in> set recs" if mem: "r \<in> set (ao_records (ao_add recs (al_offsets s)))" for r
  proof -
    obtain t p where "pending_at (ao_add recs (al_offsets s)) t p = Some r"
      using mem ao_records_set [OF conjunct1 [OF pa]] by blast
    then have "pending_at (al_offsets s) t p = Some r \<or> r \<in> set recs" using pa by blast
    then show ?thesis using ao_records_set [OF po] by blast
  qed
  then have "commit_justified (al_trace s) (ao_records (ao_add recs (al_offsets s)))"
    using assms unfolding alo_inv_def commit_justified_def by blast
  then show ?thesis using assms(1) pa by (simp add: alo_inv_def)
qed

text \<open>
  The trace of a batch in flight: the finished batches, the poll, and whatever the callbacks added.
\<close>

definition in_flight :: "KRecord list \<Rightarrow> 'w AloState \<Rightarrow> bool" where
  "in_flight recs s \<longleftrightarrow> alo_inv s \<and> (\<exists>bs. polled_batches (al_trace s) = bs @ [recs] \<and> (\<forall>ins \<in> set bs. batch_done (al_trace s) ins))"

lemma in_flight_world [simp]: "in_flight recs (s\<lparr>al_world := w\<rparr>) = in_flight recs s"
  by (simp add: in_flight_def)

lemma in_flight_polls: "in_flight recs s \<Longrightarrow> alo_inv s' \<Longrightarrow> same_polls s s' \<Longrightarrow> in_flight recs s'"
  using same_polls_batch [of s s'] unfolding in_flight_def by (metis same_polls_def)

lemma in_flight_rebalances: "in_flight recs s \<Longrightarrow> in_flight recs (fold (alo_rebalance hooks ev) rbs s)"
  using alo_rebalances_inv [of s hooks ev rbs] in_flight_polls [of recs s] by (simp add: in_flight_def [of recs s])

lemma in_flight_log:
  assumes "in_flight recs s" "e = EBatch recs outs cl \<or> e = EProduced krs results"
  shows "in_flight recs (al_log e s)"
proof -
  have "recs \<in> set (polled_batches (al_trace s))" using assms(1) by (auto simp: in_flight_def)
  then have "alo_inv (al_log e s)" using assms by (intro alo_inv_log) (auto simp: in_flight_def)
  then show ?thesis using assms(2) by (intro in_flight_polls [OF assms(1)]) (auto simp: same_polls_def)
qed

lemma in_flight_all_done: "in_flight recs s \<Longrightarrow> batch_done (al_trace s) recs \<Longrightarrow> all_done (al_trace s)"
  by (auto simp: in_flight_def all_done_def)

lemma alo_finish_inv:
  assumes "in_flight (ae_records ev) s0" "alo_finish hooks ev outs s0 = (r, s')"
  shows "alo_inv s' \<and> (r = Continue \<longrightarrow> all_done (al_trace s'))"
proof -
  define s where "s = fold (alo_rebalance hooks ev) (ae_afterProcess ev) s0"
  have fl: "in_flight (ae_records ev) s" unfolding s_def by (rule in_flight_rebalances [OF assms(1)])
  obtain perr w where post: "post_batch hooks (al_world s) = (perr, w)" by fastforce
  show ?thesis
  proof (cases perr)
    case (Some e)
    then show ?thesis using assms(2) post fl by (auto simp: alo_finish_def s_def [symmetric] in_flight_def)
  next
    case None
    define results where "results = (if outs = [] then [] else ae_produce ev (outRecordsToKgo outs))"
    define s1 where "s1 = al_log (EBatch (ae_records ev) outs []) (fold (alo_rebalance hooks ev) (ae_afterHook ev) (s\<lparr>al_world := w\<rparr>))"
    define s2 where "s2 = (if outs = [] then s1 else al_log (EProduced (outRecordsToKgo outs) results) s1)"
    have fl1: "in_flight (ae_records ev) s1"
      unfolding s1_def using fl by (intro in_flight_log in_flight_rebalances) auto
    have fl2: "in_flight (ae_records ev) s2"
      unfolding s2_def using fl1 in_flight_log [OF fl1] by auto
    have run: "(r, s') = (case first_err results of
        Some err \<Rightarrow> (Exit (Some (Wrap ''runALO: produce failed'' [err])), s2)
      | None \<Rightarrow> let s = fold (alo_rebalance hooks ev) (ae_afterProduce ev) s2
                in (Continue, commit_if_due ev (s\<lparr>al_offsets := ao_add (ae_records ev) (al_offsets s)\<rparr>)))"
      unfolding assms(2) [symmetric] alo_finish_def s_def [symmetric] Let_def post None prod.case option.case
        s1_def [symmetric] results_def [symmetric] s2_def [symmetric] ..
    show ?thesis
    proof (cases "first_err results")
      case (Some e)
      then show ?thesis using run fl2 by (auto simp: in_flight_def)
    next
      case ok: None
      define s3 where "s3 = fold (alo_rebalance hooks ev) (ae_afterProduce ev) s2"
      define s4 where "s4 = s3\<lparr>al_offsets := ao_add (ae_records ev) (al_offsets s3)\<rparr>"
      have s': "s' = commit_if_due ev s4" "r = Continue" using run ok by (simp_all add: s3_def s4_def Let_def)
      have "batch_done (al_trace s2) (ae_records ev)"
        using ok unfolding batch_done_def first_err_None s2_def s1_def
        by (intro exI [of _ "al_trace (fold (alo_rebalance hooks ev) (ae_afterHook ev) (s\<lparr>al_world := w\<rparr>))"] exI [of _ outs]
            exI [of _ results] exI [of _ "[]"]) simp
      moreover have "same_polls s2 s3" unfolding s3_def using fl2 alo_rebalances_inv by (auto simp: in_flight_def)
      ultimately have bd: "batch_done (al_trace s3) (ae_records ev)" by (metis same_polls_batch)
      have fl3: "in_flight (ae_records ev) s3" unfolding s3_def by (rule in_flight_rebalances [OF fl2])
      have "alo_inv s4" unfolding s4_def using fl3 bd by (intro ao_add_inv) (auto simp: in_flight_def)
      moreover have "all_done (al_trace s4)" using in_flight_all_done [OF fl3 bd] by (simp add: s4_def)
      ultimately show ?thesis using commit_if_due_inv [of s4 ev] same_polls_done s' by metis
    qed
  qed
qed

lemma alo_iteration_inv:
  assumes "alo_inv s0" "all_done (al_trace s0)" "alo_iteration hooks ev s0 = (r, s')"
  shows "alo_inv s' \<and> (r = Continue \<longrightarrow> all_done (al_trace s'))"
proof -
  define s where "s = fold (alo_rebalance hooks ev) (ae_rebalances ev) s0"
  let ?s1 = "al_log (EPolled (ae_records ev)) s"
  have s: "alo_inv s" "all_done (al_trace s)"
    using alo_rebalances_inv [OF assms(1), of hooks ev "ae_rebalances ev"] same_polls_done assms(2) unfolding s_def by blast+
  have inv1: "alo_inv ?s1" using s by (rule alo_inv_polled)
  have fl: "in_flight (ae_records ev) (?s1\<lparr>al_world := w\<rparr>)" for w
    using inv1 s(2) by (auto simp: in_flight_def all_done_def intro: batch_done_append)
  have fin: "alo_inv s'' \<and> (r = Continue \<longrightarrow> all_done (al_trace s''))"
    if "alo_finish hooks ev outs (?s1\<lparr>al_world := w\<rparr>) = (r, s'')" for outs w r s''
    by (rule alo_finish_inv [OF fl that])
  have due: "alo_inv (commit_if_due ev s) \<and> all_done (al_trace (commit_if_due ev s))"
    using commit_if_due_inv [OF s(1)] same_polls_done s(2) by blast
  show ?thesis
    using assms s fin inv1 ao_commit_inv [OF s(1)] due
    by (auto simp: alo_iteration_def commitALOOnShutdown_def Let_def s_def [symmetric] split: option.splits if_splits prod.splits)
qed

lemma runALO_inv:
  assumes "alo_inv s" "all_done (al_trace s)" "runALO hooks evs s = (r, s')"
  shows "alo_inv s' \<and> (r = Continue \<longrightarrow> all_done (al_trace s'))"
  using assms
proof (induction evs arbitrary: s)
  case (Cons ev evs)
  obtain r1 s1 where it: "alo_iteration hooks ev s = (r1, s1)" by fastforce
  note inv = alo_iteration_inv [OF Cons.prems(1,2) it]
  show ?case
  proof (cases "r1 = Continue")
    case True
    then show ?thesis using inv Cons.IH [of s1] Cons.prems(3) it by simp
  next
    case False
    then have "s' = s1" "r = r1" using Cons.prems(3) it by (auto split: Outcome.splits)
    then show ?thesis using inv by simp
  qed
qed simp

section \<open>What the exactly-once loop commits\<close>

text \<open>
  Kafka's view of a trace: the consumed records and the produced records of the committed
  transactions, which a read-committed consumer sees, and those of the open transaction.
  An aborted transaction leaves nothing.
\<close>

record KafkaView =
  kv_in :: "KRecord list"
  kv_out :: "KRecord list"
  kv_openIn :: "KRecord list"
  kv_openOut :: "KRecord list"

fun tx_step :: "Effect \<Rightarrow> KafkaView \<Rightarrow> KafkaView" where
  "tx_step (EBegin e) v = v\<lparr>kv_openIn := [], kv_openOut := []\<rparr>"
| "tx_step (EPolled ins) v = v\<lparr>kv_openIn := kv_openIn v @ ins\<rparr>"
| "tx_step (EProduced krs results) v = v\<lparr>kv_openOut := kv_openOut v @ krs\<rparr>"
| "tx_step (EEndCommit r) v = (if r = Inr True
     then \<lparr>kv_in = kv_in v @ kv_openIn v, kv_out = kv_out v @ kv_openOut v, kv_openIn = [], kv_openOut = []\<rparr>
     else v\<lparr>kv_openIn := [], kv_openOut := []\<rparr>)"
| "tx_step EEndAbort v = v\<lparr>kv_openIn := [], kv_openOut := []\<rparr>"
| "tx_step e v = v"

definition kafka_view :: "Effect list \<Rightarrow> KafkaView" where
  "kafka_view tr = fold tx_step tr \<lparr>kv_in = [], kv_out = [], kv_openIn = [], kv_openOut = []\<rparr>"

fun batch_of :: "Effect \<Rightarrow> (KRecord list \<times> OutRecord list \<times> OutRecord list) list" where
  "batch_of (EBatch ins outs cl) = [(ins, outs, cl)]"
| "batch_of e = []"

definition batches :: "Effect list \<Rightarrow> (KRecord list \<times> OutRecord list \<times> OutRecord list) list" where
  "batches tr = concat (map batch_of tr)"

definition batches_in :: "(KRecord list \<times> OutRecord list \<times> OutRecord list) list \<Rightarrow> KRecord list" where
  "batches_in bs = concat (map fst bs)"

definition batches_out :: "(KRecord list \<times> OutRecord list \<times> OutRecord list) list \<Rightarrow> KRecord list" where
  "batches_out bs = concat (map (\<lambda>(ins, outs, cl). outRecordsToKgo (outs @ cl)) bs)"

lemma kafka_view_snoc [simp]: "kafka_view (tr @ [e]) = tx_step e (kafka_view tr)"
  by (simp add: kafka_view_def)

lemma batches_snoc [simp]: "batches (tr @ [e]) = batches tr @ batch_of e"
  by (simp add: batches_def)

lemma batches_io_simps [simp]:
  "batches_in [] = []" "batches_out [] = []" "batches_in (bs @ cs) = batches_in bs @ batches_in cs"
  "batches_out (bs @ cs) = batches_out bs @ batches_out cs" "batches_in [(ins, outs, cl)] = ins"
  "batches_out [(ins, outs, cl)] = outRecordsToKgo (outs @ cl)"
  by (simp_all add: batches_in_def batches_out_def)

text \<open>An end of a transaction that discards consumed records.\<close>

fun discards :: "Effect \<Rightarrow> bool" where
  "discards (EEndCommit r) = (r \<noteq> Inr True)"
| "discards EEndAbort = True"
| "discards e = False"

definition no_discard :: "Effect list \<Rightarrow> bool" where
  "no_discard tr \<longleftrightarrow> (\<forall>pre e post. tr = pre @ e # post \<longrightarrow> discards e \<longrightarrow> kv_openIn (kafka_view pre) = [])"

definition discards_last :: "Effect list \<Rightarrow> bool" where
  "discards_last tr \<longleftrightarrow> (\<forall>pre e post. tr = pre @ e # post \<longrightarrow> discards e \<longrightarrow> kv_openIn (kafka_view pre) = [] \<or> post = [])"

lemma snoc_split: "tr @ [e] = pre @ x # post \<longleftrightarrow> (post = [] \<and> pre = tr \<and> x = e) \<or> (\<exists>post'. post = post' @ [e] \<and> tr = pre @ x # post')"
  by (cases post rule: rev_cases) auto

lemma no_discard_snoc: "no_discard (tr @ [e]) \<longleftrightarrow> no_discard tr \<and> (discards e \<longrightarrow> kv_openIn (kafka_view tr) = [])"
  unfolding no_discard_def snoc_split by blast

lemma discards_last_snoc: "no_discard tr \<Longrightarrow> discards_last (tr @ [e])"
  unfolding discards_last_def no_discard_def snoc_split by blast

lemma no_discard_last: "no_discard tr \<Longrightarrow> discards_last tr"
  unfolding discards_last_def no_discard_def by blast

text \<open>
  The invariant while the loop runs: \<open>bs\<close> are the committed batches, \<open>rest\<close> those of the open
  transaction. When it has ended, the committed part is the same.
\<close>

definition eos_split :: "Effect list \<Rightarrow> (KRecord list \<times> OutRecord list \<times> OutRecord list) list
    \<Rightarrow> (KRecord list \<times> OutRecord list \<times> OutRecord list) list \<Rightarrow> bool" where
  "eos_split tr bs rest \<longleftrightarrow> batches tr = bs @ rest \<and> kv_in (kafka_view tr) = batches_in bs \<and> kv_out (kafka_view tr) = batches_out bs"

definition eos_running :: "'w EosState \<Rightarrow> bool" where
  "eos_running s \<longleftrightarrow> no_discard (eo_trace s) \<and> (\<exists>bs rest. eos_split (eo_trace s) bs rest
     \<and> kv_openIn (kafka_view (eo_trace s)) = batches_in rest \<and> kv_openOut (kafka_view (eo_trace s)) = batches_out rest
     \<and> ((eo_txn s = None \<or> (\<exists>d. eo_txn s = Some (d, False))) \<longrightarrow> rest = []))"

definition eos_ended :: "'w EosState \<Rightarrow> bool" where
  "eos_ended s \<longleftrightarrow> discards_last (eo_trace s) \<and> (\<exists>bs rest. eos_split (eo_trace s) bs rest)"

lemma eo_log_simps [simp]:
  "eo_trace (eo_log e s) = eo_trace s @ [e]" "eo_txn (eo_log e s) = eo_txn s" "eo_world (eo_log e s) = eo_world s"
  by (simp_all add: eo_log_def)

lemma running_ended: "eos_running s \<Longrightarrow> eos_ended s"
  by (auto simp: eos_running_def eos_ended_def no_discard_last)

lemma committed_snoc:
  assumes "eos_split tr bs rest" "e \<noteq> EEndCommit (Inr True)"
  shows "eos_split (tr @ [e]) bs (rest @ batch_of e)"
  using assms by (cases e) (auto simp: eos_split_def)

lemma eos_ended_snoc:
  assumes "no_discard tr" "eos_split tr bs rest" "e \<noteq> EEndCommit (Inr True)" "eo_trace s = tr @ [e]"
  shows "eos_ended s"
  unfolding eos_ended_def assms(4) using committed_snoc [OF assms(2,3)] discards_last_snoc [OF assms(1)] by blast

lemma eos_runningE:
  assumes "eos_running s"
  obtains bs rest where "no_discard (eo_trace s)" "eos_split (eo_trace s) bs rest"
    "kv_openIn (kafka_view (eo_trace s)) = batches_in rest" "kv_openOut (kafka_view (eo_trace s)) = batches_out rest"
  using assms unfolding eos_running_def by blast

definition eos_inv :: "Outcome \<Rightarrow> 'w EosState \<Rightarrow> bool" where
  "eos_inv r s \<longleftrightarrow> eos_ended s \<and> (r = Continue \<longrightarrow> eos_running s)"

lemma eos_inv_running [intro]: "eos_running s \<Longrightarrow> eos_inv r s"
  by (simp add: eos_inv_def running_ended)

lemma eos_inv_abort: "eos_running s \<Longrightarrow> eos_abort e s = (r, s') \<Longrightarrow> eos_inv r s'"
  by (erule eos_runningE) (auto simp: eos_abort_def eos_inv_def intro: eos_ended_snoc)

lemma eos_inv_commit:
  assumes "eos_running s" "eos_commit ev s = (r, s')"
  shows "eos_inv r s'"
proof (cases "ee_endCommit ev = Inr True")
  case True
  have "eos_running s'"
    using assms True by (auto simp: eos_commit_def commitEOSTransaction_def eos_running_def eos_split_def no_discard_snoc)
  then show ?thesis by blast
next
  case False
  then have "r \<noteq> Continue" "s' = (eo_log (EEndCommit (ee_endCommit ev)) s)\<lparr>eo_txn := None\<rparr>"
    using assms(2) by (auto simp: eos_commit_def commitEOSTransaction_def Let_def split: sum.splits if_splits)
  then show ?thesis using assms(1) False
    by (elim eos_runningE) (auto simp: eos_inv_def intro: eos_ended_snoc)
qed

text \<open>Once the batch is polled the transaction is marked as mutated; until it is produced the trace only grows by the poll.\<close>

definition eos_polled :: "'w EosState \<Rightarrow> KRecord list \<Rightarrow> 'w EosState \<Rightarrow> bool" where
  "eos_polled s0 ins s \<longleftrightarrow> eos_running s0 \<and> eo_trace s = eo_trace s0 @ [EPolled ins] \<and> (\<exists>d. eo_txn s = Some (d, True))"

lemma eos_polledE:
  assumes "eos_polled s0 ins s"
  obtains bs rest where "no_discard (eo_trace s)" "eos_split (eo_trace s) bs rest"
    "kv_openIn (kafka_view (eo_trace s)) = batches_in rest @ ins" "kv_openOut (kafka_view (eo_trace s)) = batches_out rest"
proof -
  obtain bs rest where "no_discard (eo_trace s0)" "eos_split (eo_trace s0) bs rest"
    "kv_openIn (kafka_view (eo_trace s0)) = batches_in rest" "kv_openOut (kafka_view (eo_trace s0)) = batches_out rest"
    using assms unfolding eos_polled_def by (blast elim: eos_runningE)
  moreover have "eo_trace s = eo_trace s0 @ [EPolled ins]" using assms by (simp add: eos_polled_def)
  ultimately show ?thesis
    using that [of bs rest] committed_snoc [of "eo_trace s0" bs rest "EPolled ins"] by (simp add: no_discard_snoc)
qed

lemma polled_ended: "eos_polled s0 ins s \<Longrightarrow> eos_ended s"
  by (erule eos_polledE) (auto simp: eos_ended_def no_discard_last)

lemma polled_abort: "eos_polled s0 ins s \<Longrightarrow> eos_abort e s = (r, s') \<Longrightarrow> eos_inv r s'"
  by (erule eos_polledE) (auto simp: eos_abort_def eos_inv_def intro: eos_ended_snoc)

lemma polled_produced:
  assumes "eos_polled s0 ins s"
    and "s' = (let s1 = eo_log (EBatch ins outs cl) (s\<lparr>eo_world := w\<rparr>)
               in if outs @ cl = [] then s1 else eo_log (EProduced (outRecordsToKgo (outs @ cl)) results) s1)"
  shows "eos_running s'"
proof -
  let ?b = "(ins, outs, cl)" and ?t1 = "eo_trace s @ [EBatch ins outs cl]"
  obtain bs rest where b: "no_discard (eo_trace s)" "eos_split (eo_trace s) bs rest"
    "kv_openIn (kafka_view (eo_trace s)) = batches_in rest @ ins" "kv_openOut (kafka_view (eo_trace s)) = batches_out rest"
    using eos_polledE [OF assms(1)] by blast
  have mutated: "\<exists>d. eo_txn s' = Some (d, True)" using assms by (auto simp: eos_polled_def Let_def)
  have one: "no_discard ?t1" "eos_split ?t1 bs (rest @ [?b])"
    using b(1) committed_snoc [OF b(2), of "EBatch ins outs cl"] by (simp_all add: no_discard_snoc)
  have tr: "eo_trace s' = (if outs @ cl = [] then ?t1 else ?t1 @ [EProduced (outRecordsToKgo (outs @ cl)) results])"
    using assms(2) by (simp add: Let_def)
  have "no_discard (eo_trace s') \<and> eos_split (eo_trace s') bs (rest @ [?b])
      \<and> kv_openIn (kafka_view (eo_trace s')) = batches_in (rest @ [?b]) \<and> kv_openOut (kafka_view (eo_trace s')) = batches_out (rest @ [?b])"
  proof (cases "outs @ cl = []")
    case True
    then have "eo_trace s' = ?t1" using tr by simp
    moreover have "batches_out [?b] = []" using True by (simp add: outRecordsToKgo_def)
    ultimately show ?thesis using one b(3,4) by (simp del: batches_io_simps(6))
  next
    case False
    define p where "p = EProduced (outRecordsToKgo (outs @ cl)) results"
    have "eo_trace s' = ?t1 @ [p]" using tr False by (simp add: p_def)
    moreover have "kafka_view (?t1 @ [p]) = (kafka_view (eo_trace s))\<lparr>kv_openOut := kv_openOut (kafka_view (eo_trace s)) @ outRecordsToKgo (outs @ cl)\<rparr>"
      using kafka_view_snoc [of ?t1 p] kafka_view_snoc [of "eo_trace s" "EBatch ins outs cl"] by (simp add: p_def)
    ultimately show ?thesis
      using one b(3,4) committed_snoc [OF one(2), of p] no_discard_snoc [of ?t1 p] by (simp add: p_def)
  qed
  then show ?thesis using mutated unfolding eos_running_def by (metis option.distinct(1) option.inject prod.inject)
qed

lemma eos_batch_inv:
  assumes "eos_running s0" "eos_batch hooks ev deadline s0 = (r, s')"
  shows "eos_inv r s'"
proof -
  define s where "s = (eo_log (EPolled (ee_records ev)) s0)\<lparr>eo_txn := Some (deadline, True)\<rparr>"
  have pol: "eos_polled s0 (ee_records ev) (s\<lparr>eo_world := w\<rparr>)" "eos_polled s0 (ee_records ev) s" for w
    using assms(1) by (simp_all add: eos_polled_def s_def)
  note ab = polled_abort [OF pol(1)]
  show ?thesis
  proof (cases "processBatchConcurrent (ee_sched ev) (h_process hooks) (h_NumTaskThreads hooks) (map toInRecord (ee_records ev)) (eo_world s)")
    case None
    then show ?thesis using assms(2) polled_ended [OF pol(2)] by (auto simp: eos_batch_def Let_def s_def eos_inv_def)
  next
    case (Some res)
    note pr = this
    obtain o1 w where res: "res = (o1, w)" by fastforce
    show ?thesis
    proof (cases o1)
      case None
      then show ?thesis using assms(2) ab pr res by (auto simp: eos_batch_def Let_def s_def)
    next
      case (Some sinkOuts)
      obtain e2 w2 where pb: "post_batch hooks w = (e2, w2)" by fastforce
      obtain c w3 where dc: "drain_changelog hooks w2 = (c, w3)" by fastforce
      show ?thesis
      proof (cases "e2 = None \<and> \<not> isl c")
        case False
        then show ?thesis using assms(2) ab pr res Some pb dc
          by (cases e2; cases c) (auto simp: eos_batch_def Let_def s_def)
      next
        case True
        then obtain cl where cl: "c = Inr cl" "e2 = None" by (cases c) auto
        define results where "results = (if sinkOuts @ cl = [] then [] else ee_produce ev (outRecordsToKgo (sinkOuts @ cl)))"
        define s1 where "s1 = (let s1 = eo_log (EBatch (ee_records ev) sinkOuts cl) (s\<lparr>eo_world := w3\<rparr>)
          in if sinkOuts @ cl = [] then s1 else eo_log (EProduced (outRecordsToKgo (sinkOuts @ cl)) results) s1)"
        have run: "eos_running s1" by (rule polled_produced [OF pol(2) s1_def])
        have "(r, s') = (if first_err results \<noteq> None
            then eos_abort (Some (Wrap ''runEOS: produce failed after local state mutation'' [ErrFatalPipeline])) s1
            else if ee_now ev < deadline then (Continue, s1) else eos_commit ev s1)"
          unfolding assms(2) [symmetric] eos_batch_def s_def [symmetric] using pr res Some pb dc cl
          by (simp add: Let_def s1_def results_def split del: if_split cong: if_cong)
        then show ?thesis using eos_inv_abort [OF run] eos_inv_commit [OF run] run
          by (metis eos_inv_running prod.inject)
      qed
    qed
  qed
qed

lemma eos_running_world [simp]: "eos_running (s\<lparr>eo_world := w\<rparr>) = eos_running s"
  by (simp add: eos_running_def)

lemma eos_poll_inv:
  assumes "eos_running s0" "eo_txn s0 = Some (deadline, mutated)" "eos_poll hooks ev deadline mutated s0 = (r, s')"
  shows "eos_inv r s'"
proof -
  define s where "s = s0\<lparr>eo_world := fold (run_callback hooks) (ee_rebalances ev) (eo_world s0)\<rparr>"
  have run: "eos_running s" and txn: "eo_txn s = Some (deadline, mutated)" using assms(1,2) by (simp_all add: s_def)
  note step = assms(3) [unfolded eos_poll_def, folded s_def, unfolded Let_def]
  show ?thesis
  proof (cases "\<not> ee_closed ev \<and> ee_ctxErr ev = None \<and> ee_records ev = [] \<and> \<not> ee_now ev < deadline \<and> \<not> mutated")
    case True
    then have "eos_running s'"
      using run txn step by (auto simp: eos_running_def eos_split_def no_discard_snoc)
    then show ?thesis by blast
  next
    case False
    then show ?thesis
      using run step eos_inv_abort [OF run] eos_inv_commit [OF run] eos_batch_inv [OF run]
      by (auto split: if_splits)
  qed
qed

lemma eos_iteration_inv:
  assumes run: "eos_running s" and it: "eos_iteration hooks interval ev s = (r, s')"
  shows "eos_inv r s'"
proof (cases "eo_txn s")
  case (Some t)
  then show ?thesis using it eos_poll_inv [OF run] by (cases t) (simp add: eos_iteration_def)
next
  case None
  let ?s1 = "eo_log (EBegin (ee_begin ev)) s"
  have run1: "eos_running ?s1" "eos_running (?s1\<lparr>eo_txn := Some (d, False)\<rparr>)" for d
    using run None by (auto simp: eos_running_def eos_split_def no_discard_snoc)
  show ?thesis
    using it None run run1(1) eos_poll_inv [OF run1(2), where mutated = False]
    by (auto simp: eos_iteration_def Let_def split: if_splits option.splits)
qed

lemma runEOS_inv:
  assumes "eos_running s" "runEOS hooks interval evs s = (r, s')"
  shows "eos_inv r s'"
  using assms
proof (induction evs arbitrary: s)
  case (Cons ev evs)
  obtain r1 s1 where it: "eos_iteration hooks interval ev s = (r1, s1)" by fastforce
  note inv = eos_iteration_inv [OF Cons.prems(1) it]
  show ?case
  proof (cases "r1 = Continue")
    case True
    then show ?thesis using inv Cons.IH [of s1] Cons.prems(2) it by (simp add: eos_inv_def)
  next
    case False
    then have "s' = s1" "r = r1" using Cons.prems(2) it by (auto split: Outcome.splits)
    then show ?thesis using inv by simp
  qed
qed auto

section \<open>Properties\<close>

definition alo_fresh :: "'w \<Rightarrow> int \<Rightarrow> int \<Rightarrow> 'w AloState" where
  "alo_fresh w now interval = \<lparr>al_offsets = newALOOffsetCommitter now interval, al_world = w, al_trace = []\<rparr>"

definition eos_fresh :: "'w \<Rightarrow> 'w EosState" where
  "eos_fresh w = \<lparr>eo_txn = None, eo_world = w, eo_trace = []\<rparr>"

lemma alo_fresh_inv: "alo_inv (alo_fresh w now interval)" "all_done (al_trace (alo_fresh w now interval))"
  by (simp_all add: alo_inv_def alo_fresh_def newALOOffsetCommitter_def commits_ok_def commit_justified_def ao_records_def all_done_def
      earlier_done_def batches_polled_def)

lemma eos_fresh_running: "eos_running (eos_fresh w)"
  by (simp add: eos_running_def eos_fresh_def no_discard_def eos_split_def kafka_view_def batches_def)

text \<open>
  C27: The offset committer keeps the newest record of each partition. After any records were added,
  in whatever order, a partition has a pending record iff one of them is of that partition, and
  then it is one of them with the greatest offset; what is handed to \<open>CommitRecords\<close> is
  exactly these records.
\<close>

theorem committer_keeps_newest:
  fixes rs now interval
  defines "c \<equiv> ao_add rs (newALOOffsetCommitter now interval)"
  shows "(\<forall>t p. case pending_at c t p of
      None \<Rightarrow> \<not> (\<exists>r \<in> set rs. k_Topic r = t \<and> k_Partition r = p)
    | Some r \<Rightarrow> r \<in> set rs \<and> k_Topic r = t \<and> k_Partition r = p
        \<and> (\<forall>r' \<in> set rs. k_Topic r' = t \<and> k_Partition r' = p \<longrightarrow> k_Offset r' \<le> k_Offset r))
    \<and> set (ao_records c) = {r. \<exists>t p. pending_at c t p = Some r}"
proof -
  let ?c0 = "newALOOffsetCommitter now interval"
  have ok: "pending_ok ?c0" and empty: "\<And>t p. pending_at ?c0 t p = None"
    by (simp_all add: newALOOffsetCommitter_def pending_at_def)
  note pa = pending_after_add [OF ok, of rs, folded c_def]
  have hit: "\<exists>r'. pending_at c (k_Topic r) (k_Partition r) = Some r' \<and> k_Offset r \<le> k_Offset r'" if "r \<in> set rs" for r
    using pa that by blast
  have from_rs: "r \<in> set rs \<and> k_Topic r = t \<and> k_Partition r = p" if "pending_at c t p = Some r" for t p r
    using pa that empty by fastforce
  have "set (ao_records c) = {r. \<exists>t p. pending_at c t p = Some r}"
    using ao_records_set [of c] pa by blast
  then show ?thesis using hit from_rs by (fastforce split: option.split)
qed

text \<open>
  C4: At-least-once. However the polls, the interleavings of the workers, the produce and commit
  results and the hooks turn out, with rebalance callbacks during the polls and while a batch is in
  flight, and whether the loop, a revocation, the shutdown or a later \<open>Close\<close> of the client makes
  the commit, even after a failed batch: every record of a commit belongs to a batch that was
  processed, whose post-batch hook succeeded and whose output was produced without an error before
  the commit, and every batch polled so far but the latest is finished in this sense. So when the
  polls deliver each partition in the order of its offsets, no commit skips a record: every polled
  record of the partition up to the committed offset belongs to a finished batch.
\<close>

theorem alo_commits_after_produce:
  assumes "runALO hooks evs (alo_fresh w now interval) = (r, s)"
    and "tr = al_trace s \<or> tr = al_trace (Client_Close_ALO CommitRecords t s)"
    and "tr = pre @ ECommitted recs e # post"
  shows "(\<forall>r \<in> set recs. \<exists>ins. r \<in> set ins \<and> batch_done pre ins)
    \<and> (\<forall>ins \<in> set (butlast (polled_batches pre)). batch_done pre ins)
    \<and> (in_order (concat (polled_batches pre)) \<longrightarrow> (\<forall>r \<in> set recs. \<forall>r' \<in> set (concat (polled_batches pre)).
         k_Topic r' = k_Topic r \<and> k_Partition r' = k_Partition r \<and> k_Offset r' \<le> k_Offset r
         \<longrightarrow> (\<exists>ins. r' \<in> set ins \<and> batch_done pre ins)))"
proof -
  have inv: "alo_inv s" using runALO_inv [OF alo_fresh_inv assms(1)] by simp
  have "alo_inv (Client_Close_ALO CommitRecords t s)"
    using ao_commit_inv [OF inv] by (simp add: Client_Close_ALO_def commitALOOnShutdown_def)
  then have "commits_ok tr" using inv assms(2) by (auto simp: alo_inv_def)
  then have "commit_ok pre recs" using assms(3) unfolding commits_ok_def by blast
  then show ?thesis unfolding commit_ok_def commit_justified_def earlier_done_def skips_nothing_def by blast
qed

text \<open>
  C3: Exactly-once. However the environment answers, a read-committed observer of Kafka sees a
  prefix of the batches the loop finished: exactly the consumed records of these batches and
  exactly their sink and changelog records, in order, never one without the other. A
  transaction that consumed records and is not committed is the last thing the loop does, so
  that no later commit can skip its records. And while the loop runs with no transaction open,
  everything it finished is visible.
\<close>

theorem eos_atomic:
  assumes "runEOS hooks interval evs (eos_fresh w) = (r, s)"
  shows "(\<exists>bs rest. batches (eo_trace s) = bs @ rest
      \<and> kv_in (kafka_view (eo_trace s)) = batches_in bs \<and> kv_out (kafka_view (eo_trace s)) = batches_out bs
      \<and> (r = Continue \<and> eo_txn s = None \<longrightarrow> rest = []))
    \<and> discards_last (eo_trace s)"
proof -
  have inv: "eos_inv r s" using runEOS_inv [OF eos_fresh_running assms] .
  then have "discards_last (eo_trace s)" by (simp add: eos_inv_def eos_ended_def)
  moreover have "\<exists>bs rest. batches (eo_trace s) = bs @ rest
      \<and> kv_in (kafka_view (eo_trace s)) = batches_in bs \<and> kv_out (kafka_view (eo_trace s)) = batches_out bs
      \<and> (r = Continue \<and> eo_txn s = None \<longrightarrow> rest = [])"
    using inv unfolding eos_inv_def eos_ended_def eos_running_def eos_split_def
    by (cases "r = Continue") metis+
  ultimately show ?thesis by blast
qed

section \<open>Witnesses\<close>

definition echo_process :: "nat ProcessRecord" where
  "echo_process r w = (Inr [\<lparr>out_Topic = ''out'', out_Key = in_Key r, out_Value = in_Value r, out_Partition = NilZero 0\<rparr>], Suc w)"

definition echo_hooks :: "nat Hooks" where
  "echo_hooks = \<lparr>h_process = echo_process, h_onAssigned = None, h_onRevoked = Some (\<lambda>_ w. w), h_postBatch = Some (\<lambda>w. (None, w)),
     h_changelogFlusher = Some (\<lambda>w. (Inr [\<lparr>out_Topic = ''cl'', out_Key = [7], out_Value = None, out_Partition = NilOf 0\<rparr>], w)),
     h_healthGate = None, h_NumTaskThreads = 1\<rparr>"

definition krec :: "int \<Rightarrow> int \<Rightarrow> KRecord" where
  "krec p off = \<lparr>k_Topic = ''in'', k_Partition = p, k_Offset = off, k_Key = [1], k_Value = Some [2], k_Timestamp = 0\<rparr>"

definition alo_poll :: "KRecord list \<Rightarrow> int \<Rightarrow> AloEvent" where
  "alo_poll rs now = \<lparr>ae_rebalances = [], ae_closed = False, ae_ctxErr = None, ae_records = rs, ae_sched = [],
     ae_afterProcess = [], ae_afterHook = [], ae_afterProduce = [], ae_produce = map (\<lambda>_. None),
     ae_commit = (\<lambda>_. None), ae_now = now, ae_committedAt = now\<rparr>"

definition eos_poll_ev :: "KRecord list \<Rightarrow> int \<Rightarrow> EosEvent" where
  "eos_poll_ev rs now = \<lparr>ee_ctxErrTop = None, ee_begin = None, ee_beginAt = now, ee_rebalances = [], ee_closed = False, ee_ctxErr = None,
     ee_records = rs, ee_sched = [], ee_produce = map (\<lambda>_. None), ee_endCommit = Inr True, ee_now = now\<rparr>"

theorem committer_keeps_newest_witness:
  "pending_at (ao_add [krec 0 5, krec 1 2, krec 0 4] (newALOOffsetCommitter 0 10)) ''in'' 0 = Some (krec 0 5)"
proof -
  let ?rs = "[krec 0 5, krec 1 2, krec 0 4]"
  have "case pending_at (ao_add ?rs (newALOOffsetCommitter 0 10)) ''in'' 0 of
      None \<Rightarrow> \<not> (\<exists>r \<in> set ?rs. k_Topic r = ''in'' \<and> k_Partition r = 0)
    | Some r \<Rightarrow> r \<in> set ?rs \<and> k_Topic r = ''in'' \<and> k_Partition r = 0
        \<and> (\<forall>r' \<in> set ?rs. k_Topic r' = ''in'' \<and> k_Partition r' = 0 \<longrightarrow> k_Offset r' \<le> k_Offset r)"
    using committer_keeps_newest [of ?rs 0 10] by blast
  then show ?thesis by (auto simp: krec_def split: option.splits)
qed

text \<open>A revocation while the second batch is in flight commits the first one only.\<close>

definition alo_revoked :: "nat AloState" where
  "alo_revoked = snd (runALO echo_hooks [alo_poll [krec 0 0] 1, (alo_poll [krec 0 1] 2)\<lparr>ae_afterHook := [Revoked [(''in'', [0])]]\<rparr>] (alo_fresh 0 0 10))"

theorem alo_commits_after_produce_witness:
  "\<exists>pre recs post. al_trace alo_revoked = pre @ ECommitted recs None # post \<and> recs = [krec 0 0]
    \<and> (\<exists>ins. krec 0 0 \<in> set ins \<and> batch_done pre ins)"
proof -
  let ?evs = "[alo_poll [krec 0 0] 1, (alo_poll [krec 0 1] 2)\<lparr>ae_afterHook := [Revoked [(''in'', [0])]]\<rparr>]"
  have run: "runALO echo_hooks ?evs (alo_fresh 0 0 10) = (fst (runALO echo_hooks ?evs (alo_fresh 0 0 10)), alo_revoked)"
    by (simp add: alo_revoked_def)
  have "al_trace alo_revoked ! 4 = ECommitted [krec 0 0] None" "length (al_trace alo_revoked) = 7" by code_simp+
  then have tr: "al_trace alo_revoked = take 4 (al_trace alo_revoked) @ ECommitted [krec 0 0] None # drop 5 (al_trace alo_revoked)"
    using id_take_nth_drop [of 4 "al_trace alo_revoked"] by simp
  show ?thesis
    using alo_commits_after_produce [OF run disjI1 [OF refl] tr] tr by fastforce
qed

theorem eos_atomic_witness:
  "\<exists>s. runEOS echo_hooks 10 [eos_poll_ev [krec 0 0] 1, eos_poll_ev [krec 0 1] 20] (eos_fresh 0) = (Continue, s)
    \<and> kv_in (kafka_view (eo_trace s)) = [krec 0 0, krec 0 1] \<and> length (kv_out (kafka_view (eo_trace s))) = 4"
proof -
  let ?run = "runEOS echo_hooks 10 [eos_poll_ev [krec 0 0] 1, eos_poll_ev [krec 0 1] 20] (eos_fresh 0)"
  have r: "fst ?run = Continue" by code_simp
  have t: "eo_txn (snd ?run) = None" by code_simp
  have b: "batches_in (batches (eo_trace (snd ?run))) = [krec 0 0, krec 0 1]" by code_simp
  have l: "length (batches_out (batches (eo_trace (snd ?run)))) = 4" by code_simp
  have e: "?run = (Continue, snd ?run)" using r by (metis prod.collapse)
  show ?thesis using eos_atomic [OF e] t b l e by (metis append_Nil2)
qed

end
