(* ===== verification/Adapter.thy ===== *)
theory Adapter
  imports GlobalConsumer ClientLoop
begin

text \<open>
  \<open>internal/runtime/adapter.go\<close>: the bridge between the Kafka client and a built topology. It routes a
  consumed record to the source node of its topic and the task of its partition, drains the sinks
  into output records, and supplies the hooks of the client's loops. Timestamps are Unix
  milliseconds; a nil value is the empty byte string to a decoder.
\<close>

section \<open>State\<close>

record ('b, 'a) Adapter =
  ad_taskManager :: "('b, 'a) TaskManager"
  ad_bt :: "('b, 'a) BuiltTopology"
  ad_cfg :: "'b Config"
  ad_topicToSource :: "(string, string) gomap"
  ad_resolvedSources :: "(string, 'a SourceBinding) gomap"
  ad_resolvedSinks :: "(string, 'a SinkBinding) gomap"
  ad_globalConsumers :: "'b GlobalConsumer list"
  ad_health :: PipelineHealth

section \<open>Construction\<close>

text \<open>The maps being built: resolved sources, resolved sinks, topic to source.\<close>

type_synonym 'a routes = "(string, 'a SourceBinding) gomap \<times> (string, 'a SinkBinding) gomap \<times> (string, string) gomap"

definition add_repartition :: "string \<Rightarrow> string \<times> 'a RepartitionBinding \<Rightarrow> 'a routes \<Rightarrow> 'a routes" where
  "add_repartition appID = (\<lambda>(_, rb) (sources, sinks, topics).
     let fullTopic = repartition_topic appID (rb_Name rb) in
     (go_set (rb_SourceName rb) \<lparr>so_Topic = fullTopic, so_DecodeKey = rb_DecodeKey rb, so_DecodeVal = rb_DecodeVal rb\<rparr> sources,
      go_set (rb_SinkName rb) \<lparr>si_Topic = fullTopic, si_EncodeKey = rb_EncodeKey rb, si_EncodeVal = rb_EncodeVal rb\<rparr> sinks,
      go_set fullTopic (rb_SourceName rb) topics))"

definition add_source :: "(string, 'a SourceBinding) gomap \<Rightarrow> string \<Rightarrow> (string, string) gomap \<Rightarrow> error option \<times> (string, string) gomap" where
  "add_source sources name topics =
     (case go_get sources name of
        None \<Rightarrow> (Some (Err ''runtime.NewAdapter: source has no entry in bt.Sources''), topics)
      | Some binding \<Rightarrow>
        (case go_get topics (so_Topic binding) of
           Some existing \<Rightarrow> if existing = name then (None, topics)
             else (Some (Err ''runtime.NewAdapter: sources map to the same topic''), topics)
         | None \<Rightarrow> (None, go_set (so_Topic binding) name topics)))"

definition has_stores :: "('b, 'a) BuiltTopology \<Rightarrow> bool" where
  "has_stores bt \<longleftrightarrow> bt_StoreBindings bt \<noteq> [] \<or> bt_WindowStoreBindings bt \<noteq> [] \<or> bt_SessionStoreBindings bt \<noteq> []
     \<or> bt_GlobalTableBindings bt \<noteq> []"

definition NewAdapter :: "('b, 'a) BuiltTopology \<Rightarrow> 'b Config \<Rightarrow> 'b \<Rightarrow> error + ('b, 'a) Adapter" where
  "NewAdapter bt cfg noData =
     (let srcs = t_sources (bt_Topology bt) in
      if srcs = [] then Inl (Err ''runtime.NewAdapter: topology has no source nodes'')
      else case fold (add_repartition (cf_ApplicationID cfg)) (bt_RepartitionBindings bt) (bt_Sources bt, bt_Sinks bt, []) of
        (sources, sinks, topics) \<Rightarrow>
          (case until_error (add_source sources) srcs topics of
             (Some err, _) \<Rightarrow> Inl err
           | (None, topicToSource) \<Rightarrow>
             if \<not> has_stores bt \<and> (\<exists>sink \<in> set (t_sinks (bt_Topology bt)). go_get sinks sink = None)
             then Inl (Err ''runtime.NewAdapter: sink has no entry in bt.Sinks'')
             else Inr \<lparr>ad_taskManager = NewTaskManager bt cfg noData, ad_bt = bt, ad_cfg = cfg, ad_topicToSource = topicToSource,
                  ad_resolvedSources = sources, ad_resolvedSinks = sinks, ad_globalConsumers = [], ad_health = None\<rparr>))"

definition SourceTopics :: "('b, 'a) Adapter \<Rightarrow> string list" where
  "SourceTopics a = map fst (ad_topicToSource a)"

section \<open>Global stores\<close>

text \<open>
  \<open>BootstrapGlobalStores\<close>: consumers are opened and bootstrapped in turn and their stores registered.
  \<open>handle\<close> is the value \<open>gc.Store()\<close> as the tasks see it; a bootstrap that waits forever is \<open>Diverges\<close>.
\<close>

fun bootstrap_all :: "(string \<Rightarrow> 'k BootEnv) \<Rightarrow> ('b GlobalConsumer \<Rightarrow> ('b, 'a) estate anystore) \<Rightarrow> 'b Config
    \<Rightarrow> (string \<times> 'a GlobalTableBinding) list \<Rightarrow> 'b GlobalConsumer list \<Rightarrow> ('b, 'a) TaskManager
    \<Rightarrow> (error + 'b GlobalConsumer list) \<times> ('b, 'a) TaskManager" where
  "bootstrap_all env handle cfg [] opened tm = (Inr opened, tm)"
| "bootstrap_all env handle cfg ((_, binding) # bs) opened tm =
     (case NewGlobalConsumer cfg binding of
        Inl err \<Rightarrow> (Inl (Wrap ''runtime.Adapter.BootstrapGlobalStores: NewGlobalConsumer'' [err]), tm)
      | Inr gc \<Rightarrow>
        (case Bootstrap (env (gb_StoreName binding)) gc of
           (None, gc') \<Rightarrow> (Inl Diverges, tm)
         | (Some (Some err), gc') \<Rightarrow> (Inl (Wrap ''runtime.Adapter.BootstrapGlobalStores: Bootstrap'' [err]), tm)
         | (Some None, gc') \<Rightarrow>
           bootstrap_all env handle cfg bs (opened @ [gc']) (RegisterGlobalStore (gb_StoreName binding) (handle gc') tm)))"

definition BootstrapGlobalStores :: "(string \<Rightarrow> 'k BootEnv) \<Rightarrow> ('b GlobalConsumer \<Rightarrow> ('b, 'a) estate anystore) \<Rightarrow> ('b, 'a) Adapter
    \<Rightarrow> error option \<times> ('b, 'a) Adapter" where
  "BootstrapGlobalStores env handle a =
     (if bt_GlobalTableBindings (ad_bt a) = [] then (None, a)
      else case bootstrap_all env handle (ad_cfg a) (bt_GlobalTableBindings (ad_bt a)) [] (ad_taskManager a) of
        (Inl err, tm) \<Rightarrow> (Some err, a\<lparr>ad_taskManager := tm\<rparr>)
      | (Inr opened, tm) \<Rightarrow> (None, a\<lparr>ad_taskManager := tm, ad_globalConsumers := opened\<rparr>))"

text \<open>\<open>RunGlobalConsumers\<close>: wire the health and start the tails, until one refuses.\<close>

fun run_all :: "'b GlobalConsumer list \<Rightarrow> error option \<times> 'b GlobalConsumer list" where
  "run_all [] = (None, [])"
| "run_all (gc # gcs) =
     (case TailConsume (SetHealth gc) of
        (Some err, gc') \<Rightarrow> (Some (Wrap ''runtime.Adapter.RunGlobalConsumers: TailConsume'' [err]), gc' # gcs)
      | (None, gc') \<Rightarrow> (case run_all gcs of (err, gcs') \<Rightarrow> (err, gc' # gcs')))"

definition RunGlobalConsumers :: "('b, 'a) Adapter \<Rightarrow> error option \<times> ('b, 'a) Adapter" where
  "RunGlobalConsumers a = (case run_all (ad_globalConsumers a) of (err, gcs) \<Rightarrow> (err, a\<lparr>ad_globalConsumers := gcs\<rparr>))"

definition Adapter_Close :: "('b, 'a) Adapter \<Rightarrow> error option \<times> ('b, 'a) Adapter" where
  "Adapter_Close a =
     (let rs = map gc_Close (ad_globalConsumers a) in
      (errors_Join (concat (map (\<lambda>(err, _). case err of None \<Rightarrow> [] | Some e \<Rightarrow> [Wrap ''close global store'' [e]]) rs)),
       a\<lparr>ad_globalConsumers := map snd rs\<rparr>))"

section \<open>Processing a record\<close>

fun encode_records :: "'a SinkBinding \<Rightarrow> 'a Record list \<Rightarrow> error + OutRecord list" where
  "encode_records sb [] = Inr []"
| "encode_records sb (r # rs) =
     (case si_EncodeKey sb (r_Key r) of
        Inl err \<Rightarrow> Inl (Wrap ''runtime: encode key (sink)'' [err])
      | Inr kb \<Rightarrow> (case si_EncodeVal sb (r_Value r) of
        Inl err \<Rightarrow> Inl (Wrap ''runtime: encode val (sink)'' [err])
      | Inr vb \<Rightarrow> map_sum id (\<lambda>outs. \<lparr>out_Topic = si_Topic sb, out_Key = kb, out_Value = Some vb, out_Partition = NilZero 0\<rparr> # outs)
          (encode_records sb rs)))"

text \<open>The loop of \<open>drainSinks\<close> over the sinks; those without a binding are drained and discarded.\<close>

fun drain_loop :: "(string, 'a SinkBinding) gomap \<Rightarrow> string list \<Rightarrow> OutRecord list \<Rightarrow> ('b, 'a) Executor
    \<Rightarrow> (error + OutRecord list) \<times> ('b, 'a) Executor" where
  "drain_loop sinks [] outs e = (Inr outs, e)"
| "drain_loop sinks (sinkName # rest) outs e =
     (case go_get sinks sinkName of
        None \<Rightarrow> drain_loop sinks rest outs (snd (DrainSink sinkName e))
      | Some sb \<Rightarrow>
        (case DrainSink sinkName e of
           (Inl err, e') \<Rightarrow> (Inl (Wrap ''runtime: drain'' [err]), e')
         | (Inr records, e') \<Rightarrow>
           (case encode_records sb records of
              Inl err \<Rightarrow> (Inl err, e')
            | Inr new \<Rightarrow> drain_loop sinks rest (outs @ new) e')))"

definition drainSinks :: "('b, 'a) Adapter \<Rightarrow> ('b, 'a) Executor \<Rightarrow> (error + OutRecord list) \<times> ('b, 'a) Executor" where
  "drainSinks a e = drain_loop (ad_resolvedSinks a) (t_sinks (bt_Topology (ad_bt a))) [] e"

text \<open>The executor of a task is a pointer: what it has become is what the task has.\<close>

definition set_executor :: "int \<Rightarrow> ('b, 'a) Executor \<Rightarrow> ('b, 'a) TaskManager \<Rightarrow> ('b, 'a) TaskManager" where
  "set_executor part e tm =
     (case go_get (tm_tasks tm) part of None \<Rightarrow> tm | Some t \<Rightarrow> put_task part (t\<lparr>tk_executor := e\<rparr>) tm)"

definition decode_record :: "'a SourceBinding \<Rightarrow> InRecord \<Rightarrow> error + 'a Record" where
  "decode_record binding r =
     (case so_DecodeKey binding (in_Key r) of
        Inl err \<Rightarrow> Inl (Wrap ''runtime: decode key'' [err])
      | Inr key \<Rightarrow> (case so_DecodeVal binding (case in_Value r of None \<Rightarrow> [] | Some v \<Rightarrow> v) of
        Inl err \<Rightarrow> Inl (Wrap ''runtime: decode val'' [err])
      | Inr val \<Rightarrow> Inr \<lparr>r_Key = key, r_Value = val, r_Timestamp = in_Timestamp r\<rparr>))"

definition process :: "InRecord \<Rightarrow> ('b, 'a) Adapter \<Rightarrow> (error + OutRecord list) \<times> ('b, 'a) Adapter" where
  "process r a =
     (case go_get (ad_topicToSource a) (in_Topic r) of
        None \<Rightarrow> (Inl (Err ''runtime: no source for topic''), a)
      | Some sourceName \<Rightarrow> (case go_get (ad_resolvedSources a) sourceName of
        None \<Rightarrow> (Inl (Err ''nil decode function''), a)
      | Some binding \<Rightarrow> (case decode_record binding r of
        Inl err \<Rightarrow> (Inl err, a)
      | Inr record \<Rightarrow> (case get_Executor (in_Partition r) (ad_taskManager a) of
        (None, tm) \<Rightarrow> (Inl (Err ''runtime: no task for partition''), a\<lparr>ad_taskManager := tm\<rparr>)
      | (Some exec, tm) \<Rightarrow>
        (case Process sourceName record exec of
           (Some err, exec') \<Rightarrow>
             (Inl (Wrap ''runtime: topology'' [err]),
              a\<lparr>ad_taskManager := set_executor (in_Partition r) exec' tm,
                ad_health := (if is_store_write err then Fail err (ad_health a) else ad_health a)\<rparr>)
         | (None, exec') \<Rightarrow>
             (case drainSinks a exec' of
                (res, exec'') \<Rightarrow> (res, a\<lparr>ad_taskManager := set_executor (in_Partition r) exec'' tm\<rparr>)))))))"

section \<open>The hooks\<close>

text \<open>The state the client's loops act on: the adapter and the cluster its producers write to.\<close>

type_synonym ('b, 'a, 'c) world = "('b, 'a) Adapter \<times> 'c"

definition PostBatchHook :: "'c Kafka \<Rightarrow> ('b, 'a, 'c) world \<Rightarrow> error option \<times> ('b, 'a, 'c) world" where
  "PostBatchHook kf = (\<lambda>(a, c).
     case health_Err (ad_health a) of
       Some err \<Rightarrow> (Some (Wrap '''' [ErrFatalPipeline, err]), (a, c))
     | None \<Rightarrow> (case PostBatch kf (ad_taskManager a, c) of (err, tm, c') \<Rightarrow> (err, (a\<lparr>ad_taskManager := tm\<rparr>, c'))))"

definition PostBatchSweepHook :: "('b, 'a, 'c) world \<Rightarrow> error option \<times> ('b, 'a, 'c) world" where
  "PostBatchSweepHook = (\<lambda>(a, c).
     case health_Err (ad_health a) of
       Some err \<Rightarrow> (Some (Wrap '''' [ErrFatalPipeline, err]), (a, c))
     | None \<Rightarrow> (case PostBatchSweep (ad_taskManager a) of (err, tm) \<Rightarrow> (err, (a\<lparr>ad_taskManager := tm\<rparr>, c))))"

definition ChangelogFlusherHook :: "'b Config \<Rightarrow> (('b, 'a, 'c) world \<Rightarrow> (error + OutRecord list) \<times> ('b, 'a, 'c) world) option" where
  "ChangelogFlusherHook cfg =
     (if cf_Guarantee cfg \<noteq> ExactlyOnce then None
      else Some (\<lambda>(a, c). case DrainChangelogRecords (ad_taskManager a) of (r, tm) \<Rightarrow> (r, (a\<lparr>ad_taskManager := tm\<rparr>, c))))"

definition HealthGateHook :: "('b, 'a, 'c) world \<Rightarrow> error option" where
  "HealthGateHook = (\<lambda>(a, c). health_Err (ad_health a))"

definition onAssigned :: "'c Kafka \<Rightarrow> Partitions \<Rightarrow> ('b, 'a, 'c) world \<Rightarrow> error option \<times> ('b, 'a, 'c) world" where
  "onAssigned kf ps = (\<lambda>(a, c). case OnAssigned kf c ps (ad_taskManager a) of (err, tm) \<Rightarrow> (err, (a\<lparr>ad_taskManager := tm\<rparr>, c)))"

definition onRevoked :: "'c Kafka \<Rightarrow> Partitions \<Rightarrow> ('b, 'a, 'c) world \<Rightarrow> ('b, 'a, 'c) world" where
  "onRevoked kf ps = (\<lambda>(a, c). case OnRevoked kf ps (ad_taskManager a, c) of (tm, c') \<Rightarrow> (a\<lparr>ad_taskManager := tm\<rparr>, c'))"

definition ProcessFunc :: "('b, 'a, 'c) world ProcessRecord" where
  "ProcessFunc r = (\<lambda>(a, c). case process r a of (res, a') \<Rightarrow> (res, (a', c)))"

text \<open>The client as \<open>NewAdapter\<close> documents its wiring, for each guarantee.\<close>

definition adapter_hooks :: "'c Kafka \<Rightarrow> 'b Config \<Rightarrow> ('b, 'a, 'c) world Hooks" where
  "adapter_hooks kf cfg =
     \<lparr>h_process = ProcessFunc, h_onAssigned = Some (onAssigned kf), h_onRevoked = Some (onRevoked kf),
      h_postBatch = Some (if cf_Guarantee cfg = ExactlyOnce then PostBatchSweepHook else PostBatchHook kf),
      h_changelogFlusher = ChangelogFlusherHook cfg, h_healthGate = Some HealthGateHook, h_NumTaskThreads = cf_NumTaskThreads cfg\<rparr>"

section \<open>A record stays on the task of its partition\<close>

text \<open>
  What a worker goroutine can see of the world: everything but the other tasks and the health, which is
  written only by a failing record and read only between batches.
\<close>

definition base :: "('b, 'a) Adapter \<Rightarrow> ('b, 'a) Adapter" where
  "base a = a\<lparr>ad_taskManager := (ad_taskManager a)\<lparr>tm_tasks := []\<rparr>, ad_health := None\<rparr>"

definition adapter_task :: "('b, 'a) Adapter \<Rightarrow> int \<Rightarrow> ('b, 'a) task option" where
  "adapter_task a p = go_get (tm_tasks (ad_taskManager a)) p"

definition partition_view :: "int \<Rightarrow> ('b, 'a, 'c) world \<Rightarrow> ('b, 'a) Adapter \<times> ('b, 'a) task option \<times> 'c" where
  "partition_view p = (\<lambda>(a, c). (base a, adapter_task a p, c))"

definition with_task :: "int \<Rightarrow> ('b, 'a) task option \<Rightarrow> ('b, 'a) Adapter \<Rightarrow> ('b, 'a) Adapter" where
  "with_task p ot a = a\<lparr>ad_taskManager := (ad_taskManager a)\<lparr>tm_tasks := (case ot of None \<Rightarrow> [] | Some t \<Rightarrow> [(p, t)])\<rparr>\<rparr>"

definition process_local :: "(('b, 'a) Adapter \<times> ('b, 'a) task option \<times> 'c) ProcessRecord" where
  "process_local r = (\<lambda>(a, ot, c).
     case process r (with_task (in_Partition r) ot a) of (res, a') \<Rightarrow> (res, partition_view (in_Partition r) (a', c)))"

lemma with_task_base:
  "adapter_task (with_task p ot a) p = ot" "base (with_task p ot (base a)) = base a"
  by (simp_all add: adapter_task_def with_task_def base_def split: option.split)

text \<open>One record, as a function of the task it runs on: the result, the new task and the error that trips the health.\<close>

definition run_record :: "('b, 'a) Adapter \<Rightarrow> InRecord \<Rightarrow> ('b, 'a) task option
    \<Rightarrow> (error + OutRecord list) \<times> ('b, 'a) task option \<times> error option" where
  "run_record a r ot =
     (case go_get (ad_topicToSource a) (in_Topic r) of
        None \<Rightarrow> (Inl (Err ''runtime: no source for topic''), ot, None)
      | Some sourceName \<Rightarrow> (case go_get (ad_resolvedSources a) sourceName of
        None \<Rightarrow> (Inl (Err ''nil decode function''), ot, None)
      | Some binding \<Rightarrow> (case decode_record binding r of
        Inl err \<Rightarrow> (Inl err, ot, None)
      | Inr record \<Rightarrow>
        (case (if ot = None \<and> store_changelogs (tm_bt (ad_taskManager a)) = []
               then Some (zero_store_task (in_Partition r) (ad_taskManager a)) else ot) of
           None \<Rightarrow> (Inl (Err ''runtime: no task for partition''), ot, None)
         | Some t \<Rightarrow>
           (case Process sourceName record (tk_executor t) of
              (Some err, e) \<Rightarrow> (Inl (Wrap ''runtime: topology'' [err]), Some (t\<lparr>tk_executor := e\<rparr>), if is_store_write err then Some err else None)
            | (None, e) \<Rightarrow> (case drainSinks a e of (res, e') \<Rightarrow> (res, Some (t\<lparr>tk_executor := e'\<rparr>), None)))))))"

lemma base_parts:
  "ad_topicToSource (base a) = ad_topicToSource a" "ad_resolvedSources (base a) = ad_resolvedSources a"
  "tm_bt (ad_taskManager (base a)) = tm_bt (ad_taskManager a)" "drainSinks (base a) = drainSinks a"
  "zero_store_task p (ad_taskManager (base a)) = zero_store_task p (ad_taskManager a)"
  by (simp_all add: base_def drainSinks_def zero_store_task_def fun_eq_iff)

lemma run_record_base [simp]: "run_record (base a) = run_record a"
  unfolding run_record_def base_parts by (rule refl)

lemma process_run_record:
  assumes "process r a = (res, a')" "run_record a r (adapter_task a (in_Partition r)) = (res1, ot, h)"
  shows "res = res1 \<and> base a' = base a \<and> ad_health a' = (case h of None \<Rightarrow> ad_health a | Some e \<Rightarrow> Fail e (ad_health a))
    \<and> adapter_task a' = (adapter_task a)(in_Partition r := ot)"
  using assms
  by (auto simp: process_def run_record_def adapter_task_def get_Executor_def put_task_def set_executor_def base_def zero_store_task_def
      split: option.splits sum.splits prod.splits if_splits)

lemma run_record_health: "run_record a r ot = (res, ot', h) \<Longrightarrow> h \<noteq> None \<Longrightarrow> \<exists>err. res = Inl err"
  by (auto simp: run_record_def split: option.splits sum.splits prod.splits if_splits)

lemma process_view:
  assumes "ProcessFunc r w = (res, w')"
  shows "process_local r (partition_view (in_Partition r) w) = (res, partition_view (in_Partition r) w')
    \<and> (\<forall>p. p \<noteq> in_Partition r \<longrightarrow> partition_view p w' = partition_view p w)"
proof -
  obtain a c where w: "w = (a, c)" by fastforce
  obtain a' where p: "process r a = (res, a')" and w': "w' = (a', c)"
    using assms by (auto simp: ProcessFunc_def w split: prod.splits)
  let ?p = "in_Partition r"
  obtain res1 ot h where rr: "run_record a r (adapter_task a ?p) = (res1, ot, h)" by (metis prod_cases3)
  note fact = process_run_record [OF p rr]
  obtain res2 a2 where p2: "process r (with_task ?p (adapter_task a ?p) (base a)) = (res2, a2)" by fastforce
  have "run_record (with_task ?p (adapter_task a ?p) (base a)) r (adapter_task a ?p) = run_record a r (adapter_task a ?p)"
    by (metis run_record_base with_task_base(2))
  then have "res2 = res1 \<and> base a2 = base a \<and> adapter_task a2 ?p = ot"
    using process_run_record [OF p2, unfolded with_task_base] rr by (auto simp: with_task_base)
  then show ?thesis using fact p2 by (simp add: process_local_def partition_view_def w w')
qed

interpretation adapter_partitions: partitioned ProcessFunc partition_view process_local
  using process_view by unfold_locales blast+

section \<open>Health\<close>

abbreviation world_health :: "('b, 'a, 'c) world \<Rightarrow> PipelineHealth" where
  "world_health w \<equiv> ad_health (fst w)"

lemma process_ok_health:
  assumes "process r a = (Inr out, a')"
  shows "ad_health a' = ad_health a"
proof -
  obtain res1 ot h where rr: "run_record a r (adapter_task a (in_Partition r)) = (res1, ot, h)" by (metis prod_cases3)
  show ?thesis using process_run_record [OF assms rr] run_record_health [OF rr] by (cases h) auto
qed

lemma ProcessFunc_keeps_health: "keeps ProcessFunc (\<lambda>w. world_health w = h)"
  by (auto simp: keeps_def ProcessFunc_def dest!: process_ok_health split: prod.splits)

definition store_failure :: "PipelineHealth \<Rightarrow> bool" where
  "store_failure h \<longleftrightarrow> (\<forall>e. h = Some e \<longrightarrow> is_store_write e)"

lemma ProcessFunc_store_failure: "maintains ProcessFunc (\<lambda>w. store_failure (world_health w))"
  by (auto simp: maintains_def ProcessFunc_def process_def store_failure_def Fail_def
      split: option.splits sum.splits prod.splits)

lemma adapter_health_of: "health_of (adapter_hooks kf cfg) w = world_health w"
  by (simp add: health_of_def adapter_hooks_def HealthGateHook_def health_Err_def case_prod_beta)

text \<open>The callbacks and hooks leave the health alone.\<close>

lemma adapter_callback_health [simp]: "world_health (run_callback (adapter_hooks kf cfg) rb w) = world_health w"
  by (cases w; cases rb)
    (auto simp: run_callback_def adapter_hooks_def onAssigned_def onRevoked_def split: prod.splits)

lemma adapter_callbacks_health [simp]: "world_health (fold (run_callback (adapter_hooks kf cfg)) rbs w) = world_health w"
  by (induction rbs arbitrary: w) auto

lemma adapter_post_batch_health: "post_batch (adapter_hooks kf cfg) w = (err, w') \<Longrightarrow> world_health w' = world_health w"
  by (cases w) (auto simp: post_batch_def adapter_hooks_def PostBatchHook_def PostBatchSweepHook_def
      split: prod.splits option.splits if_splits)

lemma adapter_drain_health: "drain_changelog (adapter_hooks kf cfg) w = (res, w') \<Longrightarrow> world_health w' = world_health w"
  by (cases w) (auto simp: drain_changelog_def adapter_hooks_def ChangelogFlusherHook_def split: prod.splits if_splits)

lemma ao_commit_world [simp]: "al_world (snd (ao_commit f now s)) = al_world s"
  by (auto simp: ao_commit_def Let_def al_log_def split: option.split)

lemma alo_rebalances_health [simp]:
  "world_health (al_world (fold (alo_rebalance (adapter_hooks kf cfg) ev) rbs s)) = world_health (al_world s)"
proof (induction rbs arbitrary: s)
  case (Cons rb rbs)
  have "world_health (al_world (alo_rebalance (adapter_hooks kf cfg) ev rb s)) = world_health (al_world s)"
    by (cases rb) (simp_all add: alo_rebalance_def Let_def)
  then show ?case using Cons by simp
qed simp

text \<open>An iteration of either loop that starts healthy ends healthy, or has exited on the failed batch.\<close>

lemma alo_iteration_health:
  assumes "alo_iteration (adapter_hooks kf cfg) ev s = (r, s')" "world_health (al_world s) = None"
  shows "store_failure (world_health (al_world s')) \<and> (world_health (al_world s') = None
    \<or> (\<exists>err tr recs. r = Exit (Some err) \<and> al_trace s' = tr @ [EPolled recs]))"
proof -
  let ?hooks = "adapter_hooks kf cfg"
  define s1 where "s1 = al_log (EPolled (ae_records ev)) (fold (alo_rebalance ?hooks ev) (ae_rebalances ev) s)"
  have h1: "world_health (al_world s1) = None" "al_trace s1 = al_trace (fold (alo_rebalance ?hooks ev) (ae_rebalances ev) s) @ [EPolled (ae_records ev)]"
    using assms(2) by (simp_all add: s1_def al_log_def)
  have batch: "store_failure (world_health w) \<and> (res \<noteq> None \<longrightarrow> world_health w = None)"
    if "processBatchConcurrent (ae_sched ev) (h_process ?hooks) n ins (al_world s1) = Some (res, w)" for n ins res w
    using that batch_maintains [OF ProcessFunc_store_failure, of "al_world s1" "ae_sched ev" n ins res w]
      batch_success_keeps [OF ProcessFunc_keeps_health, of "al_world s1" None "ae_sched ev" n ins _ w] h1(1)
    by (auto simp: adapter_hooks_def store_failure_def)
  have finish: "world_health (al_world s2) = world_health w"
    if "alo_finish ?hooks ev outs (s1\<lparr>al_world := w\<rparr>) = (r2, s2)" for outs w r2 s2
    using that by (auto simp: alo_finish_def Let_def commit_if_due_def dest!: adapter_post_batch_health
        split: prod.splits option.splits if_splits)
  show ?thesis
    using assms batch finish h1
    by (auto simp: alo_iteration_def Let_def s1_def [symmetric] health_of_def commitALOOnShutdown_def commit_if_due_def store_failure_def
        split: option.splits prod.splits if_splits)
qed

definition eos_halted :: "Outcome \<Rightarrow> Effect list \<Rightarrow> bool" where
  "eos_halted r tr \<longleftrightarrow> (\<exists>err tr0 recs. r = Exit (Some err) \<and> tr = tr0 @ [EPolled recs, EEndAbort])"

lemma eos_commit_world: "eos_commit ev s = (r, s') \<Longrightarrow> eo_world s' = eo_world s"
  by (auto simp: eos_commit_def commitEOSTransaction_def Let_def eo_log_def split: sum.splits if_splits option.splits)

lemma eos_batch_health:
  assumes "eos_batch (adapter_hooks kf cfg) ev deadline s = (r, s')" "world_health (eo_world s) = None"
  shows "store_failure (world_health (eo_world s')) \<and> (world_health (eo_world s') = None \<or> eos_halted r (eo_trace s'))"
proof -
  let ?hooks = "adapter_hooks kf cfg"
  have batch: "store_failure (world_health w) \<and> (res \<noteq> None \<longrightarrow> world_health w = None)"
    if "processBatchConcurrent (ee_sched ev) (h_process ?hooks) n ins (eo_world s) = Some (res, w)" for n ins res w
    using that batch_maintains [OF ProcessFunc_store_failure, of "eo_world s" "ee_sched ev" n ins res w]
      batch_success_keeps [OF ProcessFunc_keeps_health, of "eo_world s" None "ee_sched ev" n ins _ w] assms(2)
    by (auto simp: adapter_hooks_def store_failure_def)
  show ?thesis
    using assms
    by (auto simp: eos_batch_def Let_def eo_log_def eos_abort_def eos_halted_def store_failure_def
        dest!: adapter_post_batch_health adapter_drain_health eos_commit_world batch
        split: option.splits prod.splits if_splits sum.splits)
qed

lemma eos_iteration_health:
  assumes "eos_iteration (adapter_hooks kf cfg) interval ev s = (r, s')" "world_health (eo_world s) = None"
  shows "store_failure (world_health (eo_world s')) \<and> (world_health (eo_world s') = None \<or> eos_halted r (eo_trace s'))"
proof -
  have poll: "store_failure (world_health (eo_world s2)) \<and> (world_health (eo_world s2) = None \<or> eos_halted r2 (eo_trace s2))"
    if "eos_poll (adapter_hooks kf cfg) ev deadline mutated s1 = (r2, s2)" "world_health (eo_world s1) = None" for deadline mutated s1 r2 s2
    using that
    by (auto simp: eos_poll_def Let_def eos_abort_def eo_log_def store_failure_def
        dest!: eos_commit_world eos_batch_health split: if_splits)
  show ?thesis using assms
    by (auto simp: eos_iteration_def Let_def eo_log_def store_failure_def health_of_def dest!: poll
        split: option.splits prod.splits if_splits)
qed

lemma runALO_health:
  assumes "runALO (adapter_hooks kf cfg) evs s = (r, s')" "world_health (al_world s) = None"
  shows "store_failure (world_health (al_world s')) \<and> (world_health (al_world s') = None
    \<or> (\<exists>err tr recs. r = Exit (Some err) \<and> al_trace s' = tr @ [EPolled recs]))"
  using assms
proof (induction evs arbitrary: s)
  case (Cons ev evs)
  obtain r1 s1 where i: "alo_iteration (adapter_hooks kf cfg) ev s = (r1, s1)" by fastforce
  show ?case using alo_iteration_health [OF i Cons.prems(2)] Cons.IH [of s1] Cons.prems(1) i
    by (cases r1) auto
qed (simp add: store_failure_def)

lemma runEOS_health:
  assumes "runEOS (adapter_hooks kf cfg) interval evs s = (r, s')" "world_health (eo_world s) = None"
  shows "store_failure (world_health (eo_world s')) \<and> (world_health (eo_world s') = None \<or> eos_halted r (eo_trace s'))"
  using assms
proof (induction evs arbitrary: s)
  case (Cons ev evs)
  obtain r1 s1 where i: "eos_iteration (adapter_hooks kf cfg) interval ev s = (r1, s1)" by fastforce
  show ?case using eos_iteration_health [OF i Cons.prems(2)] Cons.IH [of s1] Cons.prems(1) i
    by (cases r1) (auto simp: eos_halted_def)
qed (simp add: store_failure_def)

section \<open>Routes\<close>

abbreviation repartition_source :: "string \<Rightarrow> 'a RepartitionBinding \<Rightarrow> 'a SourceBinding" where
  "repartition_source appID rb \<equiv> \<lparr>so_Topic = repartition_topic appID (rb_Name rb), so_DecodeKey = rb_DecodeKey rb, so_DecodeVal = rb_DecodeVal rb\<rparr>"

abbreviation repartition_sink :: "string \<Rightarrow> 'a RepartitionBinding \<Rightarrow> 'a SinkBinding" where
  "repartition_sink appID rb \<equiv> \<lparr>si_Topic = repartition_topic appID (rb_Name rb), si_EncodeKey = rb_EncodeKey rb, si_EncodeVal = rb_EncodeVal rb\<rparr>"

lemma repartition_topic_inj [simp]: "repartition_topic appID m = repartition_topic appID n \<longleftrightarrow> m = n"
  by (simp add: repartition_topic_def)

lemma add_repartition_eq:
  "add_repartition appID (n, rb) (sources, sinks, topics) =
     (go_set (rb_SourceName rb) (repartition_source appID rb) sources, go_set (rb_SinkName rb) (repartition_sink appID rb) sinks,
      go_set (repartition_topic appID (rb_Name rb)) (rb_SourceName rb) topics)"
  by (simp add: add_repartition_def Let_def)

text \<open>Every routed topic leads to a source with a binding, and the map has one entry per topic.\<close>

definition routed :: "(string, 'a SourceBinding) gomap \<Rightarrow> (string, string) gomap \<Rightarrow> bool" where
  "routed sources topics \<longleftrightarrow> go_map_ok topics \<and> (\<forall>topic name. go_get topics topic = Some name \<longrightarrow> go_get sources name \<noteq> None)"

lemma add_repartitions_routed:
  assumes "fold (add_repartition appID) rbs (sources, sinks, topics) = (sources', sinks', topics')" "routed sources topics"
  shows "routed sources' topics'"
  using assms
proof (induction rbs arbitrary: sources sinks topics)
  case (Cons nrb rbs)
  obtain n rb where nrb: "nrb = (n, rb)" by fastforce
  have "routed (go_set (rb_SourceName rb) (repartition_source appID rb) sources) (go_set (repartition_topic appID (rb_Name rb)) (rb_SourceName rb) topics)"
    using Cons.prems(2) by (auto simp: routed_def)
  then show ?case using Cons by (auto simp: nrb add_repartition_def Let_def)
qed simp

text \<open>Bindings with names of their own keep their routes to the end of the loop.\<close>

lemma add_repartitions_frame:
  assumes "fold (add_repartition appID) rbs (sources, sinks, topics) = (sources', sinks', topics')"
  shows "(x \<notin> (rb_SourceName \<circ> snd) ` set rbs \<longrightarrow> go_get sources' x = go_get sources x)
    \<and> (y \<notin> (rb_SinkName \<circ> snd) ` set rbs \<longrightarrow> go_get sinks' y = go_get sinks y)
    \<and> (z \<notin> (rb_Name \<circ> snd) ` set rbs \<longrightarrow> go_get topics' (repartition_topic appID z) = go_get topics (repartition_topic appID z))"
  using assms
proof (induction rbs arbitrary: sources sinks topics)
  case (Cons nrb rbs)
  obtain n rb where nrb: "nrb = (n, rb)" by fastforce
  show ?case using Cons by (fastforce simp: nrb add_repartition_def Let_def)
qed simp

lemma add_repartitions_get:
  assumes "fold (add_repartition appID) rbs (sources, sinks, topics) = (sources', sinks', topics')" "(n, rb) \<in> set rbs"
    and "distinct (map (rb_SourceName \<circ> snd) rbs)" "distinct (map (rb_SinkName \<circ> snd) rbs)" "distinct (map (rb_Name \<circ> snd) rbs)"
  shows "go_get sources' (rb_SourceName rb) = Some (repartition_source appID rb)
    \<and> go_get sinks' (rb_SinkName rb) = Some (repartition_sink appID rb)
    \<and> go_get topics' (repartition_topic appID (rb_Name rb)) = Some (rb_SourceName rb)"
  using assms
proof (induction rbs arbitrary: sources sinks topics)
  case (Cons nrb rbs)
  obtain m rb0 where nrb: "nrb = (m, rb0)" by fastforce
  note step = Cons.prems(1) [unfolded nrb fold_simps add_repartition_eq]
  show ?case
  proof (cases "(n, rb) \<in> set rbs")
    case True
    then show ?thesis using Cons.IH [OF step] Cons.prems(3-5) by simp
  next
    case False
    then have "rb = rb0" using Cons.prems(2) nrb by simp
    then show ?thesis
      using add_repartitions_frame [OF step, of "rb_SourceName rb0" "rb_SinkName rb0" "rb_Name rb0"] Cons.prems(3-5) by (simp add: nrb)
  qed
qed simp

lemma add_source_step:
  assumes "add_source sources name topics = (None, topics')" "routed sources topics"
  shows "routed sources topics' \<and> map_of topics \<subseteq>\<^sub>m map_of topics'
    \<and> (\<exists>b. go_get sources name = Some b \<and> go_get topics' (so_Topic b) = Some name)"
  using assms by (auto simp: add_source_def routed_def map_le_def split: option.splits if_splits)

lemma add_sources:
  assumes "until_error (add_source sources) names topics = (None, topics')" "routed sources topics"
  shows "routed sources topics' \<and> map_of topics \<subseteq>\<^sub>m map_of topics'
    \<and> (\<forall>name \<in> set names. \<exists>b. go_get sources name = Some b \<and> go_get topics' (so_Topic b) = Some name)"
  using assms
proof (induction names arbitrary: topics)
  case (Cons name names)
  obtain topics1 where 1: "add_source sources name topics = (None, topics1)" "until_error (add_source sources) names topics1 = (None, topics')"
    using Cons.prems(1) by (auto split: prod.splits option.splits)
  note step = add_source_step [OF 1(1) Cons.prems(2)]
  then have IH: "routed sources topics'" "map_of topics1 \<subseteq>\<^sub>m map_of topics'"
      "\<forall>name \<in> set names. \<exists>b. go_get sources name = Some b \<and> go_get topics' (so_Topic b) = Some name"
    using Cons.IH [OF 1(2)] by blast+
  have "\<exists>b. go_get sources name = Some b \<and> go_get topics' (so_Topic b) = Some name"
    using step IH(2) by (metis domI map_le_def)
  then show ?case using IH step map_le_trans by auto
qed simp

text \<open>The errors of the sinks are not those of the topology.\<close>

lemma encode_records_errors: "encode_records sb rs = Inl e \<Longrightarrow> e \<noteq> Wrap ''runtime: topology'' es"
proof (induction rs)
  case (Cons r rs)
  then show ?case by (cases "encode_records sb rs") (auto split: sum.splits)
qed simp

lemma drain_loop_errors: "drain_loop sinks names outs ex = (Inl e, ex') \<Longrightarrow> e \<noteq> Wrap ''runtime: topology'' es"
  by (induction sinks names outs ex rule: drain_loop.induct) (auto simp: encode_records_errors split: option.splits sum.splits prod.splits)

section \<open>Properties\<close>

text \<open>
  C13: A batch of the adapter gives the same result on one thread and on many. Whatever the
  interleaving of the goroutines and the number of threads, the concurrent batch fails exactly when the sequential
  one does; when they succeed, every partition has the same task in the same state, the sequential
  outputs are those of the records in the order of the batch, the concurrent ones (with
  more than one thread) the same outputs partition by partition, the partitions in the order of
  their first record and the outputs of a partition in the order of its records, and neither
  touches the pipeline's health nor the cluster.
\<close>

theorem adapter_batches_agree:
  assumes c: "processBatchConcurrent sched ProcessFunc maxThreads ins (a, c) = Some (res, a1, c1)"
    and s: "processBatch ProcessFunc ins (a, c) = (res', a2, c2)"
  shows "(res = None \<longleftrightarrow> res' = None)
    \<and> (\<forall>outs outs'. res = Some outs \<longrightarrow> res' = Some outs' \<longrightarrow>
        outs' = concat (record_outputs ProcessFunc ins (a, c))
        \<and> outs = (if maxThreads \<le> 1 then concat (record_outputs ProcessFunc ins (a, c))
            else concat (map (partition_outputs ins (record_outputs ProcessFunc ins (a, c))) (partition_order ins)))
        \<and> mset outs = mset outs' \<and> adapter_task a1 = adapter_task a2
        \<and> ad_health a1 = ad_health a \<and> ad_health a2 = ad_health a \<and> c1 = c \<and> c2 = c)"
proof -
  note agree = adapter_partitions.concurrent_agrees [OF c s]
  have cluster: "keeps ProcessFunc (\<lambda>w. snd w = c)" by (auto simp: keeps_def ProcessFunc_def split: prod.splits)
  have "ad_health a1 = ad_health a \<and> c1 = c" if "res = Some outs" for outs
    using batch_success_keeps [OF ProcessFunc_keeps_health, of "(a, c)" "ad_health a"] batch_success_keeps [OF cluster, of "(a, c)"] c that
    by fastforce
  moreover have "ad_health a2 = ad_health a \<and> c2 = c" if "res' = Some outs" for outs
    using process_loop_keeps [OF ProcessFunc_keeps_health, of ins "[]" "(a, c)"] process_loop_keeps [OF cluster, of ins "[]" "(a, c)"] s that
    by (force simp: processBatch_def)
  moreover have "adapter_task a1 = adapter_task a2" if "\<forall>p. partition_view p (a1, c1) = partition_view p (a2, c2)"
    using that by (auto simp: partition_view_def)
  ultimately show ?thesis using agree by auto
qed

text \<open>
  C14: A failed store write stops the pipeline. A store-write error of the topology trips the health;
  nothing else does, in any run of either loop; and once it is tripped by a record, the loop has
  returned an error, and the batch of that record is the last thing it polled: none of its output
  was produced, no offset was committed after it, and the exactly-once transaction was aborted. A
  loop that finds the health tripped returns before it polls again.
\<close>

theorem store_failure_stops_pipeline:
  assumes "world_health (al_world s) = None" "world_health (eo_world t) = None"
    and "runALO (adapter_hooks kf cfg) evs s = (r, s')" "runEOS (adapter_hooks kf cfg) interval evs' t = (r', t')"
  shows "(process rec a = (Inl (Wrap ''runtime: topology'' [err]), a') \<and> is_store_write err \<and> ad_health a = None \<longrightarrow> ad_health a' = Some err)
    \<and> (\<forall>e. world_health (al_world s') = Some e \<longrightarrow> is_store_write e
        \<and> (\<exists>err tr recs. r = Exit (Some err) \<and> al_trace s' = tr @ [EPolled recs])
        \<and> runALO (adapter_hooks kf cfg) (ev # evs) s' = (Exit (Some (Wrap ''runALO: pipeline unhealthy'' [e])), s'))
    \<and> (\<forall>e. world_health (eo_world t') = Some e \<longrightarrow> is_store_write e
        \<and> (\<exists>err tr recs. r' = Exit (Some err) \<and> eo_trace t' = tr @ [EPolled recs, EEndAbort]))"
proof -
  have "ad_health a' = Some err"
    if "process rec a = (Inl (Wrap ''runtime: topology'' [err]), a')" "is_store_write err" "ad_health a = None"
    using that
    by (auto simp: process_def Fail_def decode_record_def drainSinks_def dest!: drain_loop_errors
        split: option.splits sum.splits prod.splits if_splits)
  moreover have "runALO (adapter_hooks kf cfg) (ev # evs) s' = (Exit (Some (Wrap ''runALO: pipeline unhealthy'' [e])), s')"
    if "world_health (al_world s') = Some e" for e
    using that by (simp add: alo_iteration_def adapter_health_of)
  ultimately show ?thesis
    using runALO_health [OF assms(3,1)] runEOS_health [OF assms(4,2)] by (auto simp: store_failure_def eos_halted_def)
qed

text \<open>
  C17: The adapter routes every topic it subscribes to. When \<open>NewAdapter\<close> succeeds, it subscribes to
  each topic once; the topic of each source node of the topology leads back to that node, and
  every subscribed topic leads to a node with decoders; without stores every sink has
  a topic and encoders. When the repartition bindings have names of their own, what is written to the sink of
  one is consumed again by its source, with its own encoders and decoders.
\<close>

theorem adapter_routes_topics:
  assumes "NewAdapter bt cfg noData = Inr a"
  shows "distinct (SourceTopics a)
    \<and> (\<forall>name \<in> set (t_sources (bt_Topology bt)). \<exists>b. go_get (ad_resolvedSources a) name = Some b
         \<and> go_get (ad_topicToSource a) (so_Topic b) = Some name)
    \<and> (\<forall>topic \<in> set (SourceTopics a). \<exists>name b. go_get (ad_topicToSource a) topic = Some name \<and> go_get (ad_resolvedSources a) name = Some b)
    \<and> (\<not> has_stores bt \<longrightarrow> (\<forall>sink \<in> set (t_sinks (bt_Topology bt)). go_get (ad_resolvedSinks a) sink \<noteq> None))
    \<and> (distinct (map (rb_SourceName \<circ> snd) (bt_RepartitionBindings bt)) \<and> distinct (map (rb_SinkName \<circ> snd) (bt_RepartitionBindings bt))
         \<and> distinct (map (rb_Name \<circ> snd) (bt_RepartitionBindings bt)) \<longrightarrow>
       (\<forall>(n, rb) \<in> set (bt_RepartitionBindings bt). let topic = repartition_topic (cf_ApplicationID cfg) (rb_Name rb) in
          go_get (ad_resolvedSinks a) (rb_SinkName rb) = Some \<lparr>si_Topic = topic, si_EncodeKey = rb_EncodeKey rb, si_EncodeVal = rb_EncodeVal rb\<rparr>
          \<and> go_get (ad_topicToSource a) topic = Some (rb_SourceName rb)
          \<and> go_get (ad_resolvedSources a) (rb_SourceName rb)
              = Some \<lparr>so_Topic = topic, so_DecodeKey = rb_DecodeKey rb, so_DecodeVal = rb_DecodeVal rb\<rparr>))"
proof -
  obtain sources sinks topics topics' where f: "fold (add_repartition (cf_ApplicationID cfg)) (bt_RepartitionBindings bt) (bt_Sources bt, bt_Sinks bt, []) = (sources, sinks, topics)"
    and u: "until_error (add_source sources) (t_sources (bt_Topology bt)) topics = (None, topics')"
    and a: "ad_resolvedSources a = sources" "ad_resolvedSinks a = sinks" "ad_topicToSource a = topics'"
    and st: "has_stores bt \<or> (\<forall>sink \<in> set (t_sinks (bt_Topology bt)). go_get sinks sink \<noteq> None)"
    using assms by (auto simp: NewAdapter_def Let_def split: if_splits prod.splits option.splits)
  have "routed sources topics" by (rule add_repartitions_routed [OF f]) (simp add: routed_def)
  note src = add_sources [OF u this]
  then have "\<exists>name b. go_get topics' topic = Some name \<and> go_get sources name = Some b" if "topic \<in> set (map fst topics')" for topic
    using that by (auto simp: routed_def) (metis map_of_eq_None_iff fst_conv image_eqI not_None_eq)
  moreover have "distinct (map fst topics')" using src by (simp add: routed_def go_map_ok_def)
  moreover have "go_get topics' topic = Some name" if "go_get topics topic = Some name" for topic name
    using that src by (metis domI map_le_def)
  ultimately show ?thesis
    using src st add_repartitions_get [OF f] unfolding a SourceTopics_def Let_def by blast
qed

section \<open>Witnesses\<close>

text \<open>
  A topology without stores: the source of topic \<open>in\<close>, a processor whose write fails for an empty key, a
  sink to the topic \<open>out\<close>, and a repartition topic that is read again.
\<close>

definition demo_disk_fn :: "((unit, bytes) estate, bytes) ProcessFunc" where
  "demo_disk_fn r fwd s = (if r_Key r = [] then (Some (ErrStoreWrite ''Put'' (Err ''disk full'')), s) else (None, fwd r s))"

definition demo_node :: "string \<Rightarrow> ((unit, bytes) estate, bytes) ProcessFunc \<Rightarrow> string list \<Rightarrow> bool \<Rightarrow> ((unit, bytes) estate, bytes) node" where
  "demo_node name fn down sink = \<lparr>n_name = name, n_processFn = Some fn, n_statefulFn = None, n_storeNames = [], n_downstreams = down, n_isSink = sink\<rparr>"

definition demo_binding :: "bytes RepartitionBinding" where
  "demo_binding = \<lparr>rb_Name = ''by'', rb_SinkName = ''by-sink'', rb_SourceName = ''by-src'', rb_Partitions = 0,
     rb_EncodeKey = Inr, rb_EncodeVal = Inr, rb_DecodeKey = Inr, rb_DecodeVal = Inr\<rparr>"

definition demo_app :: "(unit, bytes) BuiltTopology" where
  "demo_app = \<lparr>bt_Topology = \<lparr>t_sources = [''src'', ''by-src''], t_sinks = [''out'', ''by-sink''],
       t_nodes = [(''src'', demo_node ''src'' source_fn [''disk''] False), (''disk'', demo_node ''disk'' demo_disk_fn [''out''] False),
         (''out'', demo_node ''out'' sinkPlaceholderFn [] True), (''by-src'', demo_node ''by-src'' source_fn [''by-sink''] False),
         (''by-sink'', demo_node ''by-sink'' sinkPlaceholderFn [] True)]\<rparr>,
     bt_Sources = [(''src'', \<lparr>so_Topic = ''in'', so_DecodeKey = Inr, so_DecodeVal = Inr\<rparr>)],
     bt_Sinks = [(''out'', \<lparr>si_Topic = ''res'', si_EncodeKey = Inr, si_EncodeVal = Inr\<rparr>)],
     bt_RepartitionBindings = [(''by'', demo_binding)],
     bt_StoreBindings = [], bt_WindowStoreBindings = [], bt_SessionStoreBindings = [], bt_GlobalTableBindings = []\<rparr>"

definition demo_app_cfg :: "unit Config" where
  "demo_app_cfg = zero_Config\<lparr>cf_ApplicationID := ''app'', cf_Brokers := [''broker''], cf_NumTaskThreads := 2\<rparr>"

definition demo_adapter :: "(unit, bytes) Adapter" where
  "demo_adapter = (case NewAdapter demo_app demo_app_cfg () of Inr a \<Rightarrow> a)"

lemma demo_adapter_new: "NewAdapter demo_app demo_app_cfg () = Inr demo_adapter"
proof -
  have "\<not> isl (NewAdapter demo_app demo_app_cfg ())" by code_simp
  then show ?thesis by (auto simp: demo_adapter_def split: sum.split)
qed

theorem adapter_routes_topics_witness:
  "distinct (SourceTopics demo_adapter) \<and> go_get (ad_topicToSource demo_adapter) ''app-by-repartition'' = Some ''by-src''"
  using adapter_routes_topics [OF demo_adapter_new]
  by (simp add: demo_app_def demo_binding_def demo_app_cfg_def Let_def repartition_topic_def)

abbreviation demo_ins :: "InRecord list" where
  "demo_ins \<equiv> map (toInRecord \<circ> (\<lambda>(p, k). \<lparr>k_Topic = ''in'', k_Partition = p, k_Offset = 0, k_Key = k, k_Value = Some [7], k_Timestamp = 5\<rparr>))
     [(0, [1]), (1, [2]), (0, [3])]"

lemma demo_run:
  "map_option (\<lambda>(res, _). res \<noteq> None) (processBatchConcurrent (concat (replicate 6 [1, 0])) ProcessFunc 2 demo_ins (demo_adapter, ())) = Some True"
  "map_prod (map_option (map out_Key)) (\<lambda>_. ()) (processBatch ProcessFunc demo_ins (demo_adapter, ())) = (Some [[1], [2], [3]], ())"
  by code_simp+

theorem adapter_batches_agree_witness:
  "\<exists>outs a1. processBatchConcurrent (concat (replicate 6 [1, 0])) ProcessFunc 2 demo_ins (demo_adapter, ()) = Some (Some outs, a1, ())
     \<and> map out_Key outs = [[1], [3], [2]] \<and> ad_health a1 = None"
proof -
  obtain outs a1 where c: "processBatchConcurrent (concat (replicate 6 [1, 0])) ProcessFunc 2 demo_ins (demo_adapter, ()) = Some (Some outs, a1, ())"
    using demo_run(1) by auto
  obtain outs' a2 where s: "processBatch ProcessFunc demo_ins (demo_adapter, ()) = (Some outs', a2, ())"
    using demo_run(2) by (cases "processBatch ProcessFunc demo_ins (demo_adapter, ())") auto
  have "ad_health demo_adapter = None" by code_simp
  moreover have "map out_Key (concat (map (partition_outputs demo_ins (record_outputs ProcessFunc demo_ins (demo_adapter, ()))) (partition_order demo_ins)))
      = [[1], [3], [2]]" by code_simp
  ultimately show ?thesis using adapter_batches_agree [OF c s(1)] c by simp
qed

definition demo_bad :: KRecord where
  "demo_bad = \<lparr>k_Topic = ''in'', k_Partition = 0, k_Offset = 0, k_Key = [], k_Value = Some [7], k_Timestamp = 5\<rparr>"

lemma demo_failure:
  "world_health (al_world (snd (runALO (adapter_hooks (demo_kafka []) demo_app_cfg) [alo_poll [demo_bad] 1] (alo_fresh (demo_adapter, []) 0 9)))) \<noteq> None"
  "world_health (eo_world (snd (runEOS (adapter_hooks (demo_kafka []) demo_app_cfg) 9 [eos_poll_ev [demo_bad] 1] (eos_fresh (demo_adapter, []))))) \<noteq> None"
  "ad_health demo_adapter = None"
  by code_simp+

theorem store_failure_stops_pipeline_witness:
  "(\<exists>s' err tr recs. runALO (adapter_hooks (demo_kafka []) demo_app_cfg) [alo_poll [demo_bad] 1] (alo_fresh (demo_adapter, []) 0 9) = (Exit (Some err), s')
       \<and> al_trace s' = tr @ [EPolled recs])
   \<and> (\<exists>t' err tr recs. runEOS (adapter_hooks (demo_kafka []) demo_app_cfg) 9 [eos_poll_ev [demo_bad] 1] (eos_fresh (demo_adapter, [])) = (Exit (Some err), t')
       \<and> eo_trace t' = tr @ [EPolled recs, EEndAbort])"
proof -
  let ?h = "adapter_hooks (demo_kafka []) demo_app_cfg"
  obtain r s' where s: "runALO ?h [alo_poll [demo_bad] 1] (alo_fresh (demo_adapter, []) 0 9) = (r, s')" by fastforce
  obtain r' t' where t: "runEOS ?h 9 [eos_poll_ev [demo_bad] 1] (eos_fresh (demo_adapter, [])) = (r', t')" by fastforce
  have "world_health (al_world (alo_fresh (demo_adapter, []) 0 9)) = None" "world_health (eo_world (eos_fresh (demo_adapter, []))) = None"
    using demo_failure(3) by (simp_all add: alo_fresh_def eos_fresh_def)
  note halts = store_failure_stops_pipeline [OF this s t]
  show ?thesis using halts demo_failure(1,2) s t by fastforce
qed

end
