(* ===== verification/Client.thy ===== *)
theory Client
  imports Adapter
begin

text \<open>
  \<open>internal/kafka/client.go\<close>, the construction of a client: the functional options, the options it
  passes to the Kafka library, the identity of an exactly-once instance, and \<open>Run\<close>, which chooses the
  loop of the configured guarantee. The operating system's files and the outcome of creating the library's
  client are arguments.
\<close>

section \<open>Options\<close>

record 'w clientOptions =
  co_onAssigned :: "(Partitions \<Rightarrow> 'w \<Rightarrow> error option \<times> 'w) option"
  co_onRevoked :: "(Partitions \<Rightarrow> 'w \<Rightarrow> 'w) option"
  co_postBatch :: "('w \<Rightarrow> error option \<times> 'w) option"
  co_changelogFlusher :: "('w \<Rightarrow> (error + OutRecord list) \<times> 'w) option"
  co_healthGate :: "('w \<Rightarrow> error option) option"

type_synonym 'w ClientOption = "'w clientOptions \<Rightarrow> 'w clientOptions"

definition zero_clientOptions :: "'w clientOptions" where
  "zero_clientOptions = \<lparr>co_onAssigned = None, co_onRevoked = None, co_postBatch = None, co_changelogFlusher = None, co_healthGate = None\<rparr>"

definition WithLifecycle :: "(Partitions \<Rightarrow> 'w \<Rightarrow> error option \<times> 'w) option \<Rightarrow> (Partitions \<Rightarrow> 'w \<Rightarrow> 'w) option \<Rightarrow> 'w ClientOption" where
  "WithLifecycle onA onR opts = opts\<lparr>co_onAssigned := onA, co_onRevoked := onR\<rparr>"

definition WithPostBatch :: "('w \<Rightarrow> error option \<times> 'w) option \<Rightarrow> 'w ClientOption" where
  "WithPostBatch fn opts = opts\<lparr>co_postBatch := fn\<rparr>"

definition WithChangelogFlusher :: "('w \<Rightarrow> (error + OutRecord list) \<times> 'w) option \<Rightarrow> 'w ClientOption" where
  "WithChangelogFlusher fn opts = opts\<lparr>co_changelogFlusher := fn\<rparr>"

definition WithHealthGate :: "('w \<Rightarrow> error option) option \<Rightarrow> 'w ClientOption" where
  "WithHealthGate fn opts = opts\<lparr>co_healthGate := fn\<rparr>"

section \<open>The options of the Kafka library\<close>

text \<open>The options that are used, without the logger; callbacks act on the state \<open>'s\<close> of the loop.\<close>

datatype 's Opt =
    SeedBrokers "string list"
  | TransactionalID string
  | ConsumerGroup string
  | ConsumeTopics "string list"
  | CooperativeStickyBalancer
  | DisableAutoCommit
  | ReadCommitted
  | TransactionTimeout int
  | RecordPartitioner "KRecord \<Rightarrow> int \<Rightarrow> int"
  | OnPartitionsAssigned "Partitions \<Rightarrow> 's \<Rightarrow> 's"
  | OnPartitionsRevoked "Partitions \<Rightarrow> 's \<Rightarrow> 's"

text \<open>\<open>kgo.KafkaHasher\<close>.\<close>

type_synonym Hasher = "(bytes \<Rightarrow> 32 word) \<Rightarrow> bytes \<Rightarrow> int \<Rightarrow> int"

definition call_assigned :: "'w clientOptions \<Rightarrow> Partitions \<Rightarrow> 'w \<Rightarrow> 'w" where
  "call_assigned co ps w = (case co_onAssigned co of None \<Rightarrow> w | Some f \<Rightarrow> snd (f ps w))"

definition call_revoked :: "'w clientOptions \<Rightarrow> Partitions \<Rightarrow> 'w \<Rightarrow> 'w" where
  "call_revoked co ps w = (case co_onRevoked co of None \<Rightarrow> w | Some f \<Rightarrow> f ps w)"

text \<open>The callback on revocation commits the pending offsets through the client it is given.\<close>

definition buildOpts :: "Hasher \<Rightarrow> (KRecord list \<Rightarrow> error option) \<Rightarrow> int \<Rightarrow> 'b Config \<Rightarrow> string list
    \<Rightarrow> 'w clientOptions \<Rightarrow> 'w AloState Opt list" where
  "buildOpts hasher CommitRecords now cfg topics co =
     [SeedBrokers (cf_Brokers cfg),
      ConsumerGroup (cf_ApplicationID cfg),
      ConsumeTopics topics,
      CooperativeStickyBalancer,
      DisableAutoCommit,
      RecordPartitioner (mixedPartitionerFn hasher),
      OnPartitionsAssigned (\<lambda>ps s. s\<lparr>al_world := call_assigned co ps (al_world s)\<rparr>),
      OnPartitionsRevoked (\<lambda>revoked s.
        snd (ao_commit CommitRecords now (s\<lparr>al_world := call_revoked co revoked (al_world s)\<rparr>)))]"

definition buildOptsEOS :: "Hasher \<Rightarrow> 'b Config \<Rightarrow> string list \<Rightarrow> 'w clientOptions \<Rightarrow> string \<Rightarrow> 'w EosState Opt list" where
  "buildOptsEOS hasher cfg topics co instanceID =
     [SeedBrokers (cf_Brokers cfg),
      TransactionalID (''gstream-'' @ cf_ApplicationID cfg @ ''-'' @ instanceID),
      ConsumerGroup (cf_ApplicationID cfg),
      ConsumeTopics topics,
      CooperativeStickyBalancer,
      DisableAutoCommit,
      ReadCommitted,
      TransactionTimeout (60 * 1000000000),
      RecordPartitioner (mixedPartitionerFn hasher),
      OnPartitionsAssigned (\<lambda>ps s. s\<lparr>eo_world := call_assigned co ps (eo_world s)\<rparr>),
      OnPartitionsRevoked (\<lambda>revoked s. s\<lparr>eo_world := call_revoked co revoked (eo_world s)\<rparr>)]"

section \<open>The instance id\<close>

text \<open>\<open>os.ReadFile\<close>, \<open>os.MkdirAll\<close> and \<open>os.WriteFile\<close> on a file system with state \<open>'f\<close>.\<close>

datatype ReadError = NotExist | ReadFailed error

record 'f Disk =
  dk_ReadFile :: "string \<Rightarrow> 'f \<Rightarrow> ReadError + string"
  dk_MkdirAll :: "string \<Rightarrow> 'f \<Rightarrow> error option \<times> 'f"
  dk_WriteFile :: "string \<Rightarrow> string \<Rightarrow> 'f \<Rightarrow> error option \<times> 'f"

definition instance_path :: "'b Config \<Rightarrow> string" where
  "instance_path cfg = filepath_Join [cf_StateDir cfg, ''instance-id'']"

text \<open>A new id is generated and persisted; \<open>uuid\<close> is the value \<open>uuid.New().String()\<close> returns.\<close>

definition new_instanceID :: "'f Disk \<Rightarrow> string \<Rightarrow> 'b Config \<Rightarrow> 'f \<Rightarrow> (error + string) \<times> 'f" where
  "new_instanceID disk uuid cfg f =
     (case dk_MkdirAll disk (cf_StateDir cfg) f of
        (Some err, f1) \<Rightarrow> (Inl (Wrap ''resolveInstanceID: mkdir'' [err]), f1)
      | (None, f1) \<Rightarrow> (case dk_WriteFile disk (instance_path cfg) uuid f1 of
        (Some err, f2) \<Rightarrow> (Inl (Wrap ''resolveInstanceID: write'' [err]), f2)
      | (None, f2) \<Rightarrow> (Inr uuid, f2)))"

definition resolveInstanceID :: "'f Disk \<Rightarrow> string \<Rightarrow> 'b Config \<Rightarrow> 'f \<Rightarrow> (error + string) \<times> 'f" where
  "resolveInstanceID disk uuid cfg f =
     (if cf_InstanceID cfg \<noteq> [] then (Inr (cf_InstanceID cfg), f)
      else case dk_ReadFile disk (instance_path cfg) f of
        Inr content \<Rightarrow> if TrimSpace content \<noteq> [] then (Inr (TrimSpace content), f) else new_instanceID disk uuid cfg f
      | Inl (ReadFailed err) \<Rightarrow> (Inl (Wrap ''resolveInstanceID: read'' [err]), f)
      | Inl NotExist \<Rightarrow> new_instanceID disk uuid cfg f)"

section \<open>Construction and run\<close>

text \<open>
  \<open>kc\<close> and \<open>sess\<close> are the options the library's client or session was created with; \<open>cl_co\<close> are the
  client's own options, which the callbacks among them capture.
\<close>

record ('b, 'w) Client =
  cl_kc :: "'w AloState Opt list option"
  cl_sess :: "'w EosState Opt list option"
  cl_co :: "'w clientOptions"
  cl_cfg :: "'b Config"
  cl_postBatch :: "('w \<Rightarrow> error option \<times> 'w) option"
  cl_changelogFlusher :: "('w \<Rightarrow> (error + OutRecord list) \<times> 'w) option"
  cl_healthGate :: "('w \<Rightarrow> error option) option"
  cl_aloOffsets :: "aloOffsetCommitter option"

text \<open>What constructing a client needs from outside: files, the library, the clock, the broker's commits.\<close>

record 'f ClientEnv =
  ce_disk :: "'f Disk"
  ce_uuid :: string
  ce_newClient :: "error option"
  ce_newSession :: "error option"
  ce_hasher :: Hasher
  ce_CommitRecords :: "KRecord list \<Rightarrow> error option"
  ce_now :: int

definition New :: "'f ClientEnv \<Rightarrow> 'b Config \<Rightarrow> string list \<Rightarrow> 'w ClientOption list \<Rightarrow> 'f \<Rightarrow> (error + ('b, 'w) Client) \<times> 'f" where
  "New env cfg topics opts f =
     (case Validate cfg of
        Some err \<Rightarrow> (Inl (Wrap ''kafka.New: invalid config'' [err]), f)
      | None \<Rightarrow>
        if topics = [] then (Inl (Err ''kafka.New: topics must not be empty''), f)
        else let co = fold (\<lambda>opt c. opt c) opts zero_clientOptions in
          if cf_Guarantee cfg = ExactlyOnce then
            (case resolveInstanceID (ce_disk env) (ce_uuid env) cfg f of
               (Inl err, f') \<Rightarrow> (Inl (Wrap ''kafka.New: failed to resolve EOS instance ID'' [err]), f')
             | (Inr instanceID, f') \<Rightarrow>
               (case ce_newSession env of
                  Some err \<Rightarrow> (Inl (Wrap ''kafka.New: failed to create EOS session'' [err]), f')
                | None \<Rightarrow> (Inr \<lparr>cl_kc = None, cl_sess = Some (buildOptsEOS (ce_hasher env) cfg topics co instanceID), cl_co = co, cl_cfg = cfg,
                    cl_postBatch = co_postBatch co, cl_changelogFlusher = co_changelogFlusher co, cl_healthGate = co_healthGate co,
                    cl_aloOffsets = None\<rparr>, f')))
          else
            (case ce_newClient env of
               Some err \<Rightarrow> (Inl (Wrap ''kafka.New: failed to create kgo client'' [err]), f)
             | None \<Rightarrow> (Inr \<lparr>cl_kc = Some (buildOpts (ce_hasher env) (ce_CommitRecords env) (ce_now env) cfg topics co), cl_sess = None,
                 cl_co = co, cl_cfg = cfg, cl_postBatch = co_postBatch co, cl_changelogFlusher = None, cl_healthGate = co_healthGate co,
                 cl_aloOffsets = Some (newALOOffsetCommitter (ce_now env) (cf_CommitInterval cfg))\<rparr>, f)))"

text \<open>The loops of \<open>ClientLoop\<close> read the fields of the client through \<open>Hooks\<close>.\<close>

definition client_hooks :: "('b, 'w) Client \<Rightarrow> 'w ProcessRecord \<Rightarrow> 'w Hooks" where
  "client_hooks cl proc =
     \<lparr>h_process = proc, h_onAssigned = co_onAssigned (cl_co cl), h_onRevoked = co_onRevoked (cl_co cl), h_postBatch = cl_postBatch cl,
      h_changelogFlusher = cl_changelogFlusher cl, h_healthGate = cl_healthGate cl, h_NumTaskThreads = cf_NumTaskThreads (cl_cfg cl)\<rparr>"

definition Run :: "('b, 'w) Client \<Rightarrow> 'w ProcessRecord \<Rightarrow> AloEvent list \<Rightarrow> EosEvent list \<Rightarrow> 'w \<Rightarrow> Outcome \<times> ('w AloState + 'w EosState)" where
  "Run cl proc aloEvents eosEvents w =
     (if cf_Guarantee (cl_cfg cl) = ExactlyOnce
      then map_prod id Inr (runEOS (client_hooks cl proc) (cf_CommitInterval (cl_cfg cl)) eosEvents (eos_fresh w))
      else map_prod id Inl (runALO (client_hooks cl proc) aloEvents
        \<lparr>al_offsets = the (cl_aloOffsets cl), al_world = w, al_trace = []\<rparr>))"

text \<open>The client's options as \<open>NewAdapter\<close> documents them for each guarantee.\<close>

definition adapter_options :: "'c Kafka \<Rightarrow> 'b Config \<Rightarrow> ('b, 'a, 'c) world ClientOption list" where
  "adapter_options kf cfg =
     (if cf_Guarantee cfg = ExactlyOnce
      then [WithLifecycle (Some (onAssigned kf)) (Some (onRevoked kf)), WithPostBatch (Some PostBatchSweepHook),
            WithChangelogFlusher (ChangelogFlusherHook cfg), WithHealthGate (Some HealthGateHook)]
      else [WithLifecycle (Some (onAssigned kf)) (Some (onRevoked kf)), WithPostBatch (Some (PostBatchHook kf)),
            WithHealthGate (Some HealthGateHook)])"

section \<open>The callbacks the library runs\<close>

text \<open>The library runs the registered callbacks on a rebalance.\<close>

definition deliver :: "'s Opt list \<Rightarrow> Rebalance \<Rightarrow> 's \<Rightarrow> 's" where
  "deliver opts rb = fold (\<lambda>opt s.
     case (opt, rb) of
       (OnPartitionsAssigned f, Assigned ps) \<Rightarrow> f ps s
     | (OnPartitionsRevoked f, Revoked ps) \<Rightarrow> f ps s
     | _ \<Rightarrow> s) opts"

lemma deliver_buildOpts:
  assumes "h_onAssigned hooks = co_onAssigned co" "h_onRevoked hooks = co_onRevoked co"
  shows "deliver (buildOpts hasher (ae_commit ev) (ae_committedAt ev) cfg topics co) rb s = alo_rebalance hooks ev rb s"
  by (cases rb) (simp_all add: deliver_def buildOpts_def alo_rebalance_def run_callback_def call_assigned_def call_revoked_def assms Let_def)

lemma deliver_buildOptsEOS:
  assumes "h_onAssigned hooks = co_onAssigned co" "h_onRevoked hooks = co_onRevoked co"
  shows "deliver (buildOptsEOS hasher cfg topics co inst) rb s = s\<lparr>eo_world := run_callback hooks rb (eo_world s)\<rparr>"
  by (cases rb) (simp_all add: deliver_def buildOptsEOS_def run_callback_def call_assigned_def call_revoked_def assms)

text \<open>A client built with the adapter's options runs the loops on the adapter's hooks.\<close>

lemma New_adapter_hooks:
  assumes "New env cfg topics (adapter_options kf cfg) f = (Inr cl, f')"
  shows "client_hooks cl ProcessFunc = adapter_hooks kf cfg \<and> cl_cfg cl = cfg \<and> valid_Config cfg"
  using assms
  by (cases "cf_Guarantee cfg")
    (auto simp: New_def Let_def client_hooks_def adapter_hooks_def adapter_options_def WithLifecycle_def WithPostBatch_def
      WithChangelogFlusher_def WithHealthGate_def ChangelogFlusherHook_def zero_clientOptions_def Validate_iff
      split: option.splits if_splits prod.splits sum.splits)

section \<open>The identity of an instance\<close>

definition keeps_files :: "'f Disk \<Rightarrow> bool" where
  "keeps_files disk \<longleftrightarrow> (\<forall>path content f f'. dk_WriteFile disk path content f = (None, f') \<longrightarrow> dk_ReadFile disk path f' = Inr content)"

lemma new_instanceID_reads:
  assumes "keeps_files disk" "new_instanceID disk uuid cfg f = (Inr inst, f')"
  shows "inst = uuid \<and> dk_ReadFile disk (instance_path cfg) f' = Inr uuid"
  using assms by (auto simp: new_instanceID_def keeps_files_def split: prod.splits option.splits)

lemma resolveInstanceID_stable:
  assumes "keeps_files disk" "TrimSpace uuid = uuid" "uuid \<noteq> []" "resolveInstanceID disk uuid cfg f = (Inr inst, f')"
  shows "resolveInstanceID disk uuid' cfg f' = (Inr inst, f') \<and> inst \<noteq> []"
  using assms(4) new_instanceID_reads [OF assms(1), of uuid cfg f inst f'] assms(2,3)
  by (auto simp: resolveInstanceID_def split: if_splits sum.splits ReadError.splits)

lemma New_eos:
  assumes "cf_Guarantee cfg = ExactlyOnce" "New env cfg topics opts f = (Inr cl, f')"
  shows "\<exists>inst. resolveInstanceID (ce_disk env) (ce_uuid env) cfg f = (Inr inst, f') \<and> valid_Config cfg \<and> topics \<noteq> []
    \<and> cl_sess cl = Some (buildOptsEOS (ce_hasher env) cfg topics (cl_co cl) inst)"
  using assms by (auto simp: New_def Let_def Validate_iff split: option.splits if_splits prod.splits sum.splits)

section \<open>Property\<close>

text \<open>
  C16: A restarted instance keeps its identity. On a file system that gives back what was written to a
  file, when an exactly-once client was created, creating it again (after a crash, say, with whatever
  new random id at hand) finds the same instance id, so that both present
  the same non-empty transactional id to the brokers, which fences the earlier one; both read
  committed records only and never commit offsets on their own; and the new client runs the
  exactly-once loop on the adapter's hooks.
\<close>

theorem restart_keeps_identity:
  fixes cl :: "('b, ('b, 'a, 'c) world) Client"
  assumes "keeps_files (ce_disk env)" "TrimSpace (ce_uuid env) = ce_uuid env" "ce_uuid env \<noteq> []"
    and eos: "cf_Guarantee cfg = ExactlyOnce" and cl: "New env cfg topics (adapter_options kf cfg) f = (Inr cl, f')"
    and "ce_disk env' = ce_disk env" "ce_newSession env' = None"
  shows "\<exists>cl' inst opts opts'. New env' cfg topics (adapter_options kf cfg) f' = (Inr cl', f')
    \<and> cl_sess cl = Some opts \<and> cl_sess cl' = Some opts' \<and> inst \<noteq> []
    \<and> {TransactionalID (''gstream-'' @ cf_ApplicationID cfg @ ''-'' @ inst), ReadCommitted, DisableAutoCommit} \<subseteq> set opts \<inter> set opts'
    \<and> Run cl' ProcessFunc aloEvents eosEvents w
        = map_prod id Inr (runEOS (adapter_hooks kf cfg) (cf_CommitInterval cfg) eosEvents (eos_fresh w))"
proof -
  obtain inst where i: "resolveInstanceID (ce_disk env) (ce_uuid env) cfg f = (Inr inst, f')" "valid_Config cfg" "topics \<noteq> []"
    "cl_sess cl = Some (buildOptsEOS (ce_hasher env) cfg topics (cl_co cl) inst)"
    using New_eos [OF eos cl] by blast
  note stable = resolveInstanceID_stable [OF assms(1-3) i(1), of "ce_uuid env'"]
  obtain cl' :: "('b, ('b, 'a, 'c) world) Client" where cl': "New env' cfg topics (adapter_options kf cfg) f' = (Inr cl', f')"
    and opts': "cl_sess cl' = Some (buildOptsEOS (ce_hasher env') cfg topics (cl_co cl') inst)"
    using stable i(2,3) eos assms(6,7) by (simp add: New_def Validate_iff [symmetric] Let_def)
  have "Run cl' ProcessFunc aloEvents eosEvents w
      = map_prod id Inr (runEOS (adapter_hooks kf cfg) (cf_CommitInterval cfg) eosEvents (eos_fresh w))"
    using New_adapter_hooks [OF cl'] eos by (simp add: Run_def)
  then show ?thesis using cl' i(4) opts' stable by (intro exI conjI) (auto simp: buildOptsEOS_def)
qed

text \<open>A disk as a map from paths to contents, on which the first start writes the id.\<close>

definition demo_disk :: "(string, string) gomap Disk" where
  "demo_disk = \<lparr>dk_ReadFile = (\<lambda>path f. case go_get f path of None \<Rightarrow> Inl NotExist | Some content \<Rightarrow> Inr content),
     dk_MkdirAll = (\<lambda>path f. (None, f)), dk_WriteFile = (\<lambda>path content f. (None, go_set path content f))\<rparr>"

definition demo_env :: "string \<Rightarrow> (string, string) gomap ClientEnv" where
  "demo_env uuid = \<lparr>ce_disk = demo_disk, ce_uuid = uuid, ce_newClient = None, ce_newSession = None,
     ce_hasher = (\<lambda>h key n. uint (h key AND 0x7fffffff) mod n), ce_CommitRecords = (\<lambda>_. None), ce_now = 0\<rparr>"

abbreviation demo_eos_cfg :: "unit Config" where
  "demo_eos_cfg \<equiv> demo_app_cfg\<lparr>cf_Guarantee := ExactlyOnce, cf_StateDir := ''/state'', cf_CommitInterval := 100, cf_RestoreCatchUpTimeout := 7\<rparr>"

theorem restart_keeps_identity_witness:
  "\<exists>(cl' :: (unit, (unit, bytes, KRecord list) world) Client) opts'.
     New (demo_env ''other'') demo_eos_cfg [''in''] (adapter_options (demo_kafka []) demo_eos_cfg) [(''/state/instance-id'', ''u-1'')]
       = (Inr cl', [(''/state/instance-id'', ''u-1'')])
     \<and> cl_sess cl' = Some opts' \<and> TransactionalID ''gstream-app-u-1'' \<in> set opts'"
proof -
  let ?new = "New (demo_env ''u-1'') demo_eos_cfg [''in''] (adapter_options (demo_kafka []) demo_eos_cfg) []
    :: (error + (unit, (unit, bytes, KRecord list) world) Client) \<times> _"
  have path: "instance_path demo_eos_cfg = ''/state/instance-id''" by code_simp
  have "valid_Config demo_eos_cfg" by code_simp
  then obtain cl where cl: "?new = (Inr cl, [(''/state/instance-id'', ''u-1'')])"
    "cl_sess cl = Some (buildOptsEOS (ce_hasher (demo_env ''u-1'')) demo_eos_cfg [''in''] (cl_co cl) ''u-1'')"
    using path by (simp add: New_def Validate_iff [symmetric] resolveInstanceID_def new_instanceID_def demo_env_def demo_disk_def demo_app_cfg_def
        zero_Config_def Let_def)
  have disk: "keeps_files (ce_disk (demo_env ''u-1''))" by (simp add: keeps_files_def demo_env_def demo_disk_def)
  have uuid: "TrimSpace (ce_uuid (demo_env ''u-1'')) = ce_uuid (demo_env ''u-1'')" "ce_uuid (demo_env ''u-1'') \<noteq> []"
    by code_simp+
  have env': "ce_disk (demo_env ''other'') = ce_disk (demo_env ''u-1'')" "ce_newSession (demo_env ''other'') = None"
    by (simp_all add: demo_env_def)
  show ?thesis
    using restart_keeps_identity [OF disk uuid _ cl(1) env', where aloEvents = "[]" and eosEvents = "[]" and w = "(demo_adapter, [])"] cl(2) by (auto simp: buildOptsEOS_def demo_app_cfg_def zero_Config_def)
qed

end
