(* ===== verification/Application.thy ===== *)
theory Application
  imports Client
begin

text \<open>
  A whole application: a keyed aggregation built with the typed layer and written to a topic, run by
  the adapter in the at-least-once loop over in-memory stores that are lost with the process, so that the
  changelog is the only memory between two lives of the application. The cluster that keeps the
  changelog is the locale \<open>changelog_cluster\<close>.
\<close>

section \<open>The application\<close>

definition aggregation_app :: "('a, 'k) gotype \<Rightarrow> ('a, 'v) gotype \<Rightarrow> ('a, 'c) gotype \<Rightarrow> string \<Rightarrow> string \<Rightarrow> string \<Rightarrow> string
    \<Rightarrow> 'k Serde \<Rightarrow> 'v Serde \<Rightarrow> 'c Serde \<Rightarrow> (unit \<Rightarrow> 'c) \<Rightarrow> ('k \<Rightarrow> 'v \<Rightarrow> 'c \<Rightarrow> 'c) \<Rightarrow> (('d, 'a) StreamBuilder, unit) act" where
  "aggregation_app kt vt ct source store topic out keySerde valSerde accSerde initFn aggFn =
     bindE (aggregation_pipeline kt vt ct source store topic keySerde valSerde accSerde initFn aggFn)
       (KTable_To kt ct out keySerde accSerde)"

text \<open>What the loop produced to Kafka in a trace, and the position of the group in the partition that it committed.\<close>

fun produced :: "Effect \<Rightarrow> KRecord list" where
  "produced (EProduced rs results) = (if first_err results = None then rs else [])"
| "produced _ = []"

definition all_produced :: "Effect list \<Rightarrow> KRecord list" where
  "all_produced tr = concat (map produced tr)"

fun commit_step :: "string \<Rightarrow> int \<Rightarrow> Effect \<Rightarrow> int \<Rightarrow> int" where
  "commit_step topic p (ECommitted recs None) pos =
     fold (\<lambda>r pos. if k_Topic r = topic \<and> k_Partition r = p then k_Offset r + 1 else pos) recs pos"
| "commit_step topic p _ pos = pos"

definition committed_pos :: "string \<Rightarrow> int \<Rightarrow> Effect list \<Rightarrow> int \<Rightarrow> int" where
  "committed_pos topic p tr pos = fold (commit_step topic p) tr pos"

text \<open>The index of the first record of the partition that a consumer at a position gets.\<close>

definition reach :: "KRecord list \<Rightarrow> int \<Rightarrow> nat" where
  "reach input pos = length (takeWhile (\<lambda>r. k_Offset r < pos) input)"

text \<open>
  A life of the application: the clock and the commit interval, the polls, and the last poll of a
  shutdown. Without that poll the process is killed. The lives follow each other, each with a new
  adapter; the cluster and the committed position are what is left between them.
\<close>

type_synonym life = "int \<times> int \<times> AloEvent list \<times> AloEvent option"

fun life_run :: "('b, 'a, 'c) world Hooks \<Rightarrow> ('b, 'a) Adapter \<Rightarrow> life \<Rightarrow> 'c \<Rightarrow> Outcome \<times> ('b, 'a, 'c) world AloState" where
  "life_run hooks a (now, interval, evs, stop) c =
     runALO hooks (evs @ (case stop of None \<Rightarrow> [] | Some ev \<Rightarrow> [ev])) (alo_fresh (a, c) now interval)"

fun lives :: "('b, 'a, 'c) world Hooks \<Rightarrow> ('b, 'a) Adapter \<Rightarrow> string \<Rightarrow> int \<Rightarrow> life list \<Rightarrow> 'c \<Rightarrow> int
    \<Rightarrow> Outcome list \<times> KRecord list \<times> 'c \<times> int" where
  "lives hooks a topic p [] c pos = ([], [], c, pos)"
| "lives hooks a topic p (l # ls) c pos =
     (case life_run hooks a l c of (r, s) \<Rightarrow>
        (case lives hooks a topic p ls (snd (al_world s)) (committed_pos topic p (al_trace s) pos) of
           (rs, outs, c', pos') \<Rightarrow> (r # rs, all_produced (al_trace s) @ outs, c', pos')))"

text \<open>The polls of each life deliver the records of the partition from the committed position on, without gaps.\<close>

definition polled_in :: "life \<Rightarrow> KRecord list" where
  "polled_in = (\<lambda>(now, interval, evs, stop). concat (map ae_records evs))"

fun reads_committed :: "('b, 'a, 'c) world Hooks \<Rightarrow> ('b, 'a) Adapter \<Rightarrow> string \<Rightarrow> int \<Rightarrow> KRecord list \<Rightarrow> life list \<Rightarrow> 'c \<Rightarrow> int \<Rightarrow> bool" where
  "reads_committed hooks a topic p input [] c pos \<longleftrightarrow> True"
| "reads_committed hooks a topic p input (l # ls) c pos \<longleftrightarrow>
     prefix (polled_in l) (drop (reach input pos) input)
     \<and> (case life_run hooks a l c of (r, s) \<Rightarrow>
          reads_committed hooks a topic p input ls (snd (al_world s)) (committed_pos topic p (al_trace s) pos))"

text \<open>A record from Kafka that carries a typed one, and the record that the table's sink makes of an update.\<close>

definition carries :: "string \<Rightarrow> int \<Rightarrow> 'k Serde \<Rightarrow> 'v Serde \<Rightarrow> KRecord \<Rightarrow> 'k \<times> 'v \<times> int \<Rightarrow> bool" where
  "carries topic p keySerde valSerde r = (\<lambda>(k, v, ts).
     k_Topic r = topic \<and> k_Partition r = p \<and> k_Timestamp r = ts \<and> Deserialize keySerde (k_Key r) = Inr k
     \<and> Deserialize valSerde (case k_Value r of None \<Rightarrow> [] | Some b \<Rightarrow> b) = Inr v)"

definition update_record :: "string \<Rightarrow> 'k Serde \<Rightarrow> 'c Serde \<Rightarrow> 'k \<times> 'c \<times> int \<Rightarrow> OutRecord" where
  "update_record out keySerde accSerde = (\<lambda>(k, a, ts).
     \<lparr>out_Topic = out, out_Key = total_serde.enc keySerde k, out_Value = Some (total_serde.enc accSerde a), out_Partition = NilZero 0\<rparr>)"

text \<open>
  The lives considered: the partition is assigned with the first poll and stays assigned, and no
  poll, produce or context fails before the shutdown; commits may fail.
\<close>

definition smooth :: "AloEvent \<Rightarrow> bool" where
  "smooth ev \<longleftrightarrow> \<not> ae_closed ev \<and> ae_ctxErr ev = None \<and> (\<forall>rs. first_err (ae_produce ev rs) = None)
     \<and> ae_afterProcess ev = [] \<and> ae_afterHook ev = [] \<and> ae_afterProduce ev = []"

definition shuts_down :: "AloEvent \<Rightarrow> bool" where
  "shuts_down ev \<longleftrightarrow> ae_rebalances ev = [] \<and> \<not> ae_closed ev \<and> ae_ctxErr ev \<noteq> None"

definition is_life :: "string \<Rightarrow> int \<Rightarrow> life \<Rightarrow> bool" where
  "is_life topic p = (\<lambda>(now, interval, evs, stop).
     evs \<noteq> [] \<and> ae_rebalances (hd evs) = [Assigned [(topic, [p])]] \<and> (\<forall>ev \<in> set (tl evs). ae_rebalances ev = [])
     \<and> (\<forall>ev \<in> set evs. smooth ev) \<and> (\<forall>ev. stop = Some ev \<longrightarrow> shuts_down ev))"

text \<open>A clean life ends with a shutdown whose commit is accepted.\<close>

definition clean :: "life \<Rightarrow> bool" where
  "clean = (\<lambda>(now, interval, evs, stop). case stop of None \<Rightarrow> False | Some ev \<Rightarrow> \<forall>rs. ae_commit ev rs = None)"

definition life_outcome :: "life \<Rightarrow> Outcome" where
  "life_outcome = (\<lambda>(now, interval, evs, stop). case stop of None \<Rightarrow> Continue | Some ev \<Rightarrow> Exit None)"

text \<open>
  What each life handled, as the interval of the indices \<open>i \<le> n < j\<close> of its records: a life goes on
  where the last one committed, which is in the interval of the last life, and at its end when
  that life was clean.
\<close>

type_synonym segment = "nat \<times> nat \<times> bool"

fun resumes :: "nat \<Rightarrow> nat \<Rightarrow> bool \<Rightarrow> segment list \<Rightarrow> bool" where
  "resumes i0 j0 c0 [] \<longleftrightarrow> True"
| "resumes i0 j0 c0 ((i, j, c) # segs) \<longleftrightarrow> i0 \<le> i \<and> i \<le> j0 \<and> i \<le> j \<and> (c0 \<longrightarrow> i = j0) \<and> resumes i j c segs"

definition deliveries :: "'x list \<Rightarrow> segment list \<Rightarrow> 'x list" where
  "deliveries xs segs = concat (map (\<lambda>(i, j, c). take (j - i) (drop i xs)) segs)"

definition ends_of :: "segment list \<Rightarrow> (nat \<times> bool) list" where
  "ends_of segs = map (\<lambda>(i, j, c). (j - i, c)) segs"

lemma resumes_covers: "resumes i0 j0 c0 segs \<Longrightarrow> (i, j, c) \<in> set segs \<Longrightarrow> n < j \<Longrightarrow> n < j0 \<or> (\<exists>(i, j, c) \<in> set segs. i \<le> n \<and> n < j)"
proof (induction segs arbitrary: i0 j0 c0)
  case (Cons x segs)
  obtain i1 j1 c1 where x: "x = (i1, j1, c1)" by (cases x)
  show ?case
  proof (cases "n < j1")
    case True
    then show ?thesis using Cons.prems(1) x by (cases "n < i1") auto
  next
    case False
    then have "(i, j, c) \<in> set segs" using Cons.prems(2,3) x by auto
    then show ?thesis using Cons.IH [of i1 j1 c1] Cons.prems x False by auto
  qed
qed simp

lemma resumes_clean:
  "resumes i0 j0 True segs \<Longrightarrow> \<forall>(i, j, c) \<in> set segs. c \<and> j \<le> length xs \<Longrightarrow> j0 \<le> length xs \<Longrightarrow>
    deliveries xs segs = take (\<Sum>(i, j, c)\<leftarrow>segs. j - i) (drop j0 xs)"
proof (induction segs arbitrary: i0 j0)
  case (Cons x segs)
  obtain i j c where x: "x = (i, j, c)" by (cases x)
  have s: "i = j0" "i \<le> j" c "j \<le> length xs" "resumes i j c segs" using Cons.prems x by auto
  have "deliveries xs segs = take (\<Sum>(i, j, c)\<leftarrow>segs. j - i) (drop j xs)"
    using Cons.IH [of i j] Cons.prems(2) s by simp
  moreover have "take ((j - i) + n) (drop i xs) = take (j - i) (drop i xs) @ take n (drop j xs)" for n
    using s(2) unfolding take_add by (simp del: drop_drop add: drop_drop)
  ultimately show ?case using s(1) by (simp add: deliveries_def x)
qed (simp add: deliveries_def)

lemma resumes_from: "resumes i' i' True segs \<Longrightarrow> i \<le> i' \<Longrightarrow> i' \<le> j \<Longrightarrow> (c \<longrightarrow> i' = j) \<Longrightarrow> resumes i j c segs"
  by (cases segs) auto

section \<open>The cluster\<close>

text \<open>
  The records of one partition of a log, and what their replay leaves.
\<close>

definition partition_log :: "string \<Rightarrow> int \<Rightarrow> KRecord list \<Rightarrow> KRecord list" where
  "partition_log topic p rs = filter (\<lambda>r. k_Topic r = topic \<and> k_Partition r = p) rs"

definition replayed :: "KRecord list \<Rightarrow> bytes \<rightharpoonup> bytes" where
  "replayed rs = fold mutate (map record_mutation rs) Map.empty"

text \<open>
  What a healthy cluster does with a changelog: produced records are appended to the log, and a
  consumer from the first offset is served records with the same effect: all of them, or,
  where the topic has been compacted, the last of each key.
\<close>

locale changelog_cluster =
  fixes kf :: "'c Kafka" and log :: "'c \<Rightarrow> KRecord list" and partitions :: int
  assumes produce_law: "kf_produce kf rs c = (results, c') \<Longrightarrow> first_err results = None \<and> log c' = log c @ rs"
    and producer_law: "kf_newProducer kf topic = None"
    and serve_law: "int (length (log c)) \<le> MaxInt64 \<Longrightarrow> 0 \<le> p \<Longrightarrow> p < partitions \<Longrightarrow> \<exists>hw earliest recs.
      fetchHighWatermark (kf_cluster kf c) topic p = Inr hw \<and> fetchEarliestOffset (kf_cluster kf c) topic p = Inr earliest \<and> is_i64 hw
      \<and> (if earliest < hw then serves (kf_cluster kf c) topic p earliest hw recs else recs = [])
      \<and> k_Key ` set recs \<subseteq> k_Key ` set (partition_log topic p (log c))
      \<and> replayed recs = replayed (partition_log topic p (log c))"

text \<open>Effects of the loop that produce nothing, and batches of one partition, which run on one thread.\<close>

lemma all_produced_simps [simp]:
  "all_produced [] = []" "all_produced (tr @ tr') = all_produced tr @ all_produced tr'" "all_produced (e # tr) = produced e @ all_produced tr"
  by (simp_all add: all_produced_def)

lemma outRecordsToKgo_Nil [simp]: "outRecordsToKgo [] = []"
  by (simp add: outRecordsToKgo_def)

lemma commit_effects [simp]:
  "al_world (commit_if_due ev s) = al_world s" "all_produced (al_trace (commit_if_due ev s)) = all_produced (al_trace s)"
  by (simp_all add: commit_if_due_def ao_commit_def Let_def al_log_def split: option.split)

lemma one_partition_batch:
  assumes "\<forall>r \<in> set rs. in_Partition r = p"
  shows "processBatchConcurrent sched f threads rs w = Some (processBatch f rs w)"
proof (cases "length rs < 2")
  case False
  then have ne: "rs \<noteq> []" by auto
  have "set (group_records rs) = {(p, rs)}"
    using assms ne by (auto simp: group_records_mem filter_empty_conv)
  moreover have "distinct (group_records rs)"
    using group_records_ok [of rs] by (simp add: go_map_ok_def distinct_map)
  ultimately have "length (group_records rs) = 1" using distinct_card by fastforce
  then show ?thesis by (simp add: processBatchConcurrent_def)
qed (simp add: processBatchConcurrent_def)

lemma iteration_rebalanced:
  fixes hooks :: "'w Hooks"
  assumes "health_of hooks (al_world s) = None" "fold (alo_rebalance hooks ev) (ae_rebalances ev) s = s1" "health_of hooks (al_world s1) = None"
  shows "alo_iteration hooks ev s = alo_iteration hooks (ev\<lparr>ae_rebalances := []\<rparr>) s1"
proof -
  have c: "commit_if_due (ev\<lparr>ae_rebalances := []\<rparr>) = (commit_if_due ev :: 'w AloState \<Rightarrow> _)"
    by (simp add: commit_if_due_def fun_eq_iff)
  moreover have r: "alo_rebalance hooks (ev\<lparr>ae_rebalances := []\<rparr>) = alo_rebalance hooks ev"
    by (simp add: alo_rebalance_def Let_def fun_eq_iff split: Rebalance.split)
  ultimately have "alo_finish hooks (ev\<lparr>ae_rebalances := []\<rparr>) = alo_finish hooks ev"
    by (intro ext) (simp add: alo_finish_def Let_def split: prod.split option.split)
  note this c r
  then show ?thesis using assms by (simp add: alo_iteration_def Let_def split: prod.split option.split)
qed

section \<open>Offsets\<close>

text \<open>
  The partition the application reads: its records in the order of their offsets. \<open>offsets_at\<close> says of
  a loop that started at the index \<open>i\<close> and has handled the records before \<open>j\<close>: what it committed
  is an index between them, and the rest is pending, as the last record handled.
\<close>

definition partition_input :: "string \<Rightarrow> int \<Rightarrow> KRecord list \<Rightarrow> bool" where
  "partition_input topic p input \<longleftrightarrow> (\<forall>r \<in> set input. k_Topic r = topic \<and> k_Partition r = p \<and> 0 \<le> k_Offset r)
     \<and> sorted_wrt (\<lambda>r r'. k_Offset r < k_Offset r') input"

definition offsets_at :: "string \<Rightarrow> int \<Rightarrow> KRecord list \<Rightarrow> int \<Rightarrow> nat \<Rightarrow> nat \<Rightarrow> 'w AloState \<Rightarrow> bool" where
  "offsets_at topic p input pos i j st \<longleftrightarrow> i \<le> reach input (committed_pos topic p (al_trace st) pos)
     \<and> reach input (committed_pos topic p (al_trace st) pos) \<le> j
     \<and> (ao_pending (al_offsets st) = [] \<and> reach input (committed_pos topic p (al_trace st) pos) = j
        \<or> 0 < j \<and> ao_pending (al_offsets st) = [(topic, [(p, input ! (j - 1))])])"

lemma reach_start: "partition_input topic p input \<Longrightarrow> reach input 0 = 0"
  by (cases input) (auto simp: partition_input_def reach_def)

lemma reach_le: "reach input pos \<le> length input"
  by (simp add: reach_def length_takeWhile_le)

lemma reach_after:
  assumes "partition_input topic p input" "0 < j" "j \<le> length input"
  shows "reach input (k_Offset (input ! (j - 1)) + 1) = j"
proof -
  let ?P = "\<lambda>r. k_Offset r < k_Offset (input ! (j - 1)) + 1"
  have lt: "k_Offset (input ! a) < k_Offset (input ! b)" if "a < b" "b < length input" for a b
    using assms(1) that by (auto simp: partition_input_def sorted_wrt_iff_nth_less)
  have "?P (input ! a)" if "a < j" for a
    using lt [of a "j - 1"] that assms(3) by (cases "a = j - 1") (simp_all add: less_imp_le)
  moreover have "\<not> ?P (input ! j)" if "j < length input"
    using lt [of "j - 1" j] that assms(2) by simp
  ultimately have "takeWhile ?P input = take j input"
    using assms(3) by (intro takeWhile_eq_take_P_nth) auto
  then show ?thesis using assms(3) by (simp add: reach_def)
qed

lemma committed_pos_simps [simp]:
  "committed_pos topic p [] pos = pos" "committed_pos topic p (tr @ tr') pos = committed_pos topic p tr' (committed_pos topic p tr pos)"
  "committed_pos topic p (e # tr) pos = committed_pos topic p tr (commit_step topic p e pos)"
  by (simp_all add: committed_pos_def)

lemma offsets_at_fresh: "i = reach input pos \<Longrightarrow> offsets_at topic p input pos i i (alo_fresh w now interval)"
  by (simp add: offsets_at_def alo_fresh_def newALOOffsetCommitter_def)

lemma offsets_at_world [simp]: "offsets_at topic p input pos i j (st\<lparr>al_world := w\<rparr>) = offsets_at topic p input pos i j st"
  by (simp add: offsets_at_def)

lemma offsets_at_log [simp]:
  "offsets_at topic p input pos i j (al_log (EPolled recs) st) = offsets_at topic p input pos i j st"
  "offsets_at topic p input pos i j (al_log (EBatch recs outs cl) st) = offsets_at topic p input pos i j st"
  "offsets_at topic p input pos i j (al_log (EProduced krs results) st) = offsets_at topic p input pos i j st"
  by (simp_all add: offsets_at_def)

lemma offsets_at_commit:
  assumes "partition_input topic p input" "offsets_at topic p input pos i j st" "i \<le> j" "j \<le> length input"
  shows "offsets_at topic p input pos i j (snd (ao_commit f now st))
    \<and> ((\<forall>rs. f rs = None) \<longrightarrow> reach input (committed_pos topic p (al_trace (snd (ao_commit f now st))) pos) = j)"
proof (cases "ao_pending (al_offsets st) = []")
  case True
  then show ?thesis using assms(2) by (auto simp: ao_commit_def ao_records_def offsets_at_def)
next
  case False
  then have pend: "0 < j" "ao_pending (al_offsets st) = [(topic, [(p, input ! (j - 1))])]" using assms(2) by (auto simp: offsets_at_def)
  have "k_Topic (input ! (j - 1)) = topic" "k_Partition (input ! (j - 1)) = p"
    using assms(1,4) pend(1) by (auto simp: partition_input_def)
  then show ?thesis
    using assms(2-4) pend reach_after [OF assms(1) pend(1) assms(4)]
    by (cases "f [input ! (j - 1)]") (auto simp: ao_commit_def ao_records_def Let_def offsets_at_def)
qed

lemma offsets_at_due:
  assumes "partition_input topic p input" "offsets_at topic p input pos i j st" "i \<le> j" "j \<le> length input"
  shows "offsets_at topic p input pos i j (commit_if_due ev st)"
  using offsets_at_commit [OF assms] assms(2) by (simp add: commit_if_due_def)

lemma ao_add_sorted:
  assumes "partition_input topic p recs" "recs \<noteq> []"
    and "ao_pending c = [] \<or> (\<exists>prev. ao_pending c = [(topic, [(p, prev)])] \<and> (\<forall>r \<in> set recs. k_Offset prev < k_Offset r))"
  shows "ao_pending (ao_add recs c) = [(topic, [(p, last recs)])]"
  using assms
proof (induction recs arbitrary: c)
  case (Cons r rs)
  have r: "k_Topic r = topic" "k_Partition r = p" "\<forall>x \<in> set rs. k_Offset r < k_Offset x" "partition_input topic p rs"
    using Cons.prems(1) by (auto simp: partition_input_def)
  have one: "ao_pending (ao_add1 r c) = [(topic, [(p, r)])]"
    using Cons.prems(3) r(1,2) by (auto simp: ao_add1_def Let_def)
  show ?case
  proof (cases "rs = []")
    case True
    then show ?thesis using one by (simp add: ao_add_def)
  next
    case False
    then have "ao_pending (ao_add rs (ao_add1 r c)) = [(topic, [(p, last rs)])]"
      using one r(3) by (intro Cons.IH [OF r(4)]) auto
    then show ?thesis using False by (simp add: ao_add_def)
  qed
qed simp

lemma offsets_at_add:
  assumes "partition_input topic p input" "offsets_at topic p input pos i j st" "j \<le> length input"
    and "prefix recs (drop j input)" "recs \<noteq> []" "al_offsets st = offs"
  shows "offsets_at topic p input pos i (j + length recs) (st\<lparr>al_offsets := ao_add recs offs\<rparr>)"
proof -
  obtain rest where rest: "drop j input = recs @ rest" using assms(4) by (auto simp: prefix_def)
  have split: "input = take j input @ recs @ rest" using rest by (metis append_take_drop_id)
  have "partition_input topic p (take j input @ recs @ rest)" using assms(1) by (subst split [symmetric])
  then have sub: "partition_input topic p recs" "\<forall>x \<in> set (take j input). \<forall>r \<in> set recs. k_Offset x < k_Offset r"
    unfolding partition_input_def by (auto simp: sorted_wrt_append)
  have "(take j input @ recs @ rest) ! (j + length recs - 1) = last recs"
    using assms(3,5) by (cases recs rule: rev_cases) (simp_all add: nth_append)
  then have "input ! (j + length recs - 1) = last recs" unfolding split [symmetric] .
  moreover have "ao_pending (ao_add recs (al_offsets st)) = [(topic, [(p, last recs)])]"
  proof (rule ao_add_sorted [OF sub(1) assms(5)])
    have "input ! (j - 1) \<in> set (take j input)" if "0 < j"
      using that assms(3) by (auto simp: in_set_conv_nth intro!: exI [of _ "j - 1"])
    then show "ao_pending (al_offsets st) = [] \<or> (\<exists>prev. ao_pending (al_offsets st) = [(topic, [(p, prev)])] \<and> (\<forall>r \<in> set recs. k_Offset prev < k_Offset r))"
      using assms(2) sub(2) by (auto simp: offsets_at_def)
  qed
  ultimately show ?thesis using assms(2,5,6) by (auto simp: offsets_at_def)
qed

text \<open>An iteration, and a run, without rebalances.\<close>

lemma offsets_at_iteration:
  assumes "partition_input topic p input" "offsets_at topic p input pos i j st" "i \<le> j" "j \<le> length input"
    and "ae_rebalances ev = []" "smooth ev" "prefix (ae_records ev) (drop j input)" "alo_iteration hooks ev st = (Continue, st')"
  shows "offsets_at topic p input pos i (j + length (ae_records ev)) st'"
proof (cases "ae_records ev = []")
  case True
  then have "st' = commit_if_due ev st"
    using assms(5,6,8) by (auto simp: alo_iteration_def smooth_def split: option.splits)
  then show ?thesis using offsets_at_due [OF assms(1-4)] True by simp
next
  case False
  have "j + length (ae_records ev) \<le> length input"
    using prefix_length_le [OF assms(7)] assms(4) by simp
  then have add: "offsets_at topic p input pos i (j + length (ae_records ev)) (commit_if_due ev (s3\<lparr>al_offsets := ao_add (ae_records ev) offs\<rparr>))"
    if "offsets_at topic p input pos i j s3" "al_offsets s3 = offs" for s3 offs
    using offsets_at_add [OF assms(1) that(1) assms(4,7) False that(2)] assms(1,3) by (intro offsets_at_due) auto
  show ?thesis
    using assms(2,5,6,8) False
    by (auto simp: alo_iteration_def smooth_def alo_finish_def Let_def intro!: add split: option.splits prod.splits if_splits)
qed

lemma prefix_drop_more: "prefix (xs @ ys) (drop j input) \<Longrightarrow> prefix ys (drop (j + length xs) input)"
proof -
  assume "prefix (xs @ ys) (drop j input)"
  then obtain zs where "drop j input = xs @ ys @ zs" by (auto simp: prefix_def)
  moreover have "drop (j + length xs) input = drop (length xs) (drop j input)" by (simp add: add.commute)
  ultimately show ?thesis by simp
qed

lemma offsets_at_run:
  assumes "partition_input topic p input" "offsets_at topic p input pos i j st" "i \<le> j" "j \<le> length input"
    and "\<forall>ev \<in> set evs. ae_rebalances ev = [] \<and> smooth ev" "prefix (concat (map ae_records evs)) (drop j input)"
    and "runALO hooks evs st = (Continue, st')"
  shows "offsets_at topic p input pos i (j + length (concat (map ae_records evs))) st'"
  using assms(2-)
proof (induction evs arbitrary: j st)
  case (Cons ev evs)
  obtain st1 where st1: "alo_iteration hooks ev st = (Continue, st1)" "runALO hooks evs st1 = (Continue, st')"
    using Cons.prems(6) by (auto split: prod.splits Outcome.splits)
  have pre: "prefix (ae_records ev) (drop j input)" "prefix (concat (map ae_records evs)) (drop (j + length (ae_records ev)) input)"
    using Cons.prems(5) prefix_drop_more [of "ae_records ev" "concat (map ae_records evs)" j input] by (auto dest: append_prefixD)
  have len: "j + length (ae_records ev) \<le> length input" using prefix_length_le [OF pre(1)] Cons.prems(3) by simp
  have "offsets_at topic p input pos i (j + length (ae_records ev)) st1"
    using Cons.prems(4) by (intro offsets_at_iteration [OF assms(1) Cons.prems(1-3) _ _ pre(1) st1(1)]) simp_all
  then show ?case
    using Cons.IH [of "j + length (ae_records ev)" st1] Cons.prems(2,4) len pre(2) st1(2) by (simp add: add.assoc)
qed simp

section \<open>Updates\<close>

lemma updates_append:
  "updates initFn aggFn (xs @ ys) m = updates initFn aggFn xs m @ updates initFn aggFn ys (fold (agg_step initFn aggFn) xs m)"
proof (induction xs arbitrary: m)
  case (Cons kv xs)
  obtain k v ts where kv: "kv = (k, v, ts)" by (cases kv)
  show ?case using Cons.IH by (simp add: kv Let_def agg_step_def del: fun_upd_apply)
qed simp

section \<open>The pending mutations of an in-memory store\<close>

definition mem_pending :: "string \<Rightarrow> MemBackend \<Rightarrow> StoreMutation list option" where
  "mem_pending n b = (case go_get (mb_stores b) n of
     Some s \<Rightarrow> if collectMutations s then Some (mutations s) else None | None \<Rightarrow> None)"

lemma mem_pending_put:
  assumes "mem_ok n b" "mem_pending n b = Some ms" "v \<noteq> []"
  shows "mem_pending n (snd (Put (mem_store n) k v b)) = Some (ms @ [\<lparr>m_Key = name_prefix n @ k, m_Value = Some v\<rparr>])"
proof -
  obtain s where s: "go_get (mb_stores b) n = Some s" "kv_ok n s" "\<not> db_closed (mb_db b)"
    using assms(1) by (rule mem_okE)
  have "mutations s = ms" "collectMutations s" using assms(2) s(1) by (auto simp: mem_pending_def split: if_splits)
  then show ?thesis
    using s assms(3)
    by (auto simp: mem_pending_def mem_store_def mb_update_def kv_Put_def kv_ok_def encodeKey_def checkOpen_def prefixed_def raw_put_def
        recordMutation_def bytesserde_def split: list.split)
qed

lemma mem_pending_drain:
  assumes "mem_ok n b" "mem_pending n b = Some ms"
  obtains b' where "DrainMutations (mem_store n) b = (ms, b')" "mem_ok n b'" "mem_pending n b' = Some []" "mem_view n b' = mem_view n b"
proof -
  obtain s where s: "go_get (mb_stores b) n = Some s" "kv_ok n s" "\<not> db_closed (mb_db b)" "go_map_ok (db_data (mb_db b))"
    using assms(1) by (rule mem_okE)
  have "mutations s = ms" "collectMutations s" using assms(2) s(1) by (auto simp: mem_pending_def split: if_splits)
  then show ?thesis
    using s by (intro that [of "b\<lparr>mb_stores := go_set n (s\<lparr>mutations := []\<rparr>) (mb_stores b)\<rparr>"])
      (simp_all add: mem_store_def mb_update_def kv_DrainMutations_def mem_ok_def mem_pending_def mem_view_eta kv_ok_def)
qed

lemma mem_pending_open:
  assumes "mb_open n True b = (None, b')" "mem_open b'"
  shows "mem_ok n b'" "mem_pending n b' = Some []"
  using assms by (auto simp: mb_open_def OpenStore_def NewKeyValueStore_def mem_ok_def mem_open_def mem_pending_def kv_ok_def name_prefix_def
      split: if_splits sum.splits)

section \<open>One life of the application\<close>

abbreviation fresh_memory :: MemBackend where
  "fresh_memory \<equiv> \<lparr>mb_db = OpenMemDB, mb_stores = []\<rparr>"

locale aggregation_run = changelog_cluster kf log partitions
    + kt: go_type kt + vt: go_type vt + ct: go_type ct + ks: total_serde keySerde + cs: total_serde accSerde
  for kf :: "'w Kafka" and log and partitions and kt :: "('a, 'k) gotype" and vt :: "('a, 'v) gotype" and ct :: "('a, 'c) gotype"
    and keySerde :: "'k Serde" and accSerde :: "'c Serde" +
  fixes valSerde :: "'v Serde" and source store topic out :: string and initFn :: "unit \<Rightarrow> 'c" and aggFn :: "'k \<Rightarrow> 'v \<Rightarrow> 'c \<Rightarrow> 'c"
    and cfg :: "MemBackend Config" and p :: int and noData :: MemBackend
  assumes no_empty: "Serialize accSerde x \<noteq> Inr []"
    and names: "source \<noteq> agg_node" "source \<noteq> out_node" "store_name_ok store"
    and assigned: "0 \<le> p" "p < partitions"
    and config: "cf_Brokers cfg \<noteq> []" "cf_Guarantee cfg \<noteq> ExactlyOnce"
      "cf_StoreProvider cfg = Some mem_Open"
begin

definition app_bt :: "(MemBackend, 'a) BuiltTopology" where
  "app_bt = \<lparr>bt_Topology = \<lparr>t_sources = [source], t_sinks = [out_node],
       t_nodes = chain source (Aggregate_fn kt vt ct keySerde store initFn aggFn accSerde) [store]\<rparr>,
     bt_Sources = [(source, \<lparr>so_Topic = topic, so_DecodeKey = decode_as kt keySerde, so_DecodeVal = decode_as vt valSerde\<rparr>)],
     bt_Sinks = [(out_node, \<lparr>si_Topic = out, si_EncodeKey = encode_as ''gstream: ktable sink EncodeKey'' kt keySerde,
        si_EncodeVal = encode_as ''gstream: ktable sink EncodeVal'' ct accSerde\<rparr>)],
     bt_RepartitionBindings = [],
     bt_StoreBindings = [(store, \<lparr>sb_StoreName = store, sb_ChangelogTopic = store,
        sb_EncodeKey = encode_as ''StoreBinding EncodeKey'' kt keySerde, sb_DecodeKey = decode_as kt keySerde,
        sb_EncodeVal = encode_as ''StoreBinding EncodeVal'' ct accSerde, sb_DecodeVal = decode_as ct accSerde\<rparr>)],
     bt_WindowStoreBindings = [], bt_SessionStoreBindings = [], bt_GlobalTableBindings = []\<rparr>"

definition app_adapter :: "(MemBackend, 'a) Adapter" where
  "app_adapter = \<lparr>ad_taskManager = NewTaskManager app_bt cfg noData, ad_bt = app_bt, ad_cfg = cfg, ad_topicToSource = [(topic, source)],
     ad_resolvedSources = bt_Sources app_bt, ad_resolvedSinks = bt_Sinks app_bt, ad_globalConsumers = [], ad_health = None\<rparr>"

lemma app_builds:
  "\<exists>b. aggregation_app kt vt ct source store topic out keySerde valSerde accSerde initFn aggFn NewStreamBuilder = (Inr (), b)
    \<and> StreamBuilder_Build b = Inr app_bt"
  using names
  by (simp add: generated(3) [symmetric] aggregation_app_def aggregation_pipeline_def Stream_def GroupByKey_def ensureRepartition_def
      Aggregate_op_def KTable_To_def act_simps internalE_def nextName_def NewStreamBuilder_def NewBuilder_def AddSource_def
      AddStatefulProcessor_def AddSink_def generated StreamBuilder_Build_def Build_def chain_def app_bt_def)

lemma app_new: "NewAdapter app_bt cfg noData = Inr app_adapter"
  by (simp add: NewAdapter_def app_bt_def app_adapter_def add_source_def has_stores_def Let_def)

text \<open>The adapter with the one task it opens, in the state \<open>s\<close> of its executor.\<close>

definition cl_topic :: string where
  "cl_topic = changelog_topic (cf_ApplicationID cfg) store"

definition app_task :: "(MemBackend, 'a) estate \<Rightarrow> (MemBackend, 'a) task" where
  "app_task s = \<lparr>tk_backend = Some mem_backend, tk_executor = \<lparr>x_topo = bt_Topology app_bt, x_stores = mem_stores [store], x_state = s\<rparr>,
     tk_producers = [(store, \<lparr>cp_topic = cl_topic\<rparr>)], tk_stores = [(store, IsStore (lift_store (mem_store store)))],
     tk_partition = p, tk_lastSweepTime = 0\<rparr>"

definition with_state :: "(MemBackend, 'a) estate \<Rightarrow> (MemBackend, 'a) Adapter" where
  "with_state s = app_adapter\<lparr>ad_taskManager := put_task p (app_task s) (NewTaskManager app_bt cfg noData)\<rparr>"

definition tab :: "(MemBackend, 'a) estate \<Rightarrow> 'k \<rightharpoonup> 'c" where
  "tab s = table keySerde accSerde (mem_ctx_view store s)"

text \<open>The changelog of the store, the table it stands for, and the logs the application writes.\<close>

definition clog :: "'w \<Rightarrow> KRecord list" where
  "clog c = partition_log cl_topic p (log c)"

definition logged_view :: "'w \<Rightarrow> bytes \<rightharpoonup> bytes" where
  "logged_view c k = replayed (clog c) (name_prefix store @ k)"

definition logged_tab :: "'w \<Rightarrow> 'k \<rightharpoonup> 'c" where
  "logged_tab c = table keySerde accSerde (logged_view c)"

definition good_log :: "'w \<Rightarrow> bool" where
  "good_log c \<longleftrightarrow> (\<forall>r \<in> set (clog c). prefix (name_prefix store) (k_Key r)) \<and> decodable keySerde accSerde (logged_view c)"

text \<open>The store holds what the changelog and the mutations still pending in it say.\<close>

definition in_step :: "(MemBackend, 'a) estate \<Rightarrow> StoreMutation list \<Rightarrow> 'w \<Rightarrow> bool" where
  "in_step s ms c \<longleftrightarrow> running store keySerde accSerde s [] \<and> mem_pending store (es_data s) = Some ms \<and> good_log c
     \<and> (\<forall>m \<in> set ms. prefix (name_prefix store) (m_Key m) \<and> m_Value m \<noteq> Some [])
     \<and> (\<forall>k. mem_ctx_view store s k = fold mutate ms (replayed (clog c)) (name_prefix store @ k))"

lemma in_step_tab: "in_step s [] c \<Longrightarrow> tab s = logged_tab c"
proof -
  assume "in_step s [] c"
  then have "mem_ctx_view store s = logged_view c" by (simp add: in_step_def logged_view_def fun_eq_iff)
  then show ?thesis by (simp add: tab_def logged_tab_def)
qed

lemma enc_ne: "cs.enc x \<noteq> []"
  using no_empty [of x] by simp

text \<open>One record.\<close>

lemma app_process:
  assumes inv: "in_step s ms c" and r: "carries topic p keySerde valSerde r (k, v, ts)"
    and a: "a = aggFn k v (case tab s k of None \<Rightarrow> initFn () | Some a \<Rightarrow> a)"
  shows "\<exists>s' m. process (toInRecord r) (with_state s) = (Inr [update_record out keySerde accSerde (k, a, ts)], with_state s')
    \<and> in_step s' (ms @ [m]) c \<and> tab s' = (tab s)(k \<mapsto> a)"
proof -
  have run: "running store keySerde accSerde s []" and ok: "mem_ok store (es_data s)"
    using inv by (simp_all add: in_step_def running_def mem_data_ok_def)
  obtain s1 where s1: "processWithCtxAndHook (t_nodes (bt_Topology app_bt)) (mem_stores [store]) append_buffer source
        (typed_record kt vt (k, v, ts)) s = (None, s1)"
      "running store keySerde accSerde s1 [typed_record kt ct (k, a, ts)]" "tab s1 = (tab s)(k \<mapsto> a)"
      "es_data s1 = snd (Put (mem_store store) (ks.enc k) (cs.enc a) (es_data s))"
    using running_step [OF kt.go_type_axioms vt.go_type_axioms ks.total_serde_axioms cs.total_serde_axioms run names(1,2),
        where a = a and aggFn = aggFn and initFn = initFn and k = k and v = v and ct = ct and stores = "[store]" and ts = ts] a by (auto simp: app_bt_def tab_def)
  define s' where "s' = s1\<lparr>es_buffers := go_set out_node [] (es_buffers s1)\<rparr>"
  let ?m = "\<lparr>m_Key = name_prefix store @ ks.enc k, m_Value = Some (cs.enc a)\<rparr>"
  have same: "es_data s' = es_data s1" "mem_ctx_view store s' = mem_ctx_view store s1" by (simp_all add: s'_def mem_ctx_view_def)
  have run': "running store keySerde accSerde s' []"
    using s1(2) same(2) by (simp add: running_def mem_data_ok_def s'_def)
  have pend: "mem_pending store (es_data s') = Some (ms @ [?m])"
    unfolding same(1) s1(4) using mem_pending_put [OF ok _ enc_ne] inv by (simp add: in_step_def)
  obtain e b' where put: "Put (mem_store store) (ks.enc k) (cs.enc a) (es_data s) = (e, b')" by fastforce
  have "mem_ctx_view store s' = (mem_ctx_view store s)(ks.enc k \<mapsto> cs.enc a)"
    using mem.put_law [OF ok put] put s1(4) same(1) by (simp add: mem_ctx_view_def)
  then have view: "mem_ctx_view store s' k' = fold mutate (ms @ [?m]) (replayed (clog c)) (name_prefix store @ k')" for k'
    using inv by (simp add: in_step_def mutate_def)
  have inv': "in_step s' (ms @ [?m]) c"
    using inv run' pend view by (simp add: in_step_def enc_ne)
  have "process (toInRecord r) (with_state s) = (Inr [update_record out keySerde accSerde (k, a, ts)], with_state s')"
    using s1(1,2) r
    by (simp add: process_def with_state_def app_adapter_def toInRecord_def carries_def app_bt_def decode_record_def decode_as_def
        get_Executor_def put_task_def app_task_def Process_def drainSinks_def DrainSink_def drain_buffer_def running_def typed_record_def
        encode_as_def update_record_def set_executor_def s'_def NewTaskManager_def)
  moreover have "tab s' = (tab s)(k \<mapsto> a)" using s1(3) same(2) by (simp add: tab_def)
  ultimately show ?thesis using inv' by blast
qed

text \<open>A batch of records.\<close>

lemma app_batch:
  assumes "list_all2 (carries topic p keySerde valSerde) rs kvs" "in_step s ms c"
  shows "\<exists>s' ms'. process_loop ProcessFunc (map toInRecord rs) outs (with_state s, c)
      = (Some (outs @ map (update_record out keySerde accSerde) (updates initFn aggFn kvs (tab s))), (with_state s', c))
    \<and> in_step s' (ms @ ms') c \<and> length ms' = length kvs \<and> tab s' = fold (agg_step initFn aggFn) kvs (tab s)"
  using assms
proof (induction rs kvs arbitrary: s ms outs rule: list_all2_induct)
  case Nil
  then show ?case by auto
next
  case (Cons r rs kv kvs)
  obtain k v ts where kv: "kv = (k, v, ts)" by (cases kv)
  define a where "a = aggFn k v (case tab s k of None \<Rightarrow> initFn () | Some a \<Rightarrow> a)"
  obtain s1 m where s1: "process (toInRecord r) (with_state s) = (Inr [update_record out keySerde accSerde (k, a, ts)], with_state s1)"
      "in_step s1 (ms @ [m]) c" "tab s1 = (tab s)(k \<mapsto> a)"
    using app_process [OF Cons.prems, of r k v ts a] Cons.hyps(1) kv a_def by auto
  have step: "tab s1 = agg_step initFn aggFn kv (tab s)" using s1(3) by (simp add: kv agg_step_def a_def)
  have upd: "updates initFn aggFn (kv # kvs) (tab s) = (k, a, ts) # updates initFn aggFn kvs (tab s1)"
    using s1(3) by (simp add: kv a_def Let_def)
  obtain s' ms' where IH: "process_loop ProcessFunc (map toInRecord rs) (outs @ [update_record out keySerde accSerde (k, a, ts)]) (with_state s1, c)
      = (Some ((outs @ [update_record out keySerde accSerde (k, a, ts)])
          @ map (update_record out keySerde accSerde) (updates initFn aggFn kvs (tab s1))), (with_state s', c))"
      "in_step s' ((ms @ [m]) @ ms') c" "length ms' = length kvs" "tab s' = fold (agg_step initFn aggFn) kvs (tab s1)"
    using Cons.IH [OF s1(2)] by blast
  have "process_loop ProcessFunc (map toInRecord (r # rs)) outs (with_state s, c)
      = (Some (outs @ map (update_record out keySerde accSerde) (updates initFn aggFn (kv # kvs) (tab s))), (with_state s', c))"
    unfolding upd using IH(1) s1(1) by (simp add: ProcessFunc_def)
  moreover have "in_step s' (ms @ (m # ms')) c" "length (m # ms') = length (kv # kvs)"
      "tab s' = fold (agg_step initFn aggFn) (kv # kvs) (tab s)"
    using IH(2-4) step by simp_all
  ultimately show ?case by blast
qed

text \<open>The post-batch hook moves the pending mutations to the changelog.\<close>

lemma app_bt_stores [simp]: "store_changelogs app_bt = [(store, store)]" "\<not> timed app_bt"
  by (simp_all add: store_changelogs_def timed_def app_bt_def)

lemma encoded_log:
  assumes "\<forall>m \<in> set ms. m_Value m \<noteq> Some []"
  shows "map record_mutation (outRecordsToKgo (Encode \<lparr>cp_topic = t\<rparr> q ms)) = ms"
    "partition_log t q (outRecordsToKgo (Encode \<lparr>cp_topic = t\<rparr> q ms)) = outRecordsToKgo (Encode \<lparr>cp_topic = t\<rparr> q ms)"
  using assms
  by (induction ms) (auto simp: outRecordsToKgo_def Encode_def record_mutation_def NilOf_def partition_log_def split: option.split list.split)

lemma app_hook:
  assumes inv: "in_step s ms c"
  shows "\<exists>s' c'. PostBatchHook kf (with_state s, c) = (None, (with_state s', c')) \<and> in_step s' [] c' \<and> tab s' = tab s
    \<and> length (log c') = length (log c) + length ms"
proof -
  have run: "running store keySerde accSerde s []" "mem_ok store (es_data s)" "mem_pending store (es_data s) = Some ms"
    using inv by (simp_all add: in_step_def running_def mem_data_ok_def)
  obtain b' where b': "DrainMutations (mem_store store) (es_data s) = (ms, b')" "mem_ok store b'" "mem_pending store b' = Some []"
      "mem_view store b' = mem_view store (es_data s)"
    using mem_pending_drain [OF run(2,3)] by blast
  define s' where "s' = s\<lparr>es_data := b'\<rparr>"
  have same: "mem_ctx_view store s' = mem_ctx_view store s" using b'(4) by (simp add: s'_def mem_ctx_view_def)
  have run': "running store keySerde accSerde s' []" using run(1) b'(2) same by (simp add: running_def mem_data_ok_def s'_def)
  let ?rs = "outRecordsToKgo (Encode \<lparr>cp_topic = cl_topic\<rparr> p ms)"
  define c' where "c' = (if ms = [] then c else snd (kf_produce kf ?rs c))"
  have log': "log c' = log c @ ?rs"
    using produce_law [of ?rs c] by (cases "kf_produce kf ?rs c") (auto simp: c'_def outRecordsToKgo_def Encode_def)
  have ms: "\<forall>m \<in> set ms. m_Value m \<noteq> Some []" "\<forall>m \<in> set ms. prefix (name_prefix store) (m_Key m)"
    using inv by (simp_all add: in_step_def)
  have clog': "clog c' = clog c @ ?rs" using encoded_log(2) [OF ms(1)] by (simp add: clog_def log' partition_log_def)
  have replay': "replayed (clog c') = fold mutate ms (replayed (clog c))"
    using encoded_log(1) [OF ms(1)] by (simp add: replayed_def clog')
  have view: "mem_ctx_view store s' = logged_view c'"
    using inv same by (simp add: in_step_def logged_view_def replay' fun_eq_iff)
  have "\<forall>r \<in> set (clog c'). prefix (name_prefix store) (k_Key r)"
    using inv ms(2) by (auto simp: in_step_def good_log_def clog' outRecordsToKgo_def Encode_def)
  then have inv': "in_step s' [] c'"
    using run' b'(3) view by (simp add: in_step_def good_log_def s'_def logged_view_def running_def)
  have flush: "Flush (kf_produce kf) \<lparr>cp_topic = cl_topic\<rparr> p ms c = (None, c')"
    using produce_law [of ?rs c]
    by (cases "kf_produce kf ?rs c") (simp add: Flush_def flush_records c'_def)
  have "PostBatchHook kf (with_state s, c) = (None, (with_state s', c'))"
    using b'(1) flush
    by (simp add: PostBatchHook_def with_state_def app_adapter_def health_Err_def PostBatch_def put_task_def NewTaskManager_def
        post_batch_task_def app_task_def sweep_task_def flush_store_def stores_fn_def drain_store_def lift_store_def lift_update_def
        set_estate_def write_stream_time_def s'_def c'_def)
  then show ?thesis
    using inv' same log' by (intro exI [of _ s'] exI [of _ c']) (simp add: tab_def outRecordsToKgo_def Encode_def)
qed

text \<open>The assignment restores the store from the changelog.\<close>

lemma app_assigned:
  assumes good: "good_log c" and len: "int (length (log c)) \<le> MaxInt64"
  shows "\<exists>s. onAssigned kf [(topic, [p])] (app_adapter, c) = (None, (with_state s, c)) \<and> in_step s [] c"
proof -
  let ?tm = "NewTaskManager app_bt cfg noData :: (MemBackend, 'a) TaskManager"
  let ?st = "\<lparr>op_data = fresh_memory, op_stores = [], op_producers = []\<rparr> :: (MemBackend, 'a) Opening"
  obtain hw earliest recs where sv: "fetchHighWatermark (kf_cluster kf c) cl_topic p = Inr hw"
      "fetchEarliestOffset (kf_cluster kf c) cl_topic p = Inr earliest" "is_i64 hw"
      "if earliest < hw then serves (kf_cluster kf c) cl_topic p earliest hw recs else recs = []"
      "k_Key ` set recs \<subseteq> k_Key ` set (clog c)" "replayed recs = replayed (clog c)"
    using serve_law [OF len assigned, of cl_topic] unfolding clog_def by blast
  have pos: "0 \<le> earliest" using sv(2) fetchOffset_nonneg unfolding fetchEarliestOffset_def by blast
  then have "max earliest 0 = earliest" by simp
  moreover have "\<forall>r \<in> set recs. prefix (name_prefix store) (k_Key r)" using sv(5) good by (auto simp: good_log_def image_iff subset_iff)
  ultimately have served: "changelog_served (kf_cluster kf c) (tm_appID ?tm) p (mem_ckpt (op_data ?st)) (\<lambda>_. recs) (store, store)"
    using sv(1-4) names(3) pos
    by (auto simp: changelog_served_def Let_def NewTaskManager_def cl_topic_def [symmetric] mem_ckpt_def OpenMemDB_def MaxInt64_def)
  have open': "mem_open (op_data ?st)" by (simp add: mem_open_def OpenMemDB_def)
  obtain st where st: "openStore kf c ?tm p mem_backend (store, store) ?st = (None, st)" "mem_open (op_data st)"
      "mem_raw (op_data st) = replay (\<lambda>_. recs) store (mem_raw (op_data ?st))"
    using mem_obe.openStore_restores [OF served open'] config(1) producer_law by (auto simp: NewTaskManager_def)
  have "\<exists>b. mb_open store True b = (None, op_data st)"
    using st(1) by (auto simp: openStore_def Let_def mem_backend_def split: sum.splits option.splits prod.splits)
  then have ok: "mem_ok store (op_data st)" "mem_pending store (op_data st) = Some []"
    using mem_pending_open st(2) by blast+
  have shape: "op_producers st = [(store, \<lparr>cp_topic = cl_topic\<rparr>)]" "op_stores st = [(store, IsStore (lift_store (mem_store store)))]"
    using openStore_shape [OF st(1)] by (simp_all add: cl_topic_def NewTaskManager_def mem_backend_def)
  define s :: "(MemBackend, 'a) estate" where "s = \<lparr>es_data = op_data st, es_streamTime = None, es_buffers = [(out_node, [])], es_late = [], es_firstErr = None\<rparr>"
  have "mem_raw (op_data ?st) = Map.empty" by (simp add: mem_raw_def only_data_def OpenMemDB_def fun_eq_iff)
  then have "mem_raw (op_data st) = replayed (clog c)" using st(3) sv(6) by (simp add: replay_def replayed_def)
  then have view: "mem_ctx_view store s = logged_view c"
    by (intro ext) (simp add: mem_ctx_view_def s_def mem_view_raw [OF names(3)] logged_view_def)
  have inv: "in_step s [] c"
    using ok good view by (simp add: in_step_def running_def mem_data_ok_def s_def good_log_def logged_view_def)
  have stores: "stores_fn [(store, IsStore (lift_store (mem_store store)))] = mem_stores [store]"
    by (simp add: stores_fn_def mem_stores_def fun_eq_iff)
  have "openTask kf c p ?tm = (None, put_task p (app_task s) ?tm)"
    using st(1) config(3) shape
    by (simp add: openTask_def Let_def NewTaskManager_def mem_Open_def merge_stores_def stores NewExecutor_def NewExecutorWithStreamTime_def
        app_task_def s_def) (simp add: app_bt_def)
  then have "onAssigned kf [(topic, [p])] (app_adapter, c) = (None, (with_state s, c))"
    by (simp add: onAssigned_def app_adapter_def OnAssigned_def collectPartitions_def with_state_def)
  then show ?thesis using inv by blast
qed

text \<open>One iteration of the loop, any number of them, and a whole life.\<close>

abbreviation hooks :: "(MemBackend, 'a, 'w) world Hooks" where
  "hooks \<equiv> adapter_hooks kf cfg"

abbreviation outputs :: "('k \<times> 'v \<times> int) list \<Rightarrow> ('k \<rightharpoonup> 'c) \<Rightarrow> KRecord list" where
  "outputs kvs m \<equiv> outRecordsToKgo (map (update_record out keySerde accSerde) (updates initFn aggFn kvs m))"

lemma outputs_append: "outputs (xs @ ys) m = outputs xs m @ outputs ys (fold (agg_step initFn aggFn) xs m)"
  by (simp add: updates_append)

text \<open>The state of the loop, and what a stretch of it does for the records \<open>kvs\<close>.\<close>

definition loop_at :: "(MemBackend, 'a, 'w) world AloState \<Rightarrow> (MemBackend, 'a) estate \<Rightarrow> 'w \<Rightarrow> bool" where
  "loop_at st s c \<longleftrightarrow> al_world st = (with_state s, c) \<and> in_step s [] c"

definition handled :: "('k \<times> 'v \<times> int) list \<Rightarrow> Effect list \<Rightarrow> 'w \<Rightarrow> (MemBackend, 'a, 'w) world AloState \<Rightarrow> bool" where
  "handled kvs tr c st \<longleftrightarrow> (\<exists>s c'. loop_at st s c' \<and> logged_tab c' = fold (agg_step initFn aggFn) kvs (logged_tab c)
     \<and> all_produced (al_trace st) = all_produced tr @ outputs kvs (logged_tab c) \<and> length (log c') = length (log c) + length kvs)"

lemma app_healthy: "al_world st = (with_state s, c) \<or> al_world st = (app_adapter, c) \<Longrightarrow> health_of hooks (al_world st) = None"
  by (auto simp: adapter_health_of with_state_def app_adapter_def)

lemma hook_fields: "h_process hooks = ProcessFunc" "post_batch hooks = PostBatchHook kf"
  using config(2) by (simp_all add: adapter_hooks_def post_batch_def fun_eq_iff)

lemma app_iteration:
  assumes st: "loop_at st s c" and ev: "ae_rebalances ev = []" "smooth ev" "list_all2 (carries topic p keySerde valSerde) (ae_records ev) kvs"
  shows "\<exists>st'. alo_iteration hooks ev st = (Continue, st') \<and> handled kvs (al_trace st) c st'"
proof (cases "ae_records ev = []")
  case True
  then have "alo_iteration hooks ev st = (Continue, commit_if_due ev st)"
    using ev app_healthy [of st s c] st by (simp add: alo_iteration_def smooth_def loop_at_def Let_def)
  moreover have "handled kvs (al_trace st) c (commit_if_due ev st)"
    using st ev(3) True unfolding handled_def by (intro exI [of _ s] exI [of _ c]) (simp add: loop_at_def)
  ultimately show ?thesis by blast
next
  case False
  have inv: "in_step s [] c" and w: "al_world st = (with_state s, c)" using st by (simp_all add: loop_at_def)
  obtain s1 ms where b: "process_loop ProcessFunc (map toInRecord (ae_records ev)) [] (with_state s, c)
      = (Some (map (update_record out keySerde accSerde) (updates initFn aggFn kvs (tab s))), (with_state s1, c))"
      "in_step s1 ms c" "length ms = length kvs" "tab s1 = fold (agg_step initFn aggFn) kvs (tab s)"
    using app_batch [OF ev(3) inv, of "[]"] by auto
  obtain s2 c2 where h: "PostBatchHook kf (with_state s1, c) = (None, (with_state s2, c2))" "in_step s2 [] c2" "tab s2 = tab s1"
      "length (log c2) = length (log c) + length ms"
    using app_hook [OF b(2)] by blast
  let ?out = "map (update_record out keySerde accSerde) (updates initFn aggFn kvs (tab s))"
  have part: "\<forall>r \<in> set (map toInRecord (ae_records ev)). in_Partition r = p"
    using ev(3) by (induction rule: list_all2_induct) (auto simp: carries_def toInRecord_def split: prod.splits)
  define s3 where "s3 = (st\<lparr>al_world := (with_state s2, c2), al_trace := al_trace st @ [EPolled (ae_records ev), EBatch (ae_records ev) ?out []]
      @ (if ?out = [] then [] else [EProduced (outRecordsToKgo ?out) (ae_produce ev (outRecordsToKgo ?out))])\<rparr>)"
  have "alo_iteration hooks ev st = (Continue, commit_if_due ev (s3\<lparr>al_offsets := ao_add (ae_records ev) (al_offsets s3)\<rparr>))"
    using b(1) h(1) w ev(1,2) False app_healthy [of st s c]
    by (simp add: alo_iteration_def smooth_def hook_fields one_partition_batch [OF part] processBatch_def alo_finish_def
        Let_def s3_def al_log_def first_err_def [of "[]"])
  moreover have "handled kvs (al_trace st) c (commit_if_due ev (s3\<lparr>al_offsets := ao_add (ae_records ev) (al_offsets s3)\<rparr>))"
    using h b(3,4) ev(2) in_step_tab [OF inv] in_step_tab [OF h(2)] unfolding handled_def
    by (intro exI [of _ s2] exI [of _ c2]) (auto simp: loop_at_def s3_def smooth_def)
  ultimately show ?thesis by blast
qed

lemma handled_trans:
  assumes "handled xs tr c st1" "\<And>s1 c1. loop_at st1 s1 c1 \<Longrightarrow> handled ys (al_trace st1) c1 st2"
  shows "handled (xs @ ys) tr c st2"
proof -
  obtain s1 c1 where 1: "loop_at st1 s1 c1" "logged_tab c1 = fold (agg_step initFn aggFn) xs (logged_tab c)"
      "all_produced (al_trace st1) = all_produced tr @ outputs xs (logged_tab c)" "length (log c1) = length (log c) + length xs"
    using assms(1) unfolding handled_def by blast
  obtain s2 c2 where 2: "loop_at st2 s2 c2" "logged_tab c2 = fold (agg_step initFn aggFn) ys (logged_tab c1)"
      "all_produced (al_trace st2) = all_produced (al_trace st1) @ outputs ys (logged_tab c1)" "length (log c2) = length (log c1) + length ys"
    using assms(2) [OF 1(1)] unfolding handled_def by blast
  show ?thesis unfolding handled_def outputs_append
    using 1 2 by (intro exI [of _ s2] exI [of _ c2]) simp
qed

lemma app_run:
  assumes "loop_at st s c" "\<forall>ev \<in> set evs. ae_rebalances ev = [] \<and> smooth ev"
    and "list_all2 (carries topic p keySerde valSerde) (concat (map ae_records evs)) kvs"
  shows "\<exists>st'. runALO hooks evs st = (Continue, st') \<and> handled kvs (al_trace st) c st'"
  using assms
proof (induction evs arbitrary: st s c kvs)
  case Nil
  then show ?case by (auto simp: handled_def)
next
  case (Cons ev evs)
  obtain xs ys where kvs: "kvs = xs @ ys" "list_all2 (carries topic p keySerde valSerde) (ae_records ev) xs"
      "list_all2 (carries topic p keySerde valSerde) (concat (map ae_records evs)) ys"
    using Cons.prems(3) by (auto simp: list_all2_append1)
  obtain st1 where st1: "alo_iteration hooks ev st = (Continue, st1)" "handled xs (al_trace st) c st1"
    using app_iteration [OF Cons.prems(1) _ _ kvs(2)] Cons.prems(2) by auto
  obtain s1 c1 where "loop_at st1 s1 c1" using st1(2) unfolding handled_def by blast
  with Cons.IH [OF this _ kvs(3)] obtain st2 where st2: "runALO hooks evs st1 = (Continue, st2)" using Cons.prems(2) by auto
  have "handled ys (al_trace st1) c1' st2" if "loop_at st1 s1' c1'" for s1' c1'
    using Cons.IH [OF that _ kvs(3)] st2 Cons.prems(2) by auto
  from handled_trans [OF st1(2) this] show ?case using st1(1) st2 kvs(1) by simp
qed

lemma runALO_append: "runALO hks evs st = (Continue, st') \<Longrightarrow> runALO hks (evs @ es) st = runALO hks es st'"
  by (induction evs arbitrary: st) (auto split: prod.splits Outcome.splits)

lemma app_polls:
  assumes life: "is_life topic p (now, interval, evs, stop)" and input: "partition_input topic p input" "i = reach input pos"
    "prefix (concat (map ae_records evs)) (drop i input)"
    and kvs: "list_all2 (carries topic p keySerde valSerde) (concat (map ae_records evs)) kvs"
    and good: "good_log c" "int (length (log c)) \<le> MaxInt64"
  shows "\<exists>st. runALO hooks evs (alo_fresh (app_adapter, c) now interval) = (Continue, st) \<and> handled kvs [] c st
    \<and> offsets_at topic p input pos i (i + length kvs) st"
proof -
  let ?st = "alo_fresh (app_adapter, c) now interval :: (MemBackend, 'a, 'w) world AloState"
  obtain ev rest where evs: "evs = ev # rest" using life by (cases evs) (auto simp: is_life_def)
  let ?ev = "ev\<lparr>ae_rebalances := []\<rparr>"
  obtain s where s: "onAssigned kf [(topic, [p])] (app_adapter, c) = (None, (with_state s, c))" "in_step s [] c"
    using app_assigned [OF good] by blast
  let ?st1 = "?st\<lparr>al_world := (with_state s, c)\<rparr>"
  have "fold (alo_rebalance hooks ev) (ae_rebalances ev) ?st = ?st1"
    using life s(1) by (simp add: is_life_def evs alo_rebalance_def run_callback_def alo_fresh_def adapter_hooks_def)
  moreover have "health_of hooks (al_world ?st) = None" "health_of hooks (al_world ?st1) = None"
    using app_healthy [of ?st s c] app_healthy [of ?st1 s c] by (simp_all add: alo_fresh_def)
  ultimately have "alo_iteration hooks ev ?st = alo_iteration hooks ?ev ?st1" by (intro iteration_rebalanced) auto
  then have start: "runALO hooks evs ?st = runALO hooks (?ev # rest) ?st1" by (simp add: evs)
  have polls: "\<forall>e \<in> set (?ev # rest). ae_rebalances e = [] \<and> smooth e"
    "concat (map ae_records (?ev # rest)) = concat (map ae_records evs)"
    using life by (auto simp: is_life_def evs smooth_def)
  have "loop_at ?st1 s c" using s(2) by (simp add: loop_at_def)
  then obtain st where st: "runALO hooks (?ev # rest) ?st1 = (Continue, st)" "handled kvs (al_trace ?st1) c st"
    using app_run [OF _ polls(1), of ?st1 s c kvs] kvs polls(2) by auto
  have "offsets_at topic p input pos i (i + length (concat (map ae_records (?ev # rest)))) st"
    using input(2,3) polls(2) reach_le [of input pos] offsets_at_fresh [OF input(2), of topic p "(app_adapter, c)" now interval]
    by (intro offsets_at_run [OF input(1) _ _ _ polls(1) _ st(1)]) (simp_all del: concat.simps list.map)
  then have "offsets_at topic p input pos i (i + length kvs) st" unfolding polls(2) list_all2_lengthD [OF kvs] .
  moreover have "handled kvs [] c st" using st(2) by (simp add: alo_fresh_def)
  ultimately show ?thesis unfolding start st(1) by blast
qed

lemma app_life:
  assumes life: "is_life topic p l" and input: "partition_input topic p input" "i = reach input pos" "prefix (polled_in l) (drop i input)"
    and kvs: "list_all2 (carries topic p keySerde valSerde) (polled_in l) kvs"
    and good: "good_log c" "int (length (log c)) \<le> MaxInt64"
    and j: "j = i + length kvs"
  shows "\<exists>st. life_run hooks app_adapter l c = (life_outcome l, st) \<and> handled kvs [] c st
    \<and> i \<le> reach input (committed_pos topic p (al_trace st) pos) \<and> reach input (committed_pos topic p (al_trace st) pos) \<le> j
    \<and> (clean l \<longrightarrow> reach input (committed_pos topic p (al_trace st) pos) = j)"
proof -
  obtain now interval evs stop where l: "l = (now, interval, evs, stop)" by (cases l)
  obtain st where st: "runALO hooks evs (alo_fresh (app_adapter, c) now interval) = (Continue, st)" "handled kvs [] c st"
      "offsets_at topic p input pos i j st"
    using app_polls [OF life [unfolded l] input(1,2) _ _ good] input(3) kvs j by (auto simp: polled_in_def l)
  have len: "j \<le> length input"
    using prefix_length_le [OF input(3)] list_all2_lengthD [OF kvs] reach_le [of input pos] input(2) j by simp
  show ?thesis
  proof (cases stop)
    case None
    then show ?thesis using st by (auto simp: l life_outcome_def clean_def offsets_at_def)
  next
    case (Some ev)
    let ?st = "snd (ao_commit (ae_commit ev) (ae_committedAt ev) st)"
    obtain s c' where at: "loop_at st s c'" using st(2) unfolding handled_def by blast
    have "shuts_down ev" using life by (simp add: l is_life_def Some)
    then have "alo_iteration hooks ev st = (Exit None, ?st)"
      using app_healthy [of st s c'] at by (simp add: alo_iteration_def shuts_down_def commitALOOnShutdown_def loop_at_def)
    then have "life_run hooks app_adapter l c = (life_outcome l, ?st)"
      using runALO_append [OF st(1), of "[ev]"] by (simp add: l life_outcome_def Some)
    moreover have "al_world ?st = al_world st" "all_produced (al_trace ?st) = all_produced (al_trace st)"
      by (simp_all add: ao_commit_def Let_def al_log_def split: option.split)
    then have "handled kvs [] c ?st" using st(2) by (simp add: handled_def loop_at_def)
    moreover note offsets_at_commit [OF input(1) st(3) _ len, of "ae_commit ev" "ae_committedAt ev"]
    ultimately show ?thesis using j by (auto simp: offsets_at_def clean_def l Some)
  qed
qed

lemma carried_part: "list_all2 (carries topic p keySerde valSerde) input kvs \<Longrightarrow> prefix recs (drop i input) \<Longrightarrow>
    list_all2 (carries topic p keySerde valSerde) recs (take (length recs) (drop i kvs))"
  by (auto simp: prefix_def dest!: list_all2_dropI [of _ input kvs i] simp: list_all2_append1 dest: list_all2_lengthD)

lemma app_lives:
  assumes "partition_input topic p input" "list_all2 (carries topic p keySerde valSerde) input kvs" "\<forall>l \<in> set ls. is_life topic p l"
    and "reads_committed hooks app_adapter topic p input ls c pos" "good_log c"
    and "int (length (log c) + (\<Sum>l\<leftarrow>ls. length (polled_in l))) \<le> MaxInt64"
  shows "\<exists>segs c' pos'. lives hooks app_adapter topic p ls c pos
      = (map life_outcome ls, outputs (deliveries kvs segs) (logged_tab c), c', pos')
    \<and> ends_of segs = map (\<lambda>l. (length (polled_in l), clean l)) ls
    \<and> resumes (reach input pos) (reach input pos) True segs \<and> (\<forall>(i, j, b) \<in> set segs. j \<le> length kvs)
    \<and> logged_tab c' = fold (agg_step initFn aggFn) (deliveries kvs segs) (logged_tab c)"
  using assms(3-)
proof (induction ls arbitrary: c pos)
  case Nil
  show ?case by (intro exI [of _ "[]"] exI [of _ c]) (simp add: deliveries_def ends_of_def outRecordsToKgo_def)
next
  case (Cons l ls)
  let ?i = "reach input pos" and ?n = "length (polled_in l)"
  let ?kvs = "take ?n (drop ?i kvs)"
  have pre: "prefix (polled_in l) (drop ?i input)" using Cons.prems(2) by simp
  have car: "list_all2 (carries topic p keySerde valSerde) (polled_in l) ?kvs" by (rule carried_part [OF assms(2) pre])
  have len: "length ?kvs = ?n" "?i + ?n \<le> length kvs"
    using list_all2_lengthD [OF car] list_all2_lengthD [OF assms(2)] prefix_length_le [OF pre] reach_le [of input pos] by auto
  obtain st where st: "life_run hooks app_adapter l c = (life_outcome l, st)" "handled ?kvs [] c st"
      and at: "?i \<le> reach input (committed_pos topic p (al_trace st) pos)" "reach input (committed_pos topic p (al_trace st) pos) \<le> ?i + ?n"
        "clean l \<longrightarrow> reach input (committed_pos topic p (al_trace st) pos) = ?i + ?n"
    using app_life [OF _ assms(1) refl pre car Cons.prems(3) _ refl] Cons.prems(1,4) unfolding len(1) by auto
  obtain s c1 where c1: "loop_at st s c1" "logged_tab c1 = fold (agg_step initFn aggFn) ?kvs (logged_tab c)"
      "all_produced (al_trace st) = outputs ?kvs (logged_tab c)" "length (log c1) = length (log c) + ?n"
    using st(2) unfolding handled_def len(1) by auto
  obtain segs c' pos' where IH: "lives hooks app_adapter topic p ls c1 (committed_pos topic p (al_trace st) pos)
        = (map life_outcome ls, outputs (deliveries kvs segs) (logged_tab c1), c', pos')"
      "ends_of segs = map (\<lambda>l. (length (polled_in l), clean l)) ls"
      "resumes (reach input (committed_pos topic p (al_trace st) pos)) (reach input (committed_pos topic p (al_trace st) pos)) True segs"
      "\<forall>(i, j, b) \<in> set segs. j \<le> length kvs"
      "logged_tab c' = fold (agg_step initFn aggFn) (deliveries kvs segs) (logged_tab c1)"
    using Cons.IH [of c1 "committed_pos topic p (al_trace st) pos"] Cons.prems st(1) c1(1,4) by (auto simp: loop_at_def in_step_def)
  let ?segs = "(?i, ?i + ?n, clean l) # segs"
  have seg: "deliveries kvs ?segs = ?kvs @ deliveries kvs segs" by (simp add: deliveries_def)
  have "resumes ?i ?i True ?segs" using resumes_from [OF IH(3) at] by simp
  then show ?case
    using st(1) c1 IH len(2) unfolding seg outputs_append
    by (intro exI [of _ ?segs] exI [of _ c'] exI [of _ pos']) (simp add: loop_at_def ends_of_def seg outputs_append)
qed

text \<open>All lives from an empty changelog.\<close>

lemma empty_log:
  assumes "log c = []"
  shows "good_log c" "logged_tab c = Map.empty"
proof -
  have view: "logged_view c = Map.empty"
    by (rule ext) (simp add: logged_view_def clog_def assms partition_log_def replayed_def)
  then show "logged_tab c = Map.empty"
    by (intro ext) (simp add: logged_tab_def table_def split: sum.split)
  show "good_log c" by (simp add: good_log_def view decodable_empty) (simp add: clog_def assms partition_log_def)
qed

lemma app_restarts:
  assumes "partition_input topic p input" "list_all2 (carries topic p keySerde valSerde) input kvs" "\<forall>l \<in> set ls. is_life topic p l"
    and "reads_committed hooks app_adapter topic p input ls c 0" "log c = []" "int (\<Sum>l\<leftarrow>ls. length (polled_in l)) \<le> MaxInt64"
  shows "\<exists>segs c' pos. lives hooks app_adapter topic p ls c 0 = (map life_outcome ls, outputs (deliveries kvs segs) Map.empty, c', pos)
      \<and> resumes 0 0 True segs \<and> ends_of segs = map (\<lambda>l. (length (polled_in l), clean l)) ls
      \<and> (\<forall>(i, j, b) \<in> set segs. j \<le> length kvs \<and> (\<forall>n < j. \<exists>(i', j', b') \<in> set segs. i' \<le> n \<and> n < j'))
      \<and> ((\<forall>l \<in> set ls. clean l) \<longrightarrow> deliveries kvs segs = take (\<Sum>l\<leftarrow>ls. length (polled_in l)) kvs)
      \<and> table keySerde accSerde (\<lambda>k. replayed (partition_log (changelog_topic (cf_ApplicationID cfg) store) p (log c')) (name_prefix store @ k))
        = fold (agg_step initFn aggFn) (deliveries kvs segs) Map.empty"
proof -
  obtain segs c' pos where run: "lives hooks app_adapter topic p ls c 0 = (map life_outcome ls, outputs (deliveries kvs segs) Map.empty, c', pos)"
      and segs: "ends_of segs = map (\<lambda>l. (length (polled_in l), clean l)) ls" "resumes 0 0 True segs" "\<forall>(i, j, b) \<in> set segs. j \<le> length kvs"
      and tab: "logged_tab c' = fold (agg_step initFn aggFn) (deliveries kvs segs) Map.empty"
    using app_lives [OF assms(1-4) empty_log(1) [OF assms(5)]] assms(5,6) reach_start [OF assms(1)] empty_log(2) [OF assms(5)] by auto
  have cover: "\<forall>(i, j, b) \<in> set segs. j \<le> length kvs \<and> (\<forall>n < j. \<exists>(i', j', b') \<in> set segs. i' \<le> n \<and> n < j')"
    using segs(3) resumes_covers [OF segs(2)] by (simp add: case_prod_unfold) (metis prod.collapse)
  have "\<forall>(i, j, b) \<in> set segs. b \<and> j \<le> length kvs" if "\<forall>l \<in> set ls. clean l"
  proof -
    have "\<forall>x \<in> set (ends_of segs). snd x" unfolding segs(1) using that by simp
    then show ?thesis using segs(3) by (simp add: ends_of_def case_prod_unfold)
  qed
  moreover have "(\<Sum>(i, j, b)\<leftarrow>segs. j - i) = (\<Sum>l\<leftarrow>ls. length (polled_in l))"
  proof -
    have "(\<Sum>(i, j, b)\<leftarrow>segs. j - i) = sum_list (map fst (ends_of segs))" by (simp add: ends_of_def comp_def case_prod_unfold)
    then show ?thesis by (simp add: segs(1) comp_def)
  qed
  ultimately have "(\<forall>l \<in> set ls. clean l) \<longrightarrow> deliveries kvs segs = take (\<Sum>l\<leftarrow>ls. length (polled_in l)) kvs"
    using resumes_clean [OF segs(2), of kvs] by auto
  then show ?thesis
    using tab unfolding logged_tab_def logged_view_def clog_def cl_topic_def
    by (intro exI [of _ segs] exI [of _ c'] exI [of _ pos] conjI run segs(1,2) cover)
qed

end

section \<open>A cluster that keeps its log\<close>

text \<open>A cluster whose state is the log of everything produced to it; a record has its position in its partition as its offset.\<close>

definition stamped :: "KRecord list \<Rightarrow> KRecord list" where
  "stamped rs = map (\<lambda>(i, r). r\<lparr>k_Offset := int i\<rparr>) (enumerate 0 rs)"

definition log_cluster :: "int \<Rightarrow> KRecord list \<Rightarrow> Cluster" where
  "log_cluster n log =
     \<lparr>c_NewClient = (\<lambda>_. None),
      c_ListOffsets = (\<lambda>t p ts. Inr [(t, [(p, 0, if ts = -1 then int (length (partition_log t p log)) else 0)])]),
      c_Metadata = (\<lambda>t. Inr [(Some t, 0, map (\<lambda>p. (p, 1)) [0..n - 1])]),
      c_Fetch = (\<lambda>l t p off. Inr (Some [(t, [(p, 0, int (length (partition_log t p log)), True)])])),
      c_ErrorForCode = (\<lambda>c. if c = 0 then None else Some (Err ''kafka'')),
      c_Polls = (\<lambda>t p off. [poll_of (stamped (partition_log t p log))])\<rparr>"

definition log_kafka :: "int \<Rightarrow> KRecord list Kafka" where
  "log_kafka n = \<lparr>kf_cluster = log_cluster n, kf_produce = (\<lambda>rs log. (map (\<lambda>_. None) rs, log @ rs)), kf_newProducer = (\<lambda>_. None)\<rparr>"

lemma stamped_simps:
  "map k_Key (stamped rs) = map k_Key rs" "map record_mutation (stamped rs) = map record_mutation rs"
  "map k_Offset (stamped rs) = map int [0..<length rs]"
  by (induction rs rule: rev_induct) (simp_all add: stamped_def enumerate_append_eq record_mutation_def)

lemma log_cluster_answers:
  "fetchHighWatermark (log_cluster n log) t p = Inr (int (length (partition_log t p log)))"
  "fetchEarliestOffset (log_cluster n log) t p = Inr 0"
  by (simp_all add: log_cluster_def fetchHighWatermark_def fetchEarliestOffset_def fetchOffset_def find_partition_def)

lemma log_cluster_probe:
  assumes "0 \<le> p" "p < n"
  shows "fetchReadCommittedProbe (log_cluster n log) t p off = Inr (int (length (partition_log t p log)), True)"
proof -
  have "p \<in> set (filter (\<lambda>q. q = p) [0..n - 1])" using assms by simp
  then obtain q qs where "filter (\<lambda>q. q = p) [0..n - 1] = q # qs" by (cases "filter (\<lambda>q. q = p) [0..n - 1]") auto
  then show ?thesis
    by (simp add: log_cluster_def fetchReadCommittedProbe_def fetchPartitionLeader_def find_partition_def filter_map comp_def)
qed

lemma log_cluster_serves:
  assumes "0 \<le> p" "p < n" "rs = partition_log t p log" "rs \<noteq> []"
  shows "serves (log_cluster n log) t p 0 (int (length rs)) (stamped rs)"
proof -
  have off: "map k_Offset (stamped rs) = map int [0..<length rs]" by (rule stamped_simps)
  have ne: "stamped rs \<noteq> []" using assms(4) by (cases rs) (simp_all add: stamped_def)
  have "k_Offset (last (stamped rs)) = last (map k_Offset (stamped rs))" using ne by (simp add: last_map)
  then have last: "k_Offset (last (stamped rs)) = int (length rs) - 1" using off assms(4) by (simp add: last_map of_nat_diff Suc_leI)
  have "k_Offset ` set (stamped rs) = int ` {0..<length rs}" using off by (metis list.set_map set_upt)
  then have "0 \<le> k_Offset r \<and> k_Offset r < int (length rs)" if "r \<in> set (stamped rs)" for r
    using that by (metis (no_types, lifting) atLeastLessThan_iff imageE imageI of_nat_0_le_iff of_nat_less_iff)
  moreover have "sorted_wrt (<) (map k_Offset (stamped rs))" unfolding off by (simp add: sorted_wrt_map)
  ultimately show ?thesis
    unfolding serves_def log_cluster_probe [OF assms(1,2)]
    using ne last assms(3) by (intro exI [of _ "int (length rs)"] exI [of _ True] exI [of _ "[poll_of (stamped rs)]"] exI [of _ "[]"])
      (simp add: log_cluster_def poll_of_def healthy_def)
qed

interpretation log_keeper: changelog_cluster "log_kafka n" id n for n
proof
  fix rs c c' :: "KRecord list" and results
  assume "kf_produce (log_kafka n) rs c = (results, c')"
  then show "first_err results = None \<and> id c' = id c @ rs" by (auto simp: log_kafka_def first_err_None)
next
  show "kf_newProducer (log_kafka n) topic = None" for topic by (simp add: log_kafka_def)
next
  fix c :: "KRecord list" and p topic
  let ?rs = "partition_log topic p c"
  assume "int (length (id c)) \<le> MaxInt64" "0 \<le> p" "p < n"
  moreover have "length ?rs \<le> length c" by (simp add: partition_log_def)
  ultimately have "is_i64 (int (length ?rs))" by (simp add: is_i64_def MinInt64_def)
  moreover have "k_Key ` set (stamped ?rs) = k_Key ` set ?rs" "replayed (stamped ?rs) = replayed ?rs"
    using stamped_simps(1) [of ?rs] stamped_simps(2) [of ?rs] by (metis list.set_map, simp add: replayed_def)
  moreover have "stamped [] = []" by (simp add: stamped_def)
  ultimately show "\<exists>hw earliest recs. fetchHighWatermark (kf_cluster (log_kafka n) c) topic p = Inr hw
      \<and> fetchEarliestOffset (kf_cluster (log_kafka n) c) topic p = Inr earliest \<and> is_i64 hw
      \<and> (if earliest < hw then serves (kf_cluster (log_kafka n) c) topic p earliest hw recs else recs = [])
      \<and> k_Key ` set recs \<subseteq> k_Key ` set (partition_log topic p (id c)) \<and> replayed recs = replayed (partition_log topic p (id c))"
    using log_cluster_serves [OF \<open>0 \<le> p\<close> \<open>p < n\<close> refl, of topic c]
    by (intro exI [of _ "int (length ?rs)"] exI [of _ 0] exI [of _ "stamped ?rs"]) (auto simp: log_kafka_def log_cluster_answers)
qed

section \<open>Property\<close>

text \<open>
  C1: Restarts resume the aggregation from the changelog and the committed offsets. A keyed aggregation, built with the
  typed layer and run by the adapter in the at-least-once loop over in-memory stores, is started any number of times on
  a cluster that keeps the changelog (possibly compacted). Each life gets the partition with its first poll, polls its
  records from the committed offset on, and ends between two batches: killed, with everything in memory lost, or by a
  shutdown. Commits may fail at any time. No life fails. Each life goes on somewhere in what the last one handled, and
  exactly at its end when that life was shut down and its commit accepted; so no record is skipped, and the records handled after the last
  commit are delivered to the next life and counted again. What the lives together produce to the output topic is, in order, the
  encoded update of the table for each of the delivered records, and at the end the changelog stands for the table
  that has folded the delivered records; when every life was shut down with an accepted commit, these are the
  records of the partition, each once. An accumulator must not have the empty encoding, which a changelog cannot
  tell from a deletion.
\<close>

theorem restarts_resume_aggregation:
  fixes kt :: "('a, 'k) gotype"
  assumes "changelog_cluster kf log partitions" "go_type kt" "go_type vt" "go_type ct" "total_serde keySerde" "total_serde accSerde"
    and "\<forall>x. Serialize accSerde x \<noteq> Inr []" "source \<noteq> agg_node" "source \<noteq> out_node" "store_name_ok store" "0 \<le> p" "p < partitions"
    and "cf_Brokers cfg \<noteq> []" "cf_Guarantee cfg \<noteq> ExactlyOnce" "cf_StoreProvider cfg = Some mem_Open"
    and "partition_input topic p input" "list_all2 (carries topic p keySerde valSerde) input kvs" "\<forall>l \<in> set ls. is_life topic p l"
    and "log c = []" "int (\<Sum>l\<leftarrow>ls. length (polled_in l)) \<le> MaxInt64"
  shows "\<exists>b bt a.
      aggregation_app kt vt ct source store topic out keySerde valSerde accSerde initFn aggFn NewStreamBuilder = (Inr (), b)
    \<and> StreamBuilder_Build b = Inr bt \<and> NewAdapter bt cfg noData = Inr a
    \<and> (reads_committed (adapter_hooks kf cfg) a topic p input ls c 0 \<longrightarrow> (\<exists>segs c' pos.
        lives (adapter_hooks kf cfg) a topic p ls c 0 = (map life_outcome ls,
          outRecordsToKgo (map (update_record out keySerde accSerde) (updates initFn aggFn (deliveries kvs segs) Map.empty)), c', pos)
      \<and> resumes 0 0 True segs \<and> ends_of segs = map (\<lambda>l. (length (polled_in l), clean l)) ls
      \<and> (\<forall>(i, j, b) \<in> set segs. j \<le> length kvs \<and> (\<forall>n < j. \<exists>(i', j', b') \<in> set segs. i' \<le> n \<and> n < j'))
      \<and> ((\<forall>l \<in> set ls. clean l) \<longrightarrow> deliveries kvs segs = take (\<Sum>l\<leftarrow>ls. length (polled_in l)) kvs)
      \<and> table keySerde accSerde (\<lambda>k. replayed (partition_log (changelog_topic (cf_ApplicationID cfg) store) p (log c')) (name_prefix store @ k))
        = fold (agg_step initFn aggFn) (deliveries kvs segs) Map.empty))"
proof -
  have run: "aggregation_run kf log partitions kt vt ct keySerde accSerde source store cfg p"
    using assms(1-15) by (intro aggregation_run.intro aggregation_run_axioms.intro) auto
  let ?bt = "aggregation_run.app_bt kt vt ct keySerde accSerde valSerde source store topic out initFn aggFn"
  obtain b where b: "aggregation_app kt vt ct source store topic out keySerde valSerde accSerde initFn aggFn NewStreamBuilder = (Inr (), b)"
      "StreamBuilder_Build b = Inr ?bt"
    using aggregation_run.app_builds [OF run] by blast
  show ?thesis
    by (intro exI [of _ b] exI [of _ ?bt], rule exI, intro conjI impI b,
        rule aggregation_run.app_new [OF run], rule aggregation_run.app_restarts [OF run assms(16-18) _ assms(19,20)])
qed

section \<open>Witness\<close>

text \<open>Counting per key, from the topic \<open>in\<close> to the topic \<open>counts\<close>, on partition 1 of 2.\<close>

lemma tally_not_empty: "Serialize tally_serde x \<noteq> Inr []"
  by (simp add: tally_serde_def)

lemma demo_cfg_ok:
  "cf_Brokers demo_cfg \<noteq> []" "cf_Guarantee demo_cfg \<noteq> ExactlyOnce" "cf_StoreProvider demo_cfg = Some mem_Open"
  by (simp_all add: demo_cfg_def zero_Config_def mem_Open_def [abs_def])

lemma count_names: "''src'' \<noteq> agg_node" "''src'' \<noteq> out_node" "store_name_ok ''c''"
  by (simp_all add: agg_node_def out_node_def store_name_ok_def bytes_of_def)

interpretation count_app: aggregation_run "log_kafka 2" id 2 bytes_type bytes_type int64_type bytesserde tally_serde bytesserde
    "''src''" "''c''" "''in''" "''counts''" count_init count_agg demo_cfg 1 noData for noData
  by unfold_locales (rule tally_not_empty count_names demo_cfg_ok | simp)+

definition count_record :: "bytes \<Rightarrow> int \<Rightarrow> KRecord" where
  "count_record k off = \<lparr>k_Topic = ''in'', k_Partition = 1, k_Offset = off, k_Key = k, k_Value = Some [], k_Timestamp = 0\<rparr>"

definition count_input :: "KRecord list" where
  "count_input = [count_record [1] 0, count_record [2] 1, count_record [1] 2, count_record [2] 3]"

definition first_poll :: "KRecord list \<Rightarrow> AloEvent" where
  "first_poll rs = (alo_poll rs 1)\<lparr>ae_rebalances := [Assigned [(''in'', [1])]]\<rparr>"

text \<open>
  Three lives: the first is killed before a commit is due, the second gets its records again and is
  shut down, the third goes on after them.
\<close>

definition three_lives :: "life list" where
  "three_lives =
     [(0, 9, [first_poll [count_record [1] 0, count_record [2] 1]], None),
      (5, 9, [first_poll [count_record [1] 0, count_record [2] 1], alo_poll [count_record [1] 2] 7],
         Some ((alo_poll [] 8)\<lparr>ae_ctxErr := Some (Err ''canceled'')\<rparr>)),
      (9, 9, [first_poll [count_record [2] 3]], None)]"

definition count_adapter :: "(MemBackend, goval) Adapter option" where
  "count_adapter =
     (case aggregation_app bytes_type bytes_type int64_type ''src'' ''c'' ''in'' ''counts'' bytesserde bytesserde tally_serde count_init count_agg
             NewStreamBuilder of (_, b) \<Rightarrow>
        (case StreamBuilder_Build b of Inl _ \<Rightarrow> None | Inr bt \<Rightarrow>
           (case NewAdapter bt demo_cfg fresh_memory of Inl _ \<Rightarrow> None | Inr a \<Rightarrow> Some a)))"

lemma three_lives_run:
  "case count_adapter of None \<Rightarrow> False | Some a \<Rightarrow> reads_committed (adapter_hooks (log_kafka 2) demo_cfg) a ''in'' 1 count_input three_lives [] 0
     \<and> map (\<lambda>r. (k_Key r, k_Value r)) (fst (snd (lives (adapter_hooks (log_kafka 2) demo_cfg) a ''in'' 1 three_lives [] 0)))
       = [([1], Some [0, 1]), ([2], Some [0, 1]), ([1], Some [0, 1, 1]), ([2], Some [0, 1, 1]), ([1], Some [0, 1, 1, 1]), ([2], Some [0, 1, 1, 1])]"
  by code_simp

lemma three_lives_ok:
  "partition_input ''in'' 1 count_input" "\<forall>l \<in> set three_lives. is_life ''in'' 1 l"
  "list_all2 (carries ''in'' 1 bytesserde bytesserde) count_input [([1], [], 0), ([2], [], 0), ([1], [], 0), ([2], [], 0)]"
  by (simp_all add: three_lives_def count_input_def partition_input_def count_record_def is_life_def first_poll_def alo_poll_def smooth_def shuts_down_def first_err_None
      carries_def bytesserde_def)

theorem restarts_resume_aggregation_witness:
  "\<exists>b bt a segs outs c' pos. aggregation_app bytes_type bytes_type int64_type ''src'' ''c'' ''in'' ''counts'' bytesserde bytesserde tally_serde
        count_init count_agg NewStreamBuilder = (Inr (), b)
    \<and> StreamBuilder_Build b = Inr bt \<and> NewAdapter bt demo_cfg fresh_memory = Inr a
    \<and> reads_committed (adapter_hooks (log_kafka 2) demo_cfg) a ''in'' 1 count_input three_lives [] 0
    \<and> lives (adapter_hooks (log_kafka 2) demo_cfg) a ''in'' 1 three_lives [] 0 = ([Continue, Exit None, Continue], outs, c', pos)
    \<and> map (\<lambda>r. (k_Key r, k_Value r)) outs
      = [([1], Some [0, 1]), ([2], Some [0, 1]), ([1], Some [0, 1, 1]), ([2], Some [0, 1, 1]), ([1], Some [0, 1, 1, 1]), ([2], Some [0, 1, 1, 1])]
    \<and> resumes 0 0 True segs \<and> ends_of segs = [(2, False), (3, True), (1, False)]"
proof -
  have bound: "int (\<Sum>l\<leftarrow>three_lives. length (polled_in l)) \<le> MaxInt64"
    by (simp add: three_lives_def polled_in_def first_poll_def alo_poll_def MaxInt64_def)
  have ends: "map (\<lambda>l. (length (polled_in l), clean l)) three_lives = [(2, False), (3, True), (1, False)]"
    "map life_outcome three_lives = [Continue, Exit None, Continue]"
    by (simp_all add: three_lives_def polled_in_def clean_def life_outcome_def first_poll_def alo_poll_def)
  obtain b bt a where built: "aggregation_app bytes_type bytes_type int64_type ''src'' ''c'' ''in'' ''counts'' bytesserde bytesserde tally_serde
        count_init count_agg NewStreamBuilder = (Inr (), b)" "StreamBuilder_Build b = Inr bt" "NewAdapter bt demo_cfg fresh_memory = Inr a"
      and run: "reads_committed (adapter_hooks (log_kafka 2) demo_cfg) a ''in'' 1 count_input three_lives [] 0 \<Longrightarrow>
        \<exists>segs outs c' pos. lives (adapter_hooks (log_kafka 2) demo_cfg) a ''in'' 1 three_lives [] 0 = ([Continue, Exit None, Continue], outs, c', pos)
          \<and> resumes 0 0 True segs \<and> ends_of segs = [(2, False), (3, True), (1, False)]"
    using restarts_resume_aggregation [OF log_keeper.changelog_cluster_axioms bytes_ty.go_type_axioms bytes_ty.go_type_axioms
      int64_ty.go_type_axioms bytes_sd.total_serde_axioms tally.total_serde_axioms _ count_names _ _ demo_cfg_ok three_lives_ok(1,3,2) _ bound,
      where c = "[]" and initFn = count_init and aggFn = count_agg and out = "''counts''" and noData = fresh_memory and partitions = 2]
      tally_not_empty unfolding ends by simp blast
  have adapter: "count_adapter = Some a" using built by (simp add: count_adapter_def)
  have ran: "reads_committed (adapter_hooks (log_kafka 2) demo_cfg) a ''in'' 1 count_input three_lives [] 0"
    "map (\<lambda>r. (k_Key r, k_Value r)) (fst (snd (lives (adapter_hooks (log_kafka 2) demo_cfg) a ''in'' 1 three_lives [] 0)))
       = [([1], Some [0, 1]), ([2], Some [0, 1]), ([1], Some [0, 1, 1]), ([2], Some [0, 1, 1]), ([1], Some [0, 1, 1, 1]), ([2], Some [0, 1, 1, 1])]"
    using three_lives_run unfolding adapter option.case by blast+
  obtain segs outs c' pos where "lives (adapter_hooks (log_kafka 2) demo_cfg) a ''in'' 1 three_lives [] 0 = ([Continue, Exit None, Continue], outs, c', pos)"
      "resumes 0 0 True segs" "ends_of segs = [(2, False), (3, True), (1, False)]"
    using run [OF ran(1)] by blast
  with ran built show ?thesis
    by (intro exI [of _ b] exI [of _ bt] exI [of _ a] exI [of _ segs] exI [of _ outs] exI [of _ c'] exI [of _ pos]) simp
qed

end
