(* ===== verification/Serdes.thy ===== *)
theory Serdes
  imports KafkaTypes
begin

text \<open>
  \<open>serdes/json\<close> and \<open>serdes/proto\<close>, with the JSON and protobuf libraries as arguments, and JSON for the optional
  values of \<open>xtypes/nil.go\<close>: when the libraries undo their own encodings, the serdes meet the
  contract \<open>serde_law\<close> that the operators rely on.
\<close>

section \<open>Definitions\<close>

text \<open>\<open>json.Marshal\<close> and \<open>json.Unmarshal\<close> at the type.\<close>

definition jsonserde :: "('t \<Rightarrow> error + bytes) \<Rightarrow> (bytes \<Rightarrow> error + 't) \<Rightarrow> 't Serde" where
  "jsonserde jsonMarshal jsonUnmarshal = \<lparr>Serialize = jsonMarshal, Deserialize = jsonUnmarshal\<rparr>"

text \<open>
  What reflection finds of the type argument: no type at all (an interface), a type that is no pointer, or
  a pointer, with the new message it points to if that is a value of the type.
\<close>

datatype 't reflected = NilType | NonPointer | PointerTo "'t option"

text \<open>\<open>proto.Unmarshal\<close> decodes into a given message.\<close>

definition protoserde :: "('t \<Rightarrow> error + bytes) \<Rightarrow> (bytes \<Rightarrow> 't \<Rightarrow> error + 't) \<Rightarrow> 't reflected \<Rightarrow> 't Serde" where
  "protoserde protoMarshal protoUnmarshal typeOfT =
     \<lparr>Serialize = protoMarshal,
      Deserialize = (\<lambda>b. case typeOfT of
          NilType \<Rightarrow> Inl (Err ''protoserde: message type must be a pointer'')
        | NonPointer \<Rightarrow> Inl (Err ''protoserde: message type must be a pointer'')
        | PointerTo None \<Rightarrow> Inl (Err ''protoserde: cannot allocate'')
        | PointerTo (Some v) \<Rightarrow> (case protoUnmarshal b v of Inl err \<Rightarrow> Inl err | Inr msg \<Rightarrow> Inr msg))\<rparr>"

section \<open>The contract\<close>

lemma jsonserde_law:
  assumes "\<And>v b. jsonMarshal v = Inr b \<Longrightarrow> jsonUnmarshal b = Inr v"
  shows "serde_law (jsonserde jsonMarshal jsonUnmarshal)"
  by unfold_locales (simp add: jsonserde_def assms)

lemma protoserde_law:
  assumes "\<And>v b. protoMarshal v = Inr b \<Longrightarrow> protoUnmarshal b fresh = Inr v"
  shows "serde_law (protoserde protoMarshal protoUnmarshal (PointerTo (Some fresh)))"
  by unfold_locales (simp add: protoserde_def assms)

text \<open>At a type that is no pointer to a message, everything can be written and nothing read back.\<close>

lemma protoserde_unreadable:
  "(\<forall>v. typeOfT \<noteq> PointerTo (Some v)) \<longleftrightarrow> (\<forall>protoUnmarshal b. \<exists>err. Deserialize (protoserde protoMarshal protoUnmarshal typeOfT) b = Inl err)"
proof
  assume "\<forall>v. typeOfT \<noteq> PointerTo (Some v)"
  then show "\<forall>protoUnmarshal b. \<exists>err. Deserialize (protoserde protoMarshal protoUnmarshal typeOfT) b = Inl err"
    by (auto simp: protoserde_def split: reflected.split option.split)
next
  assume unreadable: "\<forall>protoUnmarshal b. \<exists>err. Deserialize (protoserde protoMarshal protoUnmarshal typeOfT) b = Inl err"
  have "\<exists>err. Deserialize (protoserde protoMarshal (\<lambda>_ v. Inr v) typeOfT) [] = Inl err" using unreadable by blast
  then show "\<forall>v. typeOfT \<noteq> PointerTo (Some v)" by (auto simp: protoserde_def)
qed

text \<open>
  JSON of an optional value, for values whose own encoding is never \<open>null\<close>: present values are read back, and every
  absent one as the zero value of the struct.
\<close>

lemma nil_json_roundtrip:
  assumes "\<And>v b. jsonMarshal v = Inr b \<Longrightarrow> jsonUnmarshal b = Inr v \<and> b \<noteq> nullAsBytes" "Nil_MarshalJSON jsonMarshal t = Inr b"
  shows "Nil_UnmarshalJSON jsonUnmarshal z b = Inr (if IsZero t then NilZero z else t)"
  using assms(2) assms(1) [of "Value t" b]
  by (cases t) (auto simp: Nil_MarshalJSON_def Nil_UnmarshalJSON_def IsZero_def split: if_splits sum.splits)

text \<open>An optional value that itself is optional and absent is not read back as it was.\<close>

lemma nil_json_nested:
  assumes "outer = NilOf (NilZero z)"
  shows "Nil_MarshalJSON (Nil_MarshalJSON jsonMarshal) outer = Inr nullAsBytes
    \<and> Nil_UnmarshalJSON (Nil_UnmarshalJSON jsonUnmarshal z) (NilZero z) nullAsBytes = Inr (NilZero (NilZero z)) \<and> NilZero (NilZero z) \<noteq> outer"
  by (simp add: assms Nil_MarshalJSON_def Nil_UnmarshalJSON_def NilOf_def NilZero_def)

end
