(* ===== verification/Spec2Isabelle.thy ===== *)
theory Spec2Isabelle
  imports Application PebbleStore Serdes
begin

text \<open>
  \<^bold>\<open>gstream\<close> is a stream-processing library on Kafka. A typed builder turns a program (filters,
  aggregations, windows, joins) into a graph of processors; a runtime runs one task per partition with
  local stores that are backed by changelog topics; a client polls records, processes them, produces the output
  and commits, at least once or exactly once.

  \<^bold>\<open>Theories and the sources they model\<close> (paths under \<open>src/\<close>)

  \<^item> \<open>Prelude\<close>: Go's \<open>int64\<close> arithmetic with wrap-around (\<open>i64\<close>), truncating and floor division, big-endian
    bytes, errors as a datatype with \<open>errors.Is\<close> for the two sentinels, Go maps as association lists.
  \<^item> \<open>WinKey\<close> (\<open>internal/winkey\<close>, \<open>stores/pebble/window_key.go\<close>): composite window keys, their decoders and
    scan bounds. \<open>Windows\<close> (\<open>window.go\<close>): tumbling and hopping assignment.
  \<^item> \<open>StoreApi\<close> (\<open>store.go\<close>, \<open>serde.go\<close>): the store interface and the locales that state the contracts of
    stores (\<open>byte_store\<close>), serdes (\<open>serde_law\<close>, \<open>total_serde\<close>) and boxed types (\<open>go_type\<close>).
    \<open>MemoryStore\<close> (\<open>stores/memory\<close>) and \<open>PebbleStore\<close> (\<open>stores/pebble\<close>) implement it; Pebble itself is a parameter with the
    locale \<open>pebble_db\<close>, interpreted on an association list.
  \<^item> \<open>Topology\<close> (\<open>internal/topology\<close>): builder, depth-first traversal, executor, test driver.
    \<open>StoreCtx\<close>: an executor's view of one store, the locale that the stateful operators rely on.
  \<^item> \<open>Grouped\<close>, \<open>Windowed\<close>, \<open>Session\<close>, \<open>SSJoin\<close> (\<open>grouped.go\<close>, \<open>join.go\<close>, \<open>windowed.go\<close>, \<open>session.go\<close>, \<open>ssjoin.go\<close>): the stateful
    processors. \<open>StreamDsl\<close> (\<open>stream.go\<close>, \<open>operators.go\<close>, \<open>repartition.go\<close>, \<open>ktable.go\<close>, \<open>global_ktable.go\<close>): the typed
    builder. \<open>Pipeline\<close> composes builder, executor and store.
  \<^item> \<open>Sweep\<close> (\<open>internal/runtime/task_manager.go\<close>): the two retention sweeps.
  \<^item> \<open>KafkaTypes\<close> (\<open>xtypes\<close>, \<open>internal/kafka/record.go\<close>, \<open>internal/runtime/changelog.go\<close>): records at the client's boundary, murmur2 and the
    partitioners, the changelog producer. \<open>Serdes\<close> (\<open>serdes\<close>): the JSON and protobuf serdes. \<open>Backend\<close>: the interface of storage back ends (locales \<open>state_backend\<close>,
    \<open>open_backend\<close>) with its in-memory and Pebble instances and their providers. \<open>Restore\<close> (\<open>internal/runtime/restore.go\<close>): replay of a changelog.
  \<^item> \<open>Batch\<close> (\<open>internal/kafka/batch.go\<close>): sequential and concurrent batches. \<open>ClientLoop\<close> (\<open>internal/kafka/client.go\<close>): offset committer and
    both run loops. \<open>Config\<close> (\<open>config.go\<close>). \<open>TaskManager\<close> (\<open>internal/runtime/task_manager.go\<close>). \<open>Admin\<close> (\<open>internal/kafka/admin.go\<close>): topics.
    \<open>GlobalConsumer\<close> (\<open>global_consumer.go\<close>, \<open>health.go\<close>). \<open>Adapter\<close> (\<open>adapter.go\<close>): routing, processing and hooks. \<open>Client\<close>: construction of the
    client and the choice of its loop. \<open>Application\<close>: an aggregation run by all of these, over several lives.

  \<^bold>\<open>How the code is modelled.\<close> Structs are records, operations are functions that return the new
  state with their result, and every error return is a branch; a Go panic is an error value as well.
  Timestamps, offsets and sizes are integers with \<open>i64\<close> where the code computes with \<open>int64\<close>. Maps are
  iterated in some order: the association list is that order and the statements hold for each. A
  processor acts on the state of its executor (\<open>estate\<close>): back-end data, stream-time, sink buffers. The
  outside world enters as arguments: the answers of a cluster, a sequence of polls, the
  schedule of goroutines, the file system. The loops of the client are functions of the sequence of
  their events and log each effect on Kafka in a trace.

  \<^bold>\<open>Bounds and fuel.\<close> The traversal of a graph, which is recursive without a bound in the code, is
  computed with fuel for the number of nodes. On every graph built without a self-parent the calls are well-founded and never
  nest deeper than that, so the fuel is never used up there and the unbounded recursion is satisfied. Hopping assignment and changelog restore are partial: \<open>None\<close> or \<open>Diverges\<close> means that
  the code does not return, and the theorems say when it does. A run loop stops modelling after the events
  given to it; \<open>Continue\<close> then means that it is still running. A concurrent batch takes the turns of a schedule; fair
  schedules of the stated length are shown to finish it. Waiting for topics takes the number of ticks before its deadline.

  \<^bold>\<open>What is proved.\<close> An application that is restarted any number of times, with nothing but
  its changelog and its committed offsets kept, skips no record and produces what one run over the records as they were delivered would have: those handled
  after the last commit again, and each once when every life was shut down with an accepted commit. Stores are maps with ordered ranges and agree with each other; a changelog
  rebuilds its store. Each processor computes the fold it stands for: aggregates, windows,
  sessions (the exact partition into maximal sessions), joins. The builder keeps its graph well wired (but for \<open>KTable.To\<close> on a table without a sink)
  and every graph built without a self-parent is traversed in finite time. The task manager opens, restores, drains and
  closes tasks so that every reachable state can drain; its two changelog paths write the same records. The
  at-least-once loop commits only what was produced, also from rebalance callbacks while a batch is in flight, the exactly-once loop shows a committed observer whole batches
  only. Concurrent batches agree with sequential ones for every interleaving, on the adapter itself, outputs in order within each partition. A failed store write
  ends the run before anything of its batch becomes visible. Where the code departs from its intention, theorems
  show that as well: hopping windows at the end of the range of \<open>int64\<close>, self-parent nodes, retention sweeps that
  forget windows still in use, a restore with the largest checkpoint, empty values, and the bootstrap of transactional topics.

  \<^bold>\<open>Interfaces.\<close> Locales state what a component relies on, and each is interpreted on the
  model of the code: \<open>byte_store\<close>, \<open>state_backend\<close>, \<open>open_backend\<close> and \<open>drain_backend\<close> on the memory and Pebble stores, \<open>partitioned\<close> (what makes
  a handler safe to run concurrently) on the adapter's \<open>ProcessFunc\<close>, the operator locales (\<open>table_ctx\<close>, \<open>store_ctx\<close>, \<open>late_ctx\<close>) on executors. \<open>pebble_db\<close> and
  \<open>changelog_cluster\<close> state what is relied on of Pebble and of Kafka, and are interpreted on a list of entries and on a list of records.

  \<^bold>\<open>Not modelled.\<close> The Kafka library, Pebble and the JSON and protobuf libraries are parameters with
  their documented laws. Logging is left out, as are the loggers, the texts of errors beyond their prefix, mutexes (the
  callbacks of a rebalance run during a poll or, in the at-least-once loop, at the points between the steps of a batch), and the closing of connections. The
  lives of \<open>Application\<close> end between batches, never inside one. A closed task's back end is forgotten, and the provider opens a back end as a function of its path: what a closed task left on disk is not an input of the next one. The data of a global store that a tail
  consumer changes while tasks read it is not shared with the tasks' states: its handle is an argument of
  \<open>BootstrapGlobalStores\<close>. Fakes for tests, the container helper of the integration tests and the example program are not part of the library.
\<close>

end
